(* ===== verification/Prelude.thy ===== *)
theory Prelude
  imports Main "HOL-Library.Word"
begin

text \<open>
  Shared vocabulary of the development.

  The kernel is C code that reads and writes memory and stops the machine when an
  \<open>assert\<close> of \<^verbatim>\<open>include/assert.h\<close> fails. An operation with effects is a function of type
  \<open>('s, 'a) km\<close>: it takes a state and either stops with a \<open>kerror\<close> or returns a value and
  the next state. The theory gives the combinators of these functions, a total-correctness
  judgement \<open>runs_to\<close> with one rewrite rule per combinator (collected in \<open>wp\<close>), and the
  list and word facts used by several components.
\<close>

unbundle bit_operations_syntax

section \<open>Machine integers\<close>

type_synonym u8 = "8 word"
type_synonym u16 = "16 word"
type_synonym u32 = "32 word"
type_synonym u64 = "64 word"

section \<open>Failures\<close>

text \<open>
  \<open>AssertFail\<close> is a failed \<open>assert\<close> (the kernel prints the expression and panics), \<open>Panic\<close> an
  explicit \<open>panic\<close>. \<open>Deadlock\<close> is the spin loop of \<open>spinlock_acquire\<close> giving up on a lock
  that nobody releases. \<open>NullDeref\<close>, \<open>OutOfBounds\<close> and \<open>Undefined\<close> mark the places where the
  C code would read through a null pointer, leave an array, or run into undefined behaviour.
  \<open>Blocked\<close> means the calling thread goes to sleep; \<open>OutOfFuel\<close> that the bound given for a
  loop was too small.
\<close>

datatype kerror =
    AssertFail string
  | Panic string
  | Deadlock
  | NullDeref
  | OutOfBounds
  | Undefined
  | Blocked
  | OutOfFuel

type_synonym ('s, 'a) km = "'s \<Rightarrow> kerror + ('a \<times> 's)"

section \<open>Combinators\<close>

definition kreturn :: "'a \<Rightarrow> ('s, 'a) km" where
  "kreturn x = (\<lambda>s. Inr (x, s))"

definition kfail :: "kerror \<Rightarrow> ('s, 'a) km" where
  "kfail e = (\<lambda>s. Inl e)"

definition kbind :: "('s, 'a) km \<Rightarrow> ('a \<Rightarrow> ('s, 'b) km) \<Rightarrow> ('s, 'b) km" where
  "kbind m f = (\<lambda>s. case m s of Inl e \<Rightarrow> Inl e | Inr (x, t) \<Rightarrow> f x t)"

definition kget :: "('s \<Rightarrow> 'a) \<Rightarrow> ('s, 'a) km" where
  "kget f = (\<lambda>s. Inr (f s, s))"

definition kmodify :: "('s \<Rightarrow> 's) \<Rightarrow> ('s, unit) km" where
  "kmodify f = (\<lambda>s. Inr ((), f s))"

definition kassert :: "bool \<Rightarrow> string \<Rightarrow> ('s, unit) km" where
  "kassert b msg = (if b then kreturn () else kfail (AssertFail msg))"

definition kguard :: "bool \<Rightarrow> kerror \<Rightarrow> ('s, unit) km" where
  "kguard b e = (if b then kreturn () else kfail e)"

definition kthen :: "('s, 'a) km \<Rightarrow> ('s, 'b) km \<Rightarrow> ('s, 'b) km" where
  "kthen m n = kbind m (\<lambda>_. n)"

definition kwhen :: "bool \<Rightarrow> ('s, unit) km \<Rightarrow> ('s, unit) km" where
  "kwhen b m = (if b then m else kreturn ())"

text \<open>A C \<open>for\<close> loop over a list of values that are known when it starts.\<close>

fun kfor :: "'a list \<Rightarrow> ('a \<Rightarrow> ('s, unit) km) \<Rightarrow> ('s, unit) km" where
  "kfor [] body = kreturn ()"
| "kfor (x # xs) body = kthen (body x) (kfor xs body)"

lemmas km_defs = kreturn_def kfail_def kbind_def kget_def kmodify_def kassert_def
  kguard_def kthen_def kwhen_def

section \<open>Total correctness\<close>

text \<open>
  \<open>runs_to m s Q\<close>: from state \<open>s\<close> the operation \<open>m\<close> returns (no assertion fails, no pointer
  is wrong, no loop bound is hit) and its result and final state satisfy \<open>Q\<close>.
\<close>

definition runs_to :: "('s, 'a) km \<Rightarrow> 's \<Rightarrow> ('a \<Rightarrow> 's \<Rightarrow> bool) \<Rightarrow> bool" where
  "runs_to m s Q \<longleftrightarrow> (\<exists>x t. m s = Inr (x, t) \<and> Q x t)"

named_theorems wp

lemma runs_to_kreturn [wp]: "runs_to (kreturn x) s Q \<longleftrightarrow> Q x s"
  by (simp add: runs_to_def kreturn_def)

lemma runs_to_kfail [wp]: "\<not> runs_to (kfail e) s Q"
  by (simp add: runs_to_def kfail_def)

lemma runs_to_kbind [wp]:
  "runs_to (kbind m f) s Q \<longleftrightarrow> runs_to m s (\<lambda>x t. runs_to (f x) t Q)"
  by (auto simp: runs_to_def kbind_def split: sum.splits prod.splits)

lemma runs_to_kthen [wp]:
  "runs_to (kthen m n) s Q \<longleftrightarrow> runs_to m s (\<lambda>x t. runs_to n t Q)"
  by (simp add: kthen_def runs_to_kbind)

lemma runs_to_kget [wp]: "runs_to (kget f) s Q \<longleftrightarrow> Q (f s) s"
  by (simp add: runs_to_def kget_def)

lemma runs_to_kmodify [wp]: "runs_to (kmodify f) s Q \<longleftrightarrow> Q () (f s)"
  by (simp add: runs_to_def kmodify_def)

lemma runs_to_kassert [wp]: "runs_to (kassert b msg) s Q \<longleftrightarrow> b \<and> Q () s"
  by (simp add: kassert_def runs_to_kreturn runs_to_kfail)

lemma runs_to_kguard [wp]: "runs_to (kguard b e) s Q \<longleftrightarrow> b \<and> Q () s"
  by (simp add: kguard_def runs_to_kreturn runs_to_kfail)

lemma runs_to_kwhen [wp]:
  "runs_to (kwhen b m) s Q \<longleftrightarrow> (if b then runs_to m s Q else Q () s)"
  by (simp add: kwhen_def runs_to_kreturn)

lemma runs_to_kfor_Nil [wp]: "runs_to (kfor [] body) s Q \<longleftrightarrow> Q () s"
  by (simp add: runs_to_kreturn)

lemma runs_to_kfor_Cons [wp]:
  "runs_to (kfor (x # xs) body) s Q \<longleftrightarrow> runs_to (body x) s (\<lambda>_ t. runs_to (kfor xs body) t Q)"
  by (simp add: runs_to_kthen)

lemma runs_to_kfor_append:
  "runs_to (kfor (xs @ ys) body) s Q \<longleftrightarrow> runs_to (kfor xs body) s (\<lambda>_ t. runs_to (kfor ys body) t Q)"
  by (induction xs arbitrary: s) (simp_all add: runs_to_kthen runs_to_kreturn)

lemma runs_to_if [wp]:
  "runs_to (if b then m else n) s Q \<longleftrightarrow> (if b then runs_to m s Q else runs_to n s Q)"
  by simp

lemma runs_to_case_option [wp]:
  "runs_to (case x of None \<Rightarrow> m | Some y \<Rightarrow> n y) s Q \<longleftrightarrow>
     (case x of None \<Rightarrow> runs_to m s Q | Some y \<Rightarrow> runs_to (n y) s Q)"
  by (cases x) simp_all

lemma runs_to_case_prod [wp]:
  "runs_to (case x of (a, b) \<Rightarrow> m a b) s Q \<longleftrightarrow> (case x of (a, b) \<Rightarrow> runs_to (m a b) s Q)"
  by (cases x) simp

lemma runs_to_let [wp]: "runs_to (let x = e in m x) s Q \<longleftrightarrow> (let x = e in runs_to (m x) s Q)"
  by (simp add: Let_def)

text \<open>Using a lemma about a called operation: weaken what is known of its result.\<close>

lemma runs_to_mono:
  "runs_to m s P \<Longrightarrow> (\<And>x t. P x t \<Longrightarrow> Q x t) \<Longrightarrow> runs_to m s Q"
  by (auto simp: runs_to_def)

lemma runs_to_cong: "m s = n s \<Longrightarrow> runs_to m s Q \<longleftrightarrow> runs_to n s Q"
  by (simp add: runs_to_def)

lemma runs_to_conj: "runs_to m s P \<Longrightarrow> runs_to m s Q \<Longrightarrow> runs_to m s (\<lambda>x t. P x t \<and> Q x t)"
  by (auto simp: runs_to_def)

lemma runs_to_result: "runs_to m s Q \<Longrightarrow> \<exists>x t. m s = Inr (x, t) \<and> Q x t"
  by (simp add: runs_to_def)

lemma runs_toI: "m s = Inr (x, t) \<Longrightarrow> Q x t \<Longrightarrow> runs_to m s Q"
  by (simp add: runs_to_def)

lemma runs_toD: "runs_to m s Q \<Longrightarrow> m s = Inr (x, t) \<Longrightarrow> Q x t"
  by (simp add: runs_to_def)

text \<open>The loop rule: an invariant over the part of the list already done.\<close>

lemma runs_to_kfor:
  assumes step: "\<And>ys x zs t. xs = ys @ x # zs \<Longrightarrow> I ys t \<Longrightarrow> runs_to (body x) t (\<lambda>_. I (ys @ [x]))"
    and init: "I [] s"
  shows "runs_to (kfor xs body) s (\<lambda>_. I xs)"
proof -
  have "runs_to (kfor zs body) t (\<lambda>_. I xs)" if "xs = ys @ zs" "I ys t" for ys zs t
    using that
  proof (induction zs arbitrary: ys t)
    case Nil
    then show ?case by (simp add: runs_to_kreturn)
  next
    case (Cons x zs)
    have "runs_to (body x) t (\<lambda>_. I (ys @ [x]))"
      using Cons.prems step by blast
    then show ?case
      unfolding runs_to_kfor_Cons
      by (rule runs_to_mono) (use Cons in auto)
  qed
  from this [of "[]" xs s] init show ?thesis by simp
qed

section \<open>Lists\<close>

text \<open>The element before, and insertion after, a given element of a list without repetition.\<close>

fun list_prev :: "'a \<Rightarrow> 'a list \<Rightarrow> 'a option" where
  "list_prev x [] = None"
| "list_prev x [y] = None"
| "list_prev x (y # z # zs) = (if z = x then Some y else list_prev x (z # zs))"

fun list_next :: "'a \<Rightarrow> 'a list \<Rightarrow> 'a option" where
  "list_next x [] = None"
| "list_next x [y] = None"
| "list_next x (y # z # zs) = (if y = x then Some z else list_next x (z # zs))"

fun insert_after :: "'a \<Rightarrow> 'a \<Rightarrow> 'a list \<Rightarrow> 'a list" where
  "insert_after p x [] = []"
| "insert_after p x (y # ys) = (if y = p then y # x # ys else y # insert_after p x ys)"

lemma list_prev_append [simp]:
  "distinct (xs @ p # q # ys) \<Longrightarrow> list_prev q (xs @ p # q # ys) = Some p"
proof (induction xs)
  case Nil
  then show ?case by simp
next
  case (Cons a xs)
  then show ?case by (cases xs) auto
qed

lemma list_prev_first: "distinct (q # ys) \<Longrightarrow> list_prev q (q # ys) = None"
proof -
  have aux: "q \<notin> set ys \<Longrightarrow> list_prev q (y # ys) = None" for y ys
    by (induction ys arbitrary: y) auto
  assume "distinct (q # ys)"
  then show ?thesis by (simp add: aux)
qed

lemma list_next_append [simp]:
  "distinct (xs @ p # q # ys) \<Longrightarrow> list_next p (xs @ p # q # ys) = Some q"
proof (induction xs)
  case Nil
  then show ?case by simp
next
  case (Cons a xs)
  then show ?case by (cases xs) auto
qed

lemma list_next_last: "distinct (xs @ [p]) \<Longrightarrow> list_next p (xs @ [p]) = None"
proof (induction xs)
  case Nil
  then show ?case by simp
next
  case (Cons a xs)
  then show ?case by (cases xs) auto
qed

lemma insert_after_append [simp]:
  "p \<notin> set xs \<Longrightarrow> insert_after p x (xs @ p # ys) = xs @ p # x # ys"
  by (induction xs) auto

lemma set_insert_after: "p \<in> set xs \<Longrightarrow> set (insert_after p x xs) = insert x (set xs)"
  by (induction xs) auto

lemma insert_after_notin [simp]: "p \<notin> set xs \<Longrightarrow> insert_after p x xs = xs"
  by (induction xs) auto

lemma set_insert_after_subset: "set (insert_after p x xs) \<subseteq> insert x (set xs)"
  by (induction xs) auto

lemma distinct_insert_after:
  "distinct xs \<Longrightarrow> x \<notin> set xs \<Longrightarrow> distinct (insert_after p x xs)"
  by (induction xs) (use set_insert_after_subset in fastforce)+

lemma upt_split:
  assumes "[a..<b] = ys @ i # zs"
  shows "ys = [a..<i]" and "a \<le> i" and "i < b"
proof -
  have l: "length ys < b - a" using arg_cong [OF assms, of length] by simp
  have "i = [a..<b] ! length ys" by (simp add: assms)
  then have i: "i = a + length ys" using l by simp
  have "ys = take (length ys) [a..<b]" by (simp add: assms)
  then show "ys = [a..<i]" "a \<le> i" "i < b" using l i by (simp_all add: take_upt)
qed

lemma list_prev_last:
  "xs \<noteq> [] \<Longrightarrow> distinct (xs @ p # ys) \<Longrightarrow> list_prev p (xs @ p # ys) = Some (last xs)"
  using list_prev_append [of "butlast xs" "last xs" p ys]
    append_butlast_last_id [of xs] by (metis append.assoc append_Cons append_Nil)

lemma list_next_hd:
  "distinct (xs @ p # ys) \<Longrightarrow> list_next p (xs @ p # ys) = (case ys of [] \<Rightarrow> None | y # _ \<Rightarrow> Some y)"
  by (cases ys) (simp_all add: list_next_last)

lemma insert_after_last:
  "xs \<noteq> [] \<Longrightarrow> distinct (xs @ ys) \<Longrightarrow> insert_after (last xs) n (xs @ ys) = xs @ n # ys"
proof -
  assume a: "xs \<noteq> []" "distinct (xs @ ys)"
  then obtain us u where xs: "xs = us @ [u]" by (meson rev_exhaust)
  with a show ?thesis using insert_after_append [of u us n ys] by simp
qed

end
