(* ===== verification/Ndk_Util.thy ===== *)
theory Ndk_Util
  imports Prelude
begin

text \<open>
  The arithmetic macros of \<^verbatim>\<open>include/ndk/util.h\<close>, the address conversions of
  \<^verbatim>\<open>include/ndk/addr.h\<close> and the page constants of \<^verbatim>\<open>include/ndk/ports/amd64.h\<close>, on 64-bit
  words with the wrap-around C gives them, and what they compute as long as nothing wraps.
\<close>

section \<open>Macros\<close>

definition ALIGN_UP :: "u64 \<Rightarrow> u64 \<Rightarrow> u64" where
  "ALIGN_UP addr align = (addr + align - 1) AND NOT (align - 1)"

definition ALIGN_DOWN :: "u64 \<Rightarrow> u64 \<Rightarrow> u64" where
  "ALIGN_DOWN addr align = addr AND NOT (align - 1)"

definition DIV_ROUNDUP :: "u64 \<Rightarrow> u64 \<Rightarrow> u64" where
  "DIV_ROUNDUP a b = (a + (b - 1)) div b"

definition KiB :: "u64 \<Rightarrow> u64" where
  "KiB n = push_bit 10 1 * n"

definition MiB :: "u64 \<Rightarrow> u64" where
  "MiB n = push_bit 20 1 * n"

definition GiB :: "u64 \<Rightarrow> u64" where
  "GiB n = push_bit 30 1 * n"

definition TiB :: "u64 \<Rightarrow> u64" where
  "TiB n = push_bit 40 1 * n"

definition P2CHECK :: "u64 \<Rightarrow> bool" where
  "P2CHECK v \<longleftrightarrow> v AND (v - 1) = 0"

definition MAX_u64 :: "u64 \<Rightarrow> u64 \<Rightarrow> u64" where
  "MAX_u64 a b = (if a > b then a else b)"

definition MIN_u64 :: "u64 \<Rightarrow> u64 \<Rightarrow> u64" where
  "MIN_u64 a b = (if a < b then a else b)"

text \<open>
  \<open>__builtin_clzl\<close>: the number of zero bits above the highest set bit. The compiler leaves
  the result for 0 undefined; users of the definition check for 0 first.
\<close>

definition builtin_clzl :: "u64 \<Rightarrow> nat" where
  "builtin_clzl x = length (takeWhile (\<lambda>i. \<not> bit x i) (rev [0..<64]))"

definition log2_u64 :: "u64 \<Rightarrow> nat" where
  "log2_u64 number = 64 - builtin_clzl number"

section \<open>Pages and address conversions\<close>

definition PAGE_SIZE :: u64 where
  "PAGE_SIZE = 0x1000"

definition PAGE_ALIGN_UP :: "u64 \<Rightarrow> u64" where
  "PAGE_ALIGN_UP addr = ALIGN_UP addr PAGE_SIZE"

definition PAGE_ALIGN_DOWN :: "u64 \<Rightarrow> u64" where
  "PAGE_ALIGN_DOWN addr = ALIGN_DOWN addr PAGE_SIZE"

text \<open>\<open>P2V\<close> adds the start of the higher-half direct map, \<open>REAL_HHDM_START\<close>, a variable the
  boot code sets; it is an argument here.\<close>

definition P2V :: "u64 \<Rightarrow> u64 \<Rightarrow> u64" where
  "P2V hhdm paddr = paddr + hhdm"

section \<open>What the macros compute\<close>

lemma and_not_mask_u64: "x AND NOT (mask k) = x - take_bit k x" for x :: u64
proof -
  have "(x AND NOT (mask k)) + take_bit k x = (x AND NOT (mask k)) OR take_bit k x"
    by (rule disjunctive_add) (auto simp: bit_simps)
  also have "\<dots> = x"
    by (rule bit_eqI) (auto simp: bit_simps)
  finally show ?thesis by (simp add: eq_diff_eq)
qed

lemma take_bit_le_u64: "take_bit k x \<le> x" for x :: u64
  by (simp add: word_le_nat_alt unsigned_take_bit_eq)

lemma unat_take_bit_u64: "unat (take_bit k x) = unat x mod 2 ^ k" for x :: u64
  by (simp add: unsigned_take_bit_eq flip: take_bit_eq_mod)

lemma unat_lt_u64: "unat x < 2 ^ 64" for x :: u64
  using unsigned_less [of x, where ?'a = nat] by simp

lemma unat_2p_u64: "k < 64 \<Longrightarrow> unat ((2::u64) ^ k) = 2 ^ k"
  using unat_of_nat [where 'a = 64, of "2 ^ k"] power_strict_increasing [of k 64 "2::nat"]
  by simp

lemma unat_ALIGN_DOWN:
  assumes "k < 64"
  shows "unat (ALIGN_DOWN x (2 ^ k)) = unat x div 2 ^ k * 2 ^ k"
proof -
  have "ALIGN_DOWN x (2 ^ k) = x - take_bit k x"
    by (simp add: ALIGN_DOWN_def and_not_mask_u64 flip: mask_eq_exp_minus_1)
  then have "unat (ALIGN_DOWN x (2 ^ k)) = unat x - unat x mod 2 ^ k"
    by (simp add: unat_sub take_bit_le_u64 unat_take_bit_u64)
  then show ?thesis by (simp add: minus_mod_eq_div_mult)
qed

lemma ALIGN_UP_ALIGN_DOWN: "ALIGN_UP x a = ALIGN_DOWN (x + a - 1) a"
  by (simp add: ALIGN_UP_def ALIGN_DOWN_def)

lemma unat_ALIGN_UP:
  assumes "k < 64" and "unat x + 2 ^ k \<le> 2 ^ 64"
  shows "unat (ALIGN_UP x (2 ^ k)) = (unat x + 2 ^ k - 1) div 2 ^ k * 2 ^ k"
proof -
  have "unat ((2::u64) ^ k - 1) = 2 ^ k - 1"
    using assms(1) by (simp add: unat_minus_one unat_2p_u64)
  then have "unat (x + (2 ^ k - 1)) = unat x + 2 ^ k - 1"
    using assms(2) by (auto simp: unat_plus_if')
  then have "unat (x + 2 ^ k - 1) = unat x + 2 ^ k - 1"
    by (simp add: add_diff_eq)
  then show ?thesis using assms(1) by (simp add: ALIGN_UP_ALIGN_DOWN unat_ALIGN_DOWN)
qed

lemma bit_top_u64: "2 ^ k \<le> unat w \<Longrightarrow> unat w < 2 ^ Suc k \<Longrightarrow> bit w k" for w :: u64
proof -
  assume "2 ^ k \<le> unat w" and "unat w < 2 ^ Suc k"
  then have "unat w div 2 ^ k = 1"
    by (simp add: div_nat_eqI)
  then have "bit (unat w) k" by (simp add: bit_iff_odd)
  then show ?thesis by (simp add: bit_unsigned_iff)
qed

lemma P2CHECK_pow2:
  assumes "P2CHECK v" and "v \<noteq> 0"
  obtains k where "k < 64" and "v = 2 ^ k"
proof -
  have "1 \<le> unat v" using assms(2) by (simp add: Suc_le_eq unat_gt_0)
  then obtain k where k: "2 ^ k \<le> unat v" "unat v < 2 ^ Suc k"
    using ex_power_ivl1 [of 2 "unat v"] by auto
  have "2 ^ k < (2::nat) ^ 64"
    using k(1) unat_lt_u64 [of v] by (simp add: order_le_less_trans)
  then have "k < 64" by (simp only: power_strict_increasing_iff)
  have "v = 2 ^ k"
  proof (rule ccontr)
    assume "v \<noteq> 2 ^ k"
    then have "unat v \<noteq> 2 ^ k"
      using \<open>k < 64\<close> by (metis unat_2p_u64 word_unat_eq_iff)
    then have "bit (v - 1) k"
      using k assms(2) by (intro bit_top_u64) (auto simp: unat_minus_one)
    moreover have "bit v k" using k by (rule bit_top_u64)
    ultimately have "bit (v AND (v - 1)) k" by (simp add: bit_and_iff)
    then show False using assms(1) by (simp add: P2CHECK_def)
  qed
  with \<open>k < 64\<close> show thesis by (rule that)
qed

lemma P2CHECK_2p: "P2CHECK (2 ^ k)"
proof -
  have "(2::u64) ^ k AND mask k = 0"
    by (rule bit_eqI) (auto simp: bit_simps)
  then show ?thesis by (simp add: P2CHECK_def mask_eq_exp_minus_1)
qed

lemma rev_upt_split: "k < n \<Longrightarrow> rev [0..<n] = rev [Suc k..<n] @ k # rev [0..<k]"
proof -
  assume "k < n"
  then have "[0..<n] = [0..<k] @ [k..<n]"
    using upt_add_eq_append [of 0 k "n - k"] by simp
  also have "[k..<n] = k # [Suc k..<n]"
    using \<open>k < n\<close> by (rule upt_conv_Cons)
  finally show ?thesis by simp
qed

lemma clzl_bounds:
  assumes "x \<noteq> 0"
  shows "builtin_clzl x < 64" and "2 ^ (63 - builtin_clzl x) \<le> unat x"
    and "unat x < 2 ^ (64 - builtin_clzl x)"
proof -
  have "1 \<le> unat x" using assms by (simp add: Suc_le_eq unat_gt_0)
  then obtain k where k: "2 ^ k \<le> unat x" "unat x < 2 ^ Suc k"
    using ex_power_ivl1 [of 2 "unat x"] by auto
  have "2 ^ k < (2::nat) ^ 64"
    using k(1) unat_lt_u64 [of x] by (simp add: order_le_less_trans)
  then have "k < 64" by (simp only: power_strict_increasing_iff)
  have zero: "\<not> bit x i" if "k < i" for i
  proof -
    have "unat x < 2 ^ i"
      using k(2) that power_increasing [of "Suc k" i "2::nat"] by simp
    then have "\<not> bit (unat x) i" by (simp add: bit_iff_odd)
    then show ?thesis by (simp add: bit_unsigned_iff)
  qed
  have "rev [0..<64] = rev [Suc k..<64] @ k # rev [0..<k]"
    using \<open>k < 64\<close> by (rule rev_upt_split)
  moreover have "takeWhile (\<lambda>i. \<not> bit x i) (rev [Suc k..<64] @ k # rev [0..<k]) = rev [Suc k..<64]"
    using zero bit_top_u64 [OF k] by (subst takeWhile_append2) auto
  ultimately have "builtin_clzl x = length (rev [Suc k..<64])"
    by (simp only: builtin_clzl_def)
  then have "builtin_clzl x = 63 - k" by (simp only: length_rev length_upt diff_Suc_eq_diff_pred)
  then show "builtin_clzl x < 64" and "2 ^ (63 - builtin_clzl x) \<le> unat x"
    and "unat x < 2 ^ (64 - builtin_clzl x)"
    using k \<open>k < 64\<close> by (auto simp: Suc_diff_le)
qed

lemma clzl_antimono:
  assumes "x \<noteq> 0" and "x \<le> y"
  shows "builtin_clzl y \<le> builtin_clzl x"
proof (rule ccontr)
  assume "\<not> ?thesis"
  then have "64 - builtin_clzl y \<le> 63 - builtin_clzl x"
    using clzl_bounds(1) [OF assms(1)] by simp
  moreover have "y \<noteq> 0" using assms by auto
  ultimately have "unat y < 2 ^ (63 - builtin_clzl x)"
    using clzl_bounds(3) [of y] power_increasing [of "64 - builtin_clzl y" "63 - builtin_clzl x" "2::nat"]
    by linarith
  then show False
    using clzl_bounds(2) [OF assms(1)] assms(2) by (simp add: word_le_nat_alt)
qed

end
