(* ===== verification/Ndk_Lock.thy ===== *)
theory Ndk_Lock
  imports Ndk_Util
begin

text \<open>
  Spinlocks (\<^verbatim>\<open>include/ndk/ndk.h\<close>) and interrupt request levels (\<^verbatim>\<open>irq/irql.c\<close>,
  \<^verbatim>\<open>include/ndk/ports/amd64.h\<close>).

  A lock lives somewhere in the state of a component, so the operations take the field that
  holds its flag: a reader \<open>flag\<close> and an updater \<open>upd\<close> (for a record field \<open>f\<close> these are
  \<open>f\<close> and \<open>f_update\<close>). The model is one processor: while an operation spins nobody else runs,
  so a flag that is set stays set and the spin loop ends in its \<open>deadlock?\<close> assertion.
\<close>

section \<open>Interrupt request levels\<close>

definition IRQL_PASSIVE :: u8 where "IRQL_PASSIVE = 0"

definition IRQL_DISPATCH :: u8 where "IRQL_DISPATCH = 2"

definition IRQL_CLOCK :: u8 where "IRQL_CLOCK = 13"

definition IRQL_HIGH :: u8 where "IRQL_HIGH = 15"

text \<open>
  The part of a state the level operations touch: the level itself (\<open>irql_current\<close> and
  \<open>irql_set\<close>, which read and write \<open>cr8\<close>), the pending soft interrupts of the processor, and
  the soft-interrupt dispatcher of \<^verbatim>\<open>irq/int.c\<close> that \<open>irql_lower\<close> calls.
\<close>

record 's irql_ops =
  irql_current :: "'s \<Rightarrow> u8"
  irql_set :: "(u8 \<Rightarrow> u8) \<Rightarrow> 's \<Rightarrow> 's"
  softints :: "'s \<Rightarrow> u64"
  dispatcher :: "u8 \<Rightarrow> ('s, unit) km"

definition irql_raise :: "'s irql_ops \<Rightarrow> u8 \<Rightarrow> ('s, u8) km" where
  "irql_raise io level =
     kbind (kget (irql_current io)) (\<lambda>old.
     kthen (kassert (level \<ge> old) ''level >= old'')
     (kthen (kmodify (irql_set io (\<lambda>_. level)))
     (kreturn old)))"

definition irql_lower :: "'s irql_ops \<Rightarrow> u8 \<Rightarrow> ('s, unit) km" where
  "irql_lower io level =
     kbind (kget (irql_current io)) (\<lambda>cur.
     kthen (kassert (level \<le> cur) ''level <= cur'')
     (kthen (kmodify (irql_set io (\<lambda>_. level)))
     (kbind (kget (softints io)) (\<lambda>pending.
      kwhen (drop_bit (unat level) pending \<noteq> 0) (dispatcher io level)))))"

section \<open>Spinlocks\<close>

definition spinlock_release :: "((bool \<Rightarrow> bool) \<Rightarrow> 's \<Rightarrow> 's) \<Rightarrow> ('s, unit) km" where
  "spinlock_release upd = kmodify (upd (\<lambda>_. False))"

definition spinlock_acquire :: "('s \<Rightarrow> bool) \<Rightarrow> ((bool \<Rightarrow> bool) \<Rightarrow> 's \<Rightarrow> 's) \<Rightarrow> ('s, unit) km" where
  "spinlock_acquire flag upd =
     kbind (kget flag) (\<lambda>held.
     if held then kfail Deadlock else kmodify (upd (\<lambda>_. True)))"

definition spinlock_try_lock ::
    "('s \<Rightarrow> bool) \<Rightarrow> ((bool \<Rightarrow> bool) \<Rightarrow> 's \<Rightarrow> 's) \<Rightarrow> ('s, bool) km" where
  "spinlock_try_lock flag upd =
     kbind (kget flag) (\<lambda>held.
     if held then kreturn False else kthen (kmodify (upd (\<lambda>_. True))) (kreturn True))"

definition spinlock_acquire_raise ::
    "'s irql_ops \<Rightarrow> ('s \<Rightarrow> bool) \<Rightarrow> ((bool \<Rightarrow> bool) \<Rightarrow> 's \<Rightarrow> 's) \<Rightarrow> ('s, u8) km" where
  "spinlock_acquire_raise io flag upd =
     kbind (irql_raise io IRQL_DISPATCH) (\<lambda>old.
     kthen (spinlock_acquire flag upd)
     (kreturn old))"

definition spinlock_release_lower ::
    "'s irql_ops \<Rightarrow> ((bool \<Rightarrow> bool) \<Rightarrow> 's \<Rightarrow> 's) \<Rightarrow> u8 \<Rightarrow> ('s, unit) km" where
  "spinlock_release_lower io upd old =
     kthen (spinlock_release upd) (irql_lower io old)"

text \<open>
  The variants that switch interrupts off instead of raising the level. The interrupt flag of the
  processor is again a field, given by a reader \<open>ints\<close> and an updater \<open>ints_upd\<close>;
  \<open>spinlock_try_lock_intr\<close> returns \<open>-1\<close>, here \<open>None\<close>, when the lock is held.
\<close>

definition spinlock_held :: "('s \<Rightarrow> bool) \<Rightarrow> ('s, bool) km" where
  "spinlock_held flag = kget flag"

definition port_set_ints :: "('s \<Rightarrow> bool) \<Rightarrow> ((bool \<Rightarrow> bool) \<Rightarrow> 's \<Rightarrow> 's) \<Rightarrow> bool \<Rightarrow> ('s, bool) km" where
  "port_set_ints ints ints_upd state =
     kbind (kget ints) (\<lambda>old. kthen (kmodify (ints_upd (\<lambda>_. state))) (kreturn old))"

definition spinlock_try_lock_intr ::
    "('s \<Rightarrow> bool) \<Rightarrow> ((bool \<Rightarrow> bool) \<Rightarrow> 's \<Rightarrow> 's) \<Rightarrow> ('s \<Rightarrow> bool) \<Rightarrow> ((bool \<Rightarrow> bool) \<Rightarrow> 's \<Rightarrow> 's)
     \<Rightarrow> ('s, bool option) km" where
  "spinlock_try_lock_intr ints ints_upd flag upd =
     kbind (port_set_ints ints ints_upd False) (\<lambda>old.
     kbind (spinlock_try_lock flag upd) (\<lambda>res.
     if res then kreturn (Some old)
     else kthen (port_set_ints ints ints_upd old) (kreturn None)))"

definition spinlock_acquire_intr ::
    "('s \<Rightarrow> bool) \<Rightarrow> ((bool \<Rightarrow> bool) \<Rightarrow> 's \<Rightarrow> 's) \<Rightarrow> ('s \<Rightarrow> bool) \<Rightarrow> ((bool \<Rightarrow> bool) \<Rightarrow> 's \<Rightarrow> 's)
     \<Rightarrow> ('s, bool) km" where
  "spinlock_acquire_intr ints ints_upd flag upd =
     kbind (port_set_ints ints ints_upd False) (\<lambda>old.
     kthen (spinlock_acquire flag upd) (kreturn old))"

definition spinlock_release_intr ::
    "('s \<Rightarrow> bool) \<Rightarrow> ((bool \<Rightarrow> bool) \<Rightarrow> 's \<Rightarrow> 's) \<Rightarrow> ((bool \<Rightarrow> bool) \<Rightarrow> 's \<Rightarrow> 's) \<Rightarrow> bool \<Rightarrow> ('s, unit) km" where
  "spinlock_release_intr ints ints_upd upd old =
     kthen (spinlock_release upd) (kthen (port_set_ints ints ints_upd old) (kreturn ()))"

lemma runs_to_spinlock_release [wp]:
  "runs_to (spinlock_release upd) s Q \<longleftrightarrow> Q () (upd (\<lambda>_. False) s)"
  by (simp add: spinlock_release_def wp)

lemma runs_to_spinlock_acquire [wp]:
  "runs_to (spinlock_acquire flag upd) s Q \<longleftrightarrow> \<not> flag s \<and> Q () (upd (\<lambda>_. True) s)"
  by (simp add: spinlock_acquire_def wp)

lemma runs_to_spinlock_try_lock [wp]:
  "runs_to (spinlock_try_lock flag upd) s Q \<longleftrightarrow>
     (if flag s then Q False s else Q True (upd (\<lambda>_. True) s))"
  by (simp add: spinlock_try_lock_def wp)

lemma runs_to_irql_raise [wp]:
  "runs_to (irql_raise io level) s Q \<longleftrightarrow>
     irql_current io s \<le> level \<and> Q (irql_current io s) (irql_set io (\<lambda>_. level) s)"
  by (simp add: irql_raise_def wp)

lemma runs_to_spinlock_acquire_raise [wp]:
  "runs_to (spinlock_acquire_raise io flag upd) s Q \<longleftrightarrow>
     irql_current io s \<le> IRQL_DISPATCH \<and> \<not> flag (irql_set io (\<lambda>_. IRQL_DISPATCH) s) \<and>
     Q (irql_current io s) (upd (\<lambda>_. True) (irql_set io (\<lambda>_. IRQL_DISPATCH) s))"
  by (simp add: spinlock_acquire_raise_def wp)

lemma runs_to_port_set_ints [wp]:
  "runs_to (port_set_ints ints ints_upd state) s Q \<longleftrightarrow> Q (ints s) (ints_upd (\<lambda>_. state) s)"
  by (simp add: port_set_ints_def wp)

lemma runs_to_spinlock_acquire_intr [wp]:
  "runs_to (spinlock_acquire_intr ints ints_upd flag upd) s Q \<longleftrightarrow>
     \<not> flag (ints_upd (\<lambda>_. False) s) \<and> Q (ints s) (upd (\<lambda>_. True) (ints_upd (\<lambda>_. False) s))"
  by (simp add: spinlock_acquire_intr_def wp)

lemma runs_to_spinlock_release_intr [wp]:
  "runs_to (spinlock_release_intr ints ints_upd upd old) s Q \<longleftrightarrow>
     Q () (ints_upd (\<lambda>_. old) (upd (\<lambda>_. False) s))"
  by (simp add: spinlock_release_intr_def wp)

text \<open>Acquiring a lock that is held never returns on one processor.\<close>

lemma spinlock_acquire_held: "flag s \<Longrightarrow> spinlock_acquire flag upd s = Inl Deadlock"
  by (simp add: spinlock_acquire_def km_defs)

section \<open>A lock and a level as fields of a state\<close>

text \<open>
  What the two fields promise each other: each reads back what was written and neither
  disturbs the other. A critical section, from \<open>spinlock_acquire_raise\<close> to
  \<open>spinlock_release_lower\<close>, then gives back the lock and the level, provided no soft
  interrupt is pending that the lowering would dispatch.
\<close>

locale lock_fields =
  fixes io :: "'s irql_ops"
    and flag :: "'s \<Rightarrow> bool"
    and upd :: "(bool \<Rightarrow> bool) \<Rightarrow> 's \<Rightarrow> 's"
  assumes flag_upd: "flag (upd f s) = f (flag s)"
    and flag_set: "flag (irql_set io g s) = flag s"
    and irql_set_current: "irql_current io (irql_set io g s) = g (irql_current io s)"
    and irql_upd: "irql_current io (upd f s) = irql_current io s"
    and softints_upd: "softints io (upd f s) = softints io s"
    and softints_set: "softints io (irql_set io g s) = softints io s"
begin

lemma enter_critical:
  "irql_current io s \<le> IRQL_DISPATCH \<Longrightarrow> \<not> flag s \<Longrightarrow>
   runs_to (spinlock_acquire_raise io flag upd) s
     (\<lambda>old t. old = irql_current io s \<and> flag t \<and> irql_current io t = IRQL_DISPATCH)"
  by (simp add: wp flag_set flag_upd irql_set_current irql_upd)

lemma leave_critical:
  "old \<le> irql_current io s \<Longrightarrow> drop_bit (unat old) (softints io s) = 0 \<Longrightarrow>
   runs_to (spinlock_release_lower io upd old) s
     (\<lambda>_ t. \<not> flag t \<and> irql_current io t = old)"
  by (simp add: spinlock_release_lower_def irql_lower_def wp flag_set flag_upd
      irql_set_current irql_upd softints_upd softints_set)

lemma reenter_deadlocks:
  "irql_current io s \<le> IRQL_DISPATCH \<Longrightarrow> flag s \<Longrightarrow>
   spinlock_acquire_raise io flag upd s = Inl Deadlock"
  by (simp add: spinlock_acquire_raise_def irql_raise_def spinlock_acquire_def km_defs flag_set)

end

end
