(* ===== verification/Vmem.thy ===== *)
theory Vmem
  imports Ndk_Lock
begin

text \<open>
  The resource allocator of \<^verbatim>\<open>lib/vmem.c\<close> and \<^verbatim>\<open>include/lib/vmem.h\<close>.

  A segment is named by its address; \<open>vs_seg\<close> is the memory that holds the segments. The
  intrusive queues are lists of such addresses (the theory of \<^verbatim>\<open>sys/queue.h\<close> shows that the
  macros implement the list functions): an element taken off a list with \<open>LIST_REMOVE\<close> leaves
  whichever free list or hash chain holds it. Arenas are named by numbers, and a function
  pointer by a number that the environment \<open>ve_alloc\<close>, \<open>ve_free\<close> resolves; the physical page
  that \<open>repopulate_segments\<close> asks for also comes from the environment.

  The soft interrupts that lowering the interrupt level may run are not part of this state:
  no handler of the kernel enters the allocator.
\<close>

section \<open>Data\<close>

datatype segment_type = SEGMENT_ALLOCATED | SEGMENT_FREE | SEGMENT_SPAN

record VmemSegment =
  sg_type :: segment_type
  sg_imported :: bool
  sg_base :: u64
  sg_size :: u64

record VmemStat =
  st_in_use :: u64
  st_import :: u64
  st_total :: u64
  st_alloc :: u64
  st_free :: u64

type_synonym arena = nat

record Vmem =
  vm_name :: string
  vm_base :: u64
  vm_size :: u64
  vm_quantum :: u64
  vm_alloc :: "nat option"
  vm_free :: "nat option"
  vm_source :: "arena option"
  vm_qcache_max :: u64
  vm_vmflag :: u32
  vm_lock :: bool
  vm_segqueue :: "u64 list"
  vm_freelist :: "u64 list list"
  vm_hashtable :: "u64 list list"
  vm_spanlist :: "u64 list"
  vm_stat :: VmemStat

record 'w vst =
  vs_seg :: "u64 \<Rightarrow> VmemSegment"
  vs_free_segs :: "u64 list"
  vs_nfreesegs :: int
  vs_glock :: bool
  vs_arena :: "arena \<Rightarrow> Vmem"
  vs_irql :: u8
  vs_world :: 'w

text \<open>
  What the allocator calls: \<open>pm_allocate_n (1, kPageUseVm)\<close> followed by \<open>PG2V\<close>, which works on
  the rest of the machine (\<open>vs_world\<close>), and the import functions of an arena. \<open>ve_fuel\<close> bounds the retry loop of \<open>vmem_xalloc\<close>.
\<close>

record 'w vmem_env =
  ve_page :: "('w, u64 option) km"
  ve_alloc :: "nat \<Rightarrow> arena option \<Rightarrow> u64 \<Rightarrow> u32 \<Rightarrow> ('w vst, u64) km"
  ve_free :: "nat \<Rightarrow> arena option \<Rightarrow> u64 \<Rightarrow> u64 \<Rightarrow> ('w vst, unit) km"
  ve_fuel :: nat

definition VM_BESTFIT :: u32 where "VM_BESTFIT = push_bit 0 1"

definition VM_INSTANTFIT :: u32 where "VM_INSTANTFIT = push_bit 1 1"

definition VM_NEXTFIT :: u32 where "VM_NEXTFIT = push_bit 2 1"

definition VM_SLEEP :: u32 where "VM_SLEEP = push_bit 3 1"

definition VM_NOSLEEP :: u32 where "VM_NOSLEEP = push_bit 4 1"

definition VM_BOOTSTRAP :: u32 where "VM_BOOTSTRAP = push_bit 5 1"

definition FREELISTS_N :: nat where "FREELISTS_N = 64"

definition HASHTABLES_N :: nat where "HASHTABLES_N = 16"

definition VMEM_ERR_NO_MEM :: int where "VMEM_ERR_NO_MEM = 1"

definition VMEM_ADDR_MIN :: u64 where "VMEM_ADDR_MIN = 0"

definition VMEM_ADDR_MAX :: u64 where "VMEM_ADDR_MAX = NOT 0"

text \<open>Reading and writing one arena and one segment.\<close>

definition arena_upd :: "arena \<Rightarrow> (Vmem \<Rightarrow> Vmem) \<Rightarrow> 'w vst \<Rightarrow> 'w vst" where
  "arena_upd a f = vs_arena_update (\<lambda>m. m(a := f (m a)))"

definition seg_upd :: "u64 \<Rightarrow> (VmemSegment \<Rightarrow> VmemSegment) \<Rightarrow> 'w vst \<Rightarrow> 'w vst" where
  "seg_upd p f = vs_seg_update (\<lambda>m. m(p := f (m p)))"

section \<open>Locks\<close>

definition vmem_io :: "'w vst irql_ops" where
  "vmem_io = \<lparr>irql_current = vs_irql, irql_set = vs_irql_update, softints = (\<lambda>_. 0),
              dispatcher = (\<lambda>_. kreturn ())\<rparr>"

definition vmem_lock :: "('w vst, u8) km" where
  "vmem_lock = spinlock_acquire_raise vmem_io vs_glock vs_glock_update"

definition vmem_unlock :: "u8 \<Rightarrow> ('w vst, unit) km" where
  "vmem_unlock old = spinlock_release_lower vmem_io vs_glock_update old"

definition arena_lock :: "arena \<Rightarrow> ('w vst, u8) km" where
  "arena_lock a = spinlock_acquire_raise vmem_io (\<lambda>s. vm_lock (vs_arena s a))
                    (\<lambda>f. arena_upd a (vm_lock_update f))"

definition arena_unlock :: "arena \<Rightarrow> u8 \<Rightarrow> ('w vst, unit) km" where
  "arena_unlock a old = spinlock_release_lower vmem_io (\<lambda>f. arena_upd a (vm_lock_update f)) old"

section \<open>The pool of segments\<close>

definition vs_lift :: "('w, 'a) km \<Rightarrow> ('w vst, 'a) km" where
  "vs_lift m = (\<lambda>s. case m (vs_world s) of
                     Inl e \<Rightarrow> Inl e
                   | Inr (x, w) \<Rightarrow> Inr (x, s\<lparr>vs_world := w\<rparr>))"

definition vmem_alloc_pages :: "'w vmem_env \<Rightarrow> u64 \<Rightarrow> ('w vst, u64) km" where
  "vmem_alloc_pages env n =
     kthen (kassert (n = 1) ''n == 1'')
     (kbind (vs_lift (ve_page env)) (\<lambda>pages.
      case pages of None \<Rightarrow> kfail (AssertFail ''pages'') | Some p \<Rightarrow> kreturn p))"

definition seg_alloc :: "('w vst, u64) km" where
  "seg_alloc =
     kbind vmem_lock (\<lambda>old.
     kbind (kget vs_free_segs) (\<lambda>fs.
     case fs of
       [] \<Rightarrow> kfail (AssertFail ''!LIST_EMPTY(&free_segs)'')
     | vsp # rest \<Rightarrow>
         kthen (kmodify (vs_free_segs_update (\<lambda>_. rest)))
         (kthen (kmodify (vs_nfreesegs_update (\<lambda>n. n - 1)))
         (kthen (vmem_unlock old)
         (kreturn vsp)))))"

definition seg_free :: "u64 \<Rightarrow> ('w vst, unit) km" where
  "seg_free seg =
     kbind vmem_lock (\<lambda>old.
     kthen (kmodify (vs_free_segs_update (\<lambda>fs. seg # fs)))
     (kthen (kmodify (vs_nfreesegs_update (\<lambda>n. n + 1)))
     (vmem_unlock old)))"

text \<open>\<open>sizeof (VmemSegment)\<close>: the type and the flag in 8 bytes, base, sz and two list entries.\<close>

definition sizeof_VmemSegment :: u64 where "sizeof_VmemSegment = 56"

definition segblock :: "u64 \<Rightarrow> u64 list" where
  "segblock page = map (\<lambda>i. page + of_nat i * sizeof_VmemSegment) [0..<64]"

definition repopulate_segments :: "'w vmem_env \<Rightarrow> ('w vst, int) km" where
  "repopulate_segments env =
     kbind (kget vs_nfreesegs) (\<lambda>n.
     if n \<ge> 128 then kreturn 0
     else kbind (vmem_alloc_pages env 1) (\<lambda>page.
          kthen (kfor (segblock page) seg_free)
          (kreturn 0)))"

definition vmem_bootstrap :: "u64 list \<Rightarrow> ('w vst, unit) km" where
  "vmem_bootstrap static_segs =
     kthen (kmodify (vs_glock_update (\<lambda>_. False)))
     (kfor static_segs seg_free)"

section \<open>Fitting a request into a segment\<close>

definition VMEM_ALIGNUP :: "u64 \<Rightarrow> u64 \<Rightarrow> u64" where
  "VMEM_ALIGNUP addr align = (addr + align - 1) AND NOT (align - 1)"

definition seg_fit ::
    "VmemSegment \<Rightarrow> u64 \<Rightarrow> u64 \<Rightarrow> u64 \<Rightarrow> u64 \<Rightarrow> u64 \<Rightarrow> u64 \<Rightarrow> ('s, u64 option) km" where
  "seg_fit segment sz align phase nocross minaddr maxaddr =
     kthen (kassert (sz > 0) ''size > 0'')
     (kthen (kassert (sg_size segment \<ge> sz) ''segment->size >= size'')
     (let start = MAX_u64 (sg_base segment) minaddr;
          endp = MIN_u64 (sg_base segment + sg_size segment) maxaddr
      in if start > endp then kreturn None
         else
           let start = VMEM_ALIGNUP (start - phase) align + phase;
               start = (if start < sg_base segment then start + align else start)
           in kthen (kassert (nocross = 0) ''nocross == 0'')
              (if start \<le> endp \<and> endp - start \<ge> sz then kreturn (Some start)
               else kreturn None)))"

section \<open>Free lists and hash table\<close>

definition GET_LIST :: "u64 \<Rightarrow> nat" where
  "GET_LIST sz = FREELISTS_N - builtin_clzl sz - 1"

definition murmur64 :: "u64 \<Rightarrow> u64" where
  "murmur64 h =
     (let h = h XOR drop_bit 33 h;
          h = h * 0xff51afd7ed558ccd;
          h = h XOR drop_bit 33 h;
          h = h * 0xc4ceb9fe1a85ec53;
          h = h XOR drop_bit 33 h
      in h)"

definition hashtable_for_addr :: "u64 \<Rightarrow> nat" where
  "hashtable_for_addr addr = unat (murmur64 addr mod of_nat HASHTABLES_N)"

definition LIST_PUSH :: "nat \<Rightarrow> 'e \<Rightarrow> 'e list list \<Rightarrow> 'e list list" where
  "LIST_PUSH i e ls = ls[i := e # ls ! i]"

definition hashtab_insert :: "arena \<Rightarrow> u64 \<Rightarrow> ('w vst, unit) km" where
  "hashtab_insert a seg =
     kbind (kget (\<lambda>s. sg_base (vs_seg s seg))) (\<lambda>base.
     kmodify (arena_upd a (\<lambda>vm. vm\<lparr>vm_hashtable := LIST_PUSH (hashtable_for_addr base) seg (vm_hashtable vm)\<rparr>)))"

text \<open>
  The index \<open>GET_LIST(size) - 1\<close>: the compiler leaves \<open>__builtin_clzl(0)\<close> undefined, and
  sz 1 gives the index before the first list.
\<close>

definition freelist_for_size :: "u64 \<Rightarrow> ('s, nat) km" where
  "freelist_for_size sz =
     kthen (kguard (sz \<noteq> 0) Undefined)
     (kthen (kguard (GET_LIST sz \<ge> 1) OutOfBounds)
     (kreturn (GET_LIST sz - 1)))"

definition vmem_add_to_freelist :: "arena \<Rightarrow> u64 \<Rightarrow> ('w vst, unit) km" where
  "vmem_add_to_freelist a seg =
     kbind (kget (\<lambda>s. sg_size (vs_seg s seg))) (\<lambda>sz.
     kbind (freelist_for_size sz) (\<lambda>i.
     kmodify (arena_upd a (\<lambda>vm. vm\<lparr>vm_freelist := LIST_PUSH i seg (vm_freelist vm)\<rparr>))))"

definition seglist_unlink :: "u64 \<Rightarrow> Vmem \<Rightarrow> Vmem" where
  "seglist_unlink seg vm = vm\<lparr>vm_freelist := map (remove1 seg) (vm_freelist vm),
                             vm_hashtable := map (remove1 seg) (vm_hashtable vm)\<rparr>"

definition seglist_remove :: "arena \<Rightarrow> u64 \<Rightarrow> ('w vst, unit) km" where
  "seglist_remove a seg =
     kmodify (arena_upd a (seglist_unlink seg))"

definition vmem_contains :: "arena \<Rightarrow> u64 \<Rightarrow> u64 \<Rightarrow> ('w vst, bool) km" where
  "vmem_contains a start sz =
     kget (\<lambda>s. let endp = start + sz in
       list_ex (\<lambda>p. let seg = vs_seg s p in
                    start \<ge> sg_base seg \<and> endp \<le> sg_base seg + sg_size seg)
         (vm_segqueue (vs_arena s a)))"

text \<open>\<open>TAILQ_INSERT_AFTER\<close> with the previous element, which \<open>TAILQ_PREV\<close> may have found null.\<close>

definition vmem_insert_segment :: "arena \<Rightarrow> u64 \<Rightarrow> u64 option \<Rightarrow> ('w vst, unit) km" where
  "vmem_insert_segment a seg prev =
     (case prev of
        None \<Rightarrow> kfail NullDeref
      | Some p \<Rightarrow> kmodify (arena_upd a (\<lambda>vm. vm\<lparr>vm_segqueue := insert_after p seg (vm_segqueue vm)\<rparr>)))"

section \<open>Spans\<close>

definition vmem_add_internal :: "arena \<Rightarrow> u64 \<Rightarrow> u64 \<Rightarrow> bool \<Rightarrow> ('w vst, u64) km" where
  "vmem_add_internal a base sz import =
     kbind seg_alloc (\<lambda>newspan.
     kthen (kmodify (seg_upd newspan (\<lambda>sg. sg\<lparr>sg_base := base, sg_size := sz,
              sg_type := SEGMENT_SPAN, sg_imported := import\<rparr>)))
     (kbind seg_alloc (\<lambda>newfree.
      kthen (kmodify (seg_upd newfree (\<lambda>sg. sg\<lparr>sg_base := base, sg_size := sz,
              sg_type := SEGMENT_FREE\<rparr>)))
      (kthen (kmodify (arena_upd a (\<lambda>vm. vm\<lparr>vm_segqueue := vm_segqueue vm @ [newspan]\<rparr>)))
      (kthen (vmem_insert_segment a newfree (Some newspan))
      (kthen (vmem_add_to_freelist a newfree)
      (kreturn newfree)))))))"

definition vmem_import :: "'w vmem_env \<Rightarrow> arena \<Rightarrow> u64 \<Rightarrow> u32 \<Rightarrow> ('w vst, int) km" where
  "vmem_import env a sz vmflag =
     kbind (kget (\<lambda>s. vs_arena s a)) (\<lambda>vmp.
     case vm_alloc vmp of
       None \<Rightarrow> kreturn (- VMEM_ERR_NO_MEM)
     | Some f \<Rightarrow>
         kbind (ve_alloc env f (vm_source vmp) sz vmflag) (\<lambda>addr.
         if addr = 0 then kreturn (- VMEM_ERR_NO_MEM)
         else kthen (vmem_add_internal a addr sz True) (kreturn 0)))"

definition vmem_add :: "arena \<Rightarrow> u64 \<Rightarrow> u64 \<Rightarrow> ('w vst, u64) km" where
  "vmem_add a addr sz =
     kbind (vmem_contains a addr sz) (\<lambda>c.
     kthen (kassert (\<not> c) ''!vmem_contains(vmp, addr, size)'')
     (kthen (kmodify (arena_upd a (\<lambda>vm. vm\<lparr>vm_stat := (vm_stat vm)\<lparr>st_free := st_free (vm_stat vm) + sz,
               st_total := st_total (vm_stat vm) + sz\<rparr>\<rparr>)))
     (vmem_add_internal a addr sz False)))"

definition vmem_init ::
    "arena \<Rightarrow> string \<Rightarrow> u64 \<Rightarrow> u64 \<Rightarrow> u64 \<Rightarrow> nat option \<Rightarrow> nat option \<Rightarrow> arena option \<Rightarrow> u64 \<Rightarrow> u32
     \<Rightarrow> ('w vst, int) km" where
  "vmem_init ret name base sz quantum afunc ffunc source qcache_max vmflag =
     kthen (kguard (length name < 64) OutOfBounds)
     (kthen (kmodify (arena_upd ret (\<lambda>vm. vm\<lparr>
         vm_name := name, vm_base := base, vm_size := sz, vm_quantum := quantum,
         vm_alloc := afunc, vm_free := ffunc, vm_source := source,
         vm_qcache_max := qcache_max, vm_vmflag := vmflag, vm_lock := False,
         vm_stat := (vm_stat vm)\<lparr>st_free := sz, st_total := st_total (vm_stat vm) + sz,
                      st_in_use := 0, st_import := 0\<rparr>,
         vm_spanlist := [], vm_segqueue := [],
         vm_freelist := replicate FREELISTS_N [],
         vm_hashtable := replicate HASHTABLES_N []\<rparr>)))
     (kthen (kwhen (source = None \<and> sz \<noteq> 0)
        (kthen (vmem_add ret base sz) (kreturn ())))
     (kreturn 0)))"

definition vmem_destroy :: "arena \<Rightarrow> ('w vst, unit) km" where
  "vmem_destroy a =
     kbind (kget (\<lambda>s. vs_arena s a)) (\<lambda>vmp.
     kthen (kfor (vm_hashtable vmp) (\<lambda>l. kassert (l = []) ''LIST_EMPTY(&vmp->hashtable[i])''))
     (kfor (vm_segqueue vmp) seg_free))"

section \<open>Allocation\<close>

text \<open>The segment to use and the address in it, or nothing: one search per policy.\<close>

fun bestfit_search ::
    "u64 \<Rightarrow> u64 \<Rightarrow> u64 \<Rightarrow> u64 \<Rightarrow> u64 \<Rightarrow> u64 \<Rightarrow> u64 list \<Rightarrow> ('w vst, (u64 \<times> u64) option) km" where
  "bestfit_search sz align phase nocross minaddr maxaddr [] = kreturn None"
| "bestfit_search sz align phase nocross minaddr maxaddr (p # ps) =
     kbind (kget (\<lambda>s. vs_seg s p)) (\<lambda>seg.
     if sg_size seg \<ge> sz
     then kbind (seg_fit seg sz align phase nocross minaddr maxaddr) (\<lambda>r.
          case r of
            Some start \<Rightarrow> kreturn (Some (p, start))
          | None \<Rightarrow> bestfit_search sz align phase nocross minaddr maxaddr ps)
     else bestfit_search sz align phase nocross minaddr maxaddr ps)"

fun instantfit_search ::
    "u64 \<Rightarrow> u64 \<Rightarrow> u64 \<Rightarrow> u64 \<Rightarrow> u64 \<Rightarrow> u64 \<Rightarrow> u64 list list \<Rightarrow> ('w vst, (u64 \<times> u64) option) km" where
  "instantfit_search sz align phase nocross minaddr maxaddr [] = kreturn None"
| "instantfit_search sz align phase nocross minaddr maxaddr ([] # ls) =
     instantfit_search sz align phase nocross minaddr maxaddr ls"
| "instantfit_search sz align phase nocross minaddr maxaddr ((p # _) # ls) =
     kbind (kget (\<lambda>s. vs_seg s p)) (\<lambda>seg.
     kbind (seg_fit seg sz align phase nocross minaddr maxaddr) (\<lambda>r.
     case r of
       Some start \<Rightarrow> kreturn (Some (p, start))
     | None \<Rightarrow> instantfit_search sz align phase nocross minaddr maxaddr ls))"

text \<open>The loop of \<open>vmem_xalloc\<close>: search, import a span and try again.\<close>

fun xalloc_loop ::
    "'w vmem_env \<Rightarrow> nat \<Rightarrow> arena \<Rightarrow> nat \<Rightarrow> u64 \<Rightarrow> u64 \<Rightarrow> u64 \<Rightarrow> u64 \<Rightarrow> u64 \<Rightarrow> u64 \<Rightarrow> u32
     \<Rightarrow> ('w vst, u64 \<times> u64) km" where
  "xalloc_loop env 0 a first sz align phase nocross minaddr maxaddr vmflag = kfail OutOfFuel"
| "xalloc_loop env (Suc n) a first sz align phase nocross minaddr maxaddr vmflag =
     (let instant = vmflag AND VM_INSTANTFIT \<noteq> 0;
          first = (if instant \<and> sz AND (sz - 1) \<noteq> 0 then first + 1 else first)
      in kbind (kget (\<lambda>s. drop first (vm_freelist (vs_arena s a)))) (\<lambda>lists.
         kbind (if instant
                then instantfit_search sz align phase nocross minaddr maxaddr lists
                else if vmflag AND VM_BESTFIT \<noteq> 0
                then bestfit_search sz align phase nocross minaddr maxaddr (concat lists)
                else if vmflag AND VM_NEXTFIT \<noteq> 0
                then kfail (AssertFail ''TODO: implement nextfit'')
                else kreturn None) (\<lambda>r.
         case r of
           Some (seg, start) \<Rightarrow> kreturn (seg, start)
         | None \<Rightarrow>
             kbind (vmem_import env a sz vmflag) (\<lambda>e.
             if e = 0
             then xalloc_loop env n a first sz align phase nocross minaddr maxaddr vmflag
             else kfail (AssertFail ''Allocation failed'')))))"

text \<open>The code after the label \<open>found\<close>, in three steps: split off the part before \<open>start\<close>,
  split off the part after the request, and account for the allocated segment.\<close>

definition xalloc_split_before ::
    "arena \<Rightarrow> u64 \<Rightarrow> u64 \<Rightarrow> u64 \<Rightarrow> ('w vst, u64 option) km" where
  "xalloc_split_before a seg start new_seg2 =
     kbind (kget (\<lambda>s. vs_seg s seg)) (\<lambda>sg.
     if sg_base sg \<noteq> start
     then
       kthen (kmodify (seg_upd new_seg2 (\<lambda>n. n\<lparr>sg_type := SEGMENT_FREE, sg_base := sg_base sg,
                sg_size := start - sg_base sg\<rparr>)))
       (kthen (kmodify (seg_upd seg (\<lambda>n. n\<lparr>sg_base := start\<rparr>)))
       (kbind (kget (\<lambda>s. sg_size (vs_seg s new_seg2))) (\<lambda>cut.
        kthen (kmodify (seg_upd seg (\<lambda>n. n\<lparr>sg_size := sg_size n - cut\<rparr>)))
        (kthen (vmem_add_to_freelist a new_seg2)
        (kbind (kget (\<lambda>s. list_prev seg (vm_segqueue (vs_arena s a)))) (\<lambda>prev.
         kthen (vmem_insert_segment a new_seg2 prev)
         (kreturn None)))))))
     else kreturn (Some new_seg2))"

definition xalloc_split_after ::
    "arena \<Rightarrow> u64 \<Rightarrow> u64 \<Rightarrow> u64 \<Rightarrow> ('w vst, u64) km" where
  "xalloc_split_after a seg sz new_seg =
     kbind (kget (\<lambda>s. vs_seg s seg)) (\<lambda>sg.
     kbind (kget (\<lambda>s. vm_quantum (vs_arena s a))) (\<lambda>quantum.
     if sg_size sg \<noteq> sz \<and> sg_size sg - sz > quantum - 1
     then
       kthen (kmodify (seg_upd new_seg (\<lambda>n. n\<lparr>sg_type := SEGMENT_ALLOCATED,
                sg_base := sg_base sg, sg_size := sz\<rparr>)))
       (kthen (kmodify (seg_upd seg (\<lambda>n. n\<lparr>sg_base := sg_base n + sz,
                sg_size := sg_size n - sz\<rparr>)))
       (kthen (vmem_add_to_freelist a seg)
       (kbind (kget (\<lambda>s. list_prev seg (vm_segqueue (vs_arena s a)))) (\<lambda>prev.
        kthen (vmem_insert_segment a new_seg prev)
        (kthen (hashtab_insert a new_seg)
        (kreturn new_seg))))))
     else
       kthen (kmodify (seg_upd seg (\<lambda>n. n\<lparr>sg_type := SEGMENT_ALLOCATED\<rparr>)))
       (kthen (hashtab_insert a seg)
       (kthen (seg_free new_seg)
       (kreturn seg)))))"

definition xalloc_found ::
    "arena \<Rightarrow> u64 \<Rightarrow> u64 \<Rightarrow> u64 \<Rightarrow> u64 \<Rightarrow> u64 \<Rightarrow> ('w vst, u64) km" where
  "xalloc_found a seg start sz new_seg new_seg2 =
     kbind (kget (\<lambda>s. vs_seg s seg)) (\<lambda>sg.
     kthen (kassert (sg_type sg = SEGMENT_FREE) ''seg->type == SEGMENT_FREE'')
     (kthen (kassert (sg_size sg \<ge> sz) ''seg->size >= size'')
     (kthen (seglist_remove a seg)
     (kbind (xalloc_split_before a seg start new_seg2) (\<lambda>unused.
      kbind (kget (\<lambda>s. sg_base (vs_seg s seg))) (\<lambda>base.
      kthen (kassert (base = start) ''seg->base == start'')
      (kbind (xalloc_split_after a seg sz new_seg) (\<lambda>new_seg.
       kthen (case unused of Some p \<Rightarrow> seg_free p | None \<Rightarrow> kreturn ())
       (kbind (kget (\<lambda>s. vs_seg s new_seg)) (\<lambda>ns.
        kthen (kassert (sg_size ns \<ge> sz) ''new_seg->size >= size'')
        (kthen (kmodify (arena_upd a (\<lambda>vm. vm\<lparr>vm_stat := (vm_stat vm)\<lparr>st_free := st_free (vm_stat vm) - sg_size ns,
                  st_in_use := st_in_use (vm_stat vm) + sg_size ns\<rparr>\<rparr>)))
        (kthen (kmodify (seg_upd new_seg (\<lambda>n. n\<lparr>sg_type := SEGMENT_ALLOCATED\<rparr>)))
        (kreturn (sg_base ns))))))))))))))"

definition vmem_xalloc ::
    "'w vmem_env \<Rightarrow> arena \<Rightarrow> u64 \<Rightarrow> u64 \<Rightarrow> u64 \<Rightarrow> u64 \<Rightarrow> u64 \<Rightarrow> u64 \<Rightarrow> u32 \<Rightarrow> ('w vst, u64) km" where
  "vmem_xalloc env a sz align phase nocross minaddr maxaddr vmflag =
     kbind (arena_lock a) (\<lambda>irql.
     kbind (freelist_for_size sz) (\<lambda>first.
     kthen (kassert (nocross = 0) ''nocross == 0'')
     (kbind (kget (\<lambda>s. vm_quantum (vs_arena s a))) (\<lambda>quantum.
      let align = (if align = 0 then quantum else align);
          vmflag = (vmflag AND NOT VM_INSTANTFIT) OR VM_BESTFIT
      in kthen (kguard (quantum \<noteq> 0) Undefined)
         (kthen (kassert (align mod quantum = 0) ''(align % vmp->quantum) == 0'')
         (kthen (kwhen (vmflag AND VM_BOOTSTRAP = 0)
            (kbind (repopulate_segments env) (\<lambda>r. kassert (r = 0) ''repopulate_segments() == 0'')))
         (kbind seg_alloc (\<lambda>new_seg.
          kbind seg_alloc (\<lambda>new_seg2.
          kbind (xalloc_loop env (ve_fuel env) a first sz align phase nocross minaddr maxaddr vmflag)
            (\<lambda>(seg, start).
          kbind (xalloc_found a seg start sz new_seg new_seg2) (\<lambda>ret.
          kthen (arena_unlock a irql)
          (kreturn ret))))))))))))"

definition vmem_alloc :: "'w vmem_env \<Rightarrow> arena \<Rightarrow> u64 \<Rightarrow> u32 \<Rightarrow> ('w vst, u64) km" where
  "vmem_alloc env a sz vmflag = vmem_xalloc env a sz 0 0 0 VMEM_ADDR_MIN VMEM_ADDR_MAX vmflag"

section \<open>Freeing\<close>

text \<open>Coalescing with the free neighbour on the right, then with the one on the left.\<close>

definition xfree_merge_right :: "arena \<Rightarrow> u64 \<Rightarrow> ('w vst, unit) km" where
  "xfree_merge_right a seg =
     kbind (kget (\<lambda>s. list_next seg (vm_segqueue (vs_arena s a)))) (\<lambda>neighbor.
     case neighbor of
       None \<Rightarrow> kreturn ()
     | Some nb \<Rightarrow>
         kbind (kget (\<lambda>s. vs_seg s nb)) (\<lambda>nbs.
         kwhen (sg_type nbs = SEGMENT_FREE)
           (kthen (seglist_remove a nb)
           (kthen (kmodify (arena_upd a (\<lambda>vm. vm\<lparr>vm_segqueue := remove1 nb (vm_segqueue vm)\<rparr>)))
           (kthen (kmodify (seg_upd seg (\<lambda>n. n\<lparr>sg_size := sg_size n + sg_size nbs\<rparr>)))
           (seg_free nb))))))"

definition xfree_merge_left :: "arena \<Rightarrow> u64 \<Rightarrow> ('w vst, unit) km" where
  "xfree_merge_left a seg =
     kbind (kget (\<lambda>s. list_prev seg (vm_segqueue (vs_arena s a)))) (\<lambda>neighbor.
     case neighbor of
       None \<Rightarrow> kfail NullDeref
     | Some nb \<Rightarrow>
         kbind (kget (\<lambda>s. vs_seg s nb)) (\<lambda>nbs.
         kwhen (sg_type nbs = SEGMENT_FREE)
           (kthen (seglist_remove a nb)
           (kthen (kmodify (arena_upd a (\<lambda>vm. vm\<lparr>vm_segqueue := remove1 nb (vm_segqueue vm)\<rparr>)))
           (kthen (kmodify (seg_upd seg (\<lambda>n. n\<lparr>sg_size := sg_size n + sg_size nbs\<rparr>)))
           (kthen (kmodify (seg_upd seg (\<lambda>n. n\<lparr>sg_base := sg_base nbs\<rparr>)))
           (seg_free nb)))))))"

text \<open>An imported span that is free again goes back to its source, anything else to a free list.\<close>

definition xfree_release :: "'w vmem_env \<Rightarrow> arena \<Rightarrow> u64 \<Rightarrow> ('w vst, unit) km" where
  "xfree_release env a seg =
     kbind (kget (\<lambda>s. list_prev seg (vm_segqueue (vs_arena s a)))) (\<lambda>neighbor.
     case neighbor of
       None \<Rightarrow> kfail NullDeref
     | Some nb \<Rightarrow>
         kbind (kget (\<lambda>s. vs_seg s nb)) (\<lambda>nbs.
         kthen (kassert (sg_type nbs = SEGMENT_SPAN \<or> sg_type nbs = SEGMENT_ALLOCATED)
            ''neighbor->type == SEGMENT_SPAN || neighbor->type == SEGMENT_ALLOCATED'')
         (kthen (kmodify (seg_upd seg (\<lambda>n. n\<lparr>sg_type := SEGMENT_FREE\<rparr>)))
         (kbind (kget (\<lambda>s. vs_seg s seg)) (\<lambda>sg.
          kbind (kget (\<lambda>s. vs_arena s a)) (\<lambda>vmp.
          case vm_free vmp of
            Some f \<Rightarrow>
              if sg_type nbs = SEGMENT_SPAN \<and> sg_imported nbs \<and> sg_size nbs = sg_size sg
              then
                kthen (kmodify (arena_upd a (\<lambda>vm. vm\<lparr>vm_segqueue := remove1 seg (vm_segqueue vm)\<rparr>)))
                (kthen (seg_free seg)
                (kthen (kmodify (arena_upd a (\<lambda>vm. vm\<lparr>vm_segqueue := remove1 nb (vm_segqueue vm)\<rparr>)))
                (kthen (seg_free nb)
                (ve_free env f (vm_source vmp) (sg_base sg) (sg_size sg)))))
              else vmem_add_to_freelist a seg
          | None \<Rightarrow> vmem_add_to_freelist a seg))))))"

definition vmem_xfree :: "'w vmem_env \<Rightarrow> arena \<Rightarrow> u64 \<Rightarrow> u64 \<Rightarrow> ('w vst, unit) km" where
  "vmem_xfree env a addr sz =
     kbind (arena_lock a) (\<lambda>irql.
     kbind (kget (\<lambda>s. find (\<lambda>p. sg_base (vs_seg s p) = addr)
                        (vm_hashtable (vs_arena s a) ! hashtable_for_addr addr))) (\<lambda>found.
     case found of
       None \<Rightarrow> kfail NullDeref
     | Some seg \<Rightarrow>
         kbind (kget (\<lambda>s. sg_size (vs_seg s seg))) (\<lambda>found_size.
         kthen (kassert (found_size = sz) ''seg->size == size'')
         (kthen (seglist_remove a seg)
         (kthen (xfree_merge_right a seg)
         (kthen (xfree_merge_left a seg)
         (kthen (xfree_release env a seg)
         (kthen (kmodify (arena_upd a (\<lambda>vm. vm\<lparr>vm_stat := (vm_stat vm)\<lparr>st_in_use := st_in_use (vm_stat vm) - sz,
                   st_free := st_free (vm_stat vm) + sz\<rparr>\<rparr>)))
         (arena_unlock a irql)))))))))"

definition vmem_free :: "'w vmem_env \<Rightarrow> arena \<Rightarrow> u64 \<Rightarrow> u64 \<Rightarrow> ('w vst, unit) km" where
  "vmem_free env a addr sz = vmem_xfree env a addr sz"

end
