(* ===== verification/Vmem_Inv.thy ===== *)
theory Vmem_Inv
  imports Vmem
begin

text \<open>
  The invariant of an arena. Three views of the same segments have to agree: the segment queue
  tiles the spans, the free lists hold the free segments by size, the hash table holds the
  allocated segments by address. The operations take a segment off its list (\<open>detach\<close>), cut it
  in two or join it with a neighbour, and put it back (\<open>attach\<close>); the theory has one lemma for
  each of these steps, with a set \<open>D\<close> of segments that are on no list at the moment.
\<close>

section \<open>Bucketed lists\<close>

definition bucket_ok :: "nat \<Rightarrow> ('e \<Rightarrow> nat) \<Rightarrow> 'e set \<Rightarrow> 'e list list \<Rightarrow> bool" where
  "bucket_ok n key S ls \<longleftrightarrow> length ls = n \<and>
     (\<forall>i < n. distinct (ls ! i) \<and> set (ls ! i) = {p \<in> S. key p = i})"

lemma bucket_okD:
  "bucket_ok n key S ls \<Longrightarrow> p \<in> S \<Longrightarrow> key p < n \<Longrightarrow> p \<in> set (ls ! key p)"
  "bucket_ok n key S ls \<Longrightarrow> i < n \<Longrightarrow> p \<in> set (ls ! i) \<Longrightarrow> p \<in> S \<and> key p = i"
  "bucket_ok n key S ls \<Longrightarrow> length ls = n"
  by (auto simp: bucket_ok_def)

lemma bucket_insert:
  assumes "bucket_ok n key S ls" and "p \<notin> S"
  shows "bucket_ok n key (insert p S) (LIST_PUSH (key p) p ls)"
  unfolding bucket_ok_def
proof (intro conjI allI impI)
  show "length (LIST_PUSH (key p) p ls) = n" using assms by (simp add: bucket_ok_def LIST_PUSH_def)
next
  fix i assume i: "i < n"
  have l: "LIST_PUSH (key p) p ls ! i = (if i = key p then p # ls ! i else ls ! i)"
    using i assms(1) by (simp add: bucket_ok_def LIST_PUSH_def nth_list_update)
  have "distinct (ls ! i)" "set (ls ! i) = {r \<in> S. key r = i}"
    using i assms(1) by (auto simp: bucket_ok_def)
  then show "distinct (LIST_PUSH (key p) p ls ! i)"
    and "set (LIST_PUSH (key p) p ls ! i) = {r \<in> insert p S. key r = i}"
    using assms(2) by (auto simp: l)
qed

lemma bucket_remove:
  "bucket_ok n key S ls \<Longrightarrow> bucket_ok n key (S - {p}) (map (remove1 p) ls)"
  by (auto simp: bucket_ok_def)

lemma bucket_cong:
  "bucket_ok n key S ls \<Longrightarrow> S = T \<Longrightarrow> (\<And>p. p \<in> T \<Longrightarrow> key p = key' p) \<Longrightarrow> bucket_ok n key' T ls"
  unfolding bucket_ok_def by (auto simp: set_eq_iff)

lemma bucket_remove_other:
  assumes "bucket_ok n key S ls" and "p \<notin> S"
  shows "map (remove1 p) ls = ls"
proof (rule map_idI)
  fix l assume "l \<in> set ls"
  then obtain i where "i < length ls" "l = ls ! i" by (metis in_set_conv_nth)
  then have "p \<notin> set l" using assms by (auto simp: bucket_ok_def)
  then show "remove1 p l = l" by (simp add: remove1_idem)
qed

lemma bucket_empty: "bucket_ok n key {} (replicate n [])"
  by (simp add: bucket_ok_def)

section \<open>Segments as ranges\<close>

definition lo :: "VmemSegment \<Rightarrow> nat" where "lo g = unat (sg_base g)"

definition hi :: "VmemSegment \<Rightarrow> nat" where "hi g = unat (sg_base g) + unat (sg_size g)"

definition seg_range :: "VmemSegment \<Rightarrow> nat set" where "seg_range g = {lo g..<hi g}"

text \<open>
  Reading the queue from the left: \<open>(c, e)\<close> are the address reached and the end of the current
  span. A span starts only where the one before is complete; every other segment starts where
  the one before ended.
\<close>

fun scan :: "nat \<times> nat \<Rightarrow> VmemSegment list \<Rightarrow> (nat \<times> nat) option" where
  "scan st [] = Some st"
| "scan (c, e) (g # gs) =
     (if sg_type g = SEGMENT_SPAN
      then if c = e \<and> lo g < hi g \<and> hi g < 2 ^ 64 then scan (lo g, hi g) gs else None
      else if lo g = c \<and> lo g < hi g \<and> hi g \<le> e then scan (hi g, e) gs else None)"

definition tiled :: "VmemSegment list \<Rightarrow> bool" where
  "tiled gs \<longleftrightarrow> (\<exists>e. scan (0, 0) gs = Some (e, e))"

lemma scan_append: "scan st (xs @ ys) = Option.bind (scan st xs) (\<lambda>st. scan st ys)"
  by (induction st xs rule: scan.induct) auto

text \<open>How many segments other than span markers hold an address.\<close>

definition occupants :: "VmemSegment list \<Rightarrow> nat \<Rightarrow> nat" where
  "occupants gs x = length (filter (\<lambda>g. sg_type g \<noteq> SEGMENT_SPAN \<and> x \<in> seg_range g) gs)"

lemma occupants_simps [simp]:
  "occupants [] x = 0"
  "occupants (g # gs) x = (if sg_type g \<noteq> SEGMENT_SPAN \<and> x \<in> seg_range g then 1 else 0) + occupants gs x"
  "occupants (gs @ hs) x = occupants gs x + occupants hs x"
  by (simp_all add: occupants_def)

lemma scan_cong_span:
  assumes "map (\<lambda>g. (sg_type g = SEGMENT_SPAN, sg_base g, sg_size g)) gs =
           map (\<lambda>g. (sg_type g = SEGMENT_SPAN, sg_base g, sg_size g)) hs"
  shows "scan st gs = scan st hs"
  using assms
proof (induction gs arbitrary: hs st)
  case Nil
  then show ?case by simp
next
  case (Cons g gs)
  then obtain h hs' where "hs = h # hs'" by (cases hs) auto
  with Cons show ?case by (cases st) (simp add: lo_def hi_def)
qed

section \<open>The invariant\<close>

definition freelist_key :: "(u64 \<Rightarrow> VmemSegment) \<Rightarrow> u64 \<Rightarrow> nat" where
  "freelist_key sg p = GET_LIST (sg_size (sg p)) - 1"

definition hash_key :: "(u64 \<Rightarrow> VmemSegment) \<Rightarrow> u64 \<Rightarrow> nat" where
  "hash_key sg p = hashtable_for_addr (sg_base (sg p))"

definition of_type :: "segment_type \<Rightarrow> (u64 \<Rightarrow> VmemSegment) \<Rightarrow> u64 set \<Rightarrow> Vmem \<Rightarrow> u64 set" where
  "of_type ty sg D vm = {p \<in> set (vm_segqueue vm). p \<notin> D \<and> sg_type (sg p) = ty}"

definition coalesced :: "u64 set \<Rightarrow> u64 list \<Rightarrow> bool" where
  "coalesced F q \<longleftrightarrow> successively (\<lambda>p r. \<not> (p \<in> F \<and> r \<in> F)) q"

definition grained :: "u64 \<Rightarrow> VmemSegment \<Rightarrow> bool" where
  "grained q g \<longleftrightarrow> unat q dvd unat (sg_base g) \<and> unat q dvd unat (sg_size g)"

definition arena_ok :: "(u64 \<Rightarrow> VmemSegment) \<Rightarrow> u64 set \<Rightarrow> Vmem \<Rightarrow> bool" where
  "arena_ok sg D vm \<longleftrightarrow>
     distinct (vm_segqueue vm) \<and> D \<subseteq> set (vm_segqueue vm) \<and>
     (\<forall>p \<in> D. sg_type (sg p) \<noteq> SEGMENT_SPAN) \<and>
     tiled (map sg (vm_segqueue vm)) \<and>
     (\<forall>x. occupants (map sg (vm_segqueue vm)) x \<le> 1) \<and>
     coalesced (of_type SEGMENT_FREE sg D vm) (vm_segqueue vm) \<and>
     (\<forall>p \<in> set (vm_segqueue vm). grained (vm_quantum vm) (sg p)) \<and>
     P2CHECK (vm_quantum vm) \<and> vm_quantum vm \<ge> 2 \<and>
     bucket_ok FREELISTS_N (freelist_key sg) (of_type SEGMENT_FREE sg D vm) (vm_freelist vm) \<and>
     bucket_ok HASHTABLES_N (hash_key sg) (of_type SEGMENT_ALLOCATED sg D vm) (vm_hashtable vm)"

text \<open>What an arena stands for: the allocated ranges and the addresses that are free.\<close>

definition allocations :: "(u64 \<Rightarrow> VmemSegment) \<Rightarrow> u64 set \<Rightarrow> Vmem \<Rightarrow> (u64 \<times> u64) set" where
  "allocations sg D vm = (\<lambda>p. (sg_base (sg p), sg_size (sg p))) ` of_type SEGMENT_ALLOCATED sg D vm"

definition free_space :: "(u64 \<Rightarrow> VmemSegment) \<Rightarrow> u64 set \<Rightarrow> Vmem \<Rightarrow> nat set" where
  "free_space sg D vm = (\<Union>p \<in> of_type SEGMENT_FREE sg D vm. seg_range (sg p))"

lemma arena_okD:
  assumes "arena_ok sg D vm"
  shows "distinct (vm_segqueue vm)" and "D \<subseteq> set (vm_segqueue vm)"
    and "\<And>p. p \<in> D \<Longrightarrow> sg_type (sg p) \<noteq> SEGMENT_SPAN"
    and "tiled (map sg (vm_segqueue vm))"
    and "\<And>x. occupants (map sg (vm_segqueue vm)) x \<le> 1"
    and "coalesced (of_type SEGMENT_FREE sg D vm) (vm_segqueue vm)"
    and "\<And>p. p \<in> set (vm_segqueue vm) \<Longrightarrow> grained (vm_quantum vm) (sg p)"
    and "P2CHECK (vm_quantum vm)" and "vm_quantum vm \<ge> 2"
    and "bucket_ok FREELISTS_N (freelist_key sg) (of_type SEGMENT_FREE sg D vm) (vm_freelist vm)"
    and "bucket_ok HASHTABLES_N (hash_key sg) (of_type SEGMENT_ALLOCATED sg D vm) (vm_hashtable vm)"
  using assms unfolding arena_ok_def by blast+

lemma hash_key_less: "hash_key sg p < HASHTABLES_N"
proof -
  have "unat (murmur64 x mod 16) < 16" for x
    by (simp add: unat_mod)
  then show ?thesis by (simp add: hash_key_def hashtable_for_addr_def HASHTABLES_N_def)
qed

lemma freelist_key_less: "freelist_key sg p < FREELISTS_N"
  by (simp add: freelist_key_def GET_LIST_def FREELISTS_N_def)

section \<open>Segments of the queue\<close>

lemma tiled_sound_aux:
  "scan (c, e) gs = Some (c', e') \<Longrightarrow> c \<le> e \<Longrightarrow> e < 2 ^ 64 \<Longrightarrow>
     (\<forall>g \<in> set gs. lo g < hi g \<and> hi g < 2 ^ 64) \<and> c' \<le> e' \<and> e' < 2 ^ 64"
proof (induction gs arbitrary: c e)
  case Nil
  then show ?case by simp
next
  case (Cons g gs)
  show ?case
  proof (cases "sg_type g = SEGMENT_SPAN")
    case True
    then show ?thesis using Cons.prems Cons.IH [of "lo g" "hi g"] by (auto split: if_splits)
  next
    case False
    then show ?thesis using Cons.prems Cons.IH [of "hi g" e] by (auto split: if_splits)
  qed
qed

lemma tiled_sound: "tiled gs \<Longrightarrow> g \<in> set gs \<Longrightarrow> lo g < hi g \<and> hi g < 2 ^ 64"
  unfolding tiled_def using tiled_sound_aux [of 0 0 gs] by auto

lemma occupants_pos:
  "p \<in> set q \<Longrightarrow> sg_type (sg p) \<noteq> SEGMENT_SPAN \<Longrightarrow> x \<in> seg_range (sg p) \<Longrightarrow> occupants (map sg q) x \<ge> 1"
  by (induction q) auto

lemma occupants_two:
  "distinct q \<Longrightarrow> p \<in> set q \<Longrightarrow> r \<in> set q \<Longrightarrow> p \<noteq> r \<Longrightarrow> sg_type (sg p) \<noteq> SEGMENT_SPAN \<Longrightarrow>
   sg_type (sg r) \<noteq> SEGMENT_SPAN \<Longrightarrow> x \<in> seg_range (sg p) \<Longrightarrow> x \<in> seg_range (sg r) \<Longrightarrow>
   occupants (map sg q) x \<ge> 2"
proof (induction q)
  case (Cons y q)
  then show ?case
    using occupants_pos [of p q sg x] occupants_pos [of r q sg x] by (cases "y = p"; cases "y = r") auto
qed simp

text \<open>Two different segments, span markers apart, have no address in common.\<close>

lemma arena_disjoint:
  assumes "arena_ok sg D vm" and "p \<in> set (vm_segqueue vm)" and "r \<in> set (vm_segqueue vm)" and "p \<noteq> r"
    and "sg_type (sg p) \<noteq> SEGMENT_SPAN" and "sg_type (sg r) \<noteq> SEGMENT_SPAN"
  shows "seg_range (sg p) \<inter> seg_range (sg r) = {}"
proof (rule ccontr)
  assume "\<not> ?thesis"
  then obtain x where "x \<in> seg_range (sg p)" "x \<in> seg_range (sg r)" by blast
  then have "occupants (map sg (vm_segqueue vm)) x \<ge> 2"
    using assms arena_okD(1) by (intro occupants_two [of _ p r]) auto
  moreover have "occupants (map sg (vm_segqueue vm)) x \<le> 1"
    using assms(1) by (rule arena_okD)
  ultimately show False by linarith
qed

section \<open>Coalescing\<close>

lemma coalesced_subset: "coalesced F q \<Longrightarrow> G \<subseteq> F \<Longrightarrow> coalesced G q"
  unfolding coalesced_def by (erule successively_mono) auto

lemma coalesced_insert:
  "coalesced F (xs @ p # ys) \<Longrightarrow> distinct (xs @ p # ys) \<Longrightarrow> (xs \<noteq> [] \<Longrightarrow> last xs \<notin> F) \<Longrightarrow>
   (ys \<noteq> [] \<Longrightarrow> hd ys \<notin> F) \<Longrightarrow> coalesced (insert p F) (xs @ p # ys)"
  unfolding coalesced_def
proof (simp only: successively_append_iff successively_Cons, elim conjE, intro conjI)
  assume a: "successively (\<lambda>p r. \<not> (p \<in> F \<and> r \<in> F)) xs" "distinct (xs @ p # ys)"
  then show "successively (\<lambda>pa r. \<not> (pa \<in> insert p F \<and> r \<in> insert p F)) xs"
    by (elim successively_mono) auto
next
  assume a: "ys = [] \<or> \<not> (p \<in> F \<and> hd ys \<in> F) \<and> successively (\<lambda>p r. \<not> (p \<in> F \<and> r \<in> F)) ys"
    "distinct (xs @ p # ys)" "ys \<noteq> [] \<Longrightarrow> hd ys \<notin> F"
  then have "hd ys \<notin> insert p F" if "ys \<noteq> []" using that hd_in_set by fastforce
  moreover have "successively (\<lambda>pa r. \<not> (pa \<in> insert p F \<and> r \<in> insert p F)) ys" if "ys \<noteq> []"
    using a that by (auto elim!: successively_mono)
  ultimately show "ys = [] \<or> \<not> (p \<in> insert p F \<and> hd ys \<in> insert p F) \<and>
      successively (\<lambda>pa r. \<not> (pa \<in> insert p F \<and> r \<in> insert p F)) ys" by blast
next
  assume a: "distinct (xs @ p # ys)" "xs \<noteq> [] \<Longrightarrow> last xs \<notin> F"
  then have "last xs \<notin> insert p F" if "xs \<noteq> []" using that last_in_set by fastforce
  then show "xs = [] \<or> p # ys = [] \<or> \<not> (last xs \<in> insert p F \<and> hd (p # ys) \<in> insert p F)" by blast
qed

lemma coalesced_add:
  "p \<notin> F \<Longrightarrow> q \<notin> F \<Longrightarrow> coalesced F (xs @ q # p # ys) = coalesced F (xs @ p # ys)"
  "p \<notin> F \<Longrightarrow> q \<notin> F \<Longrightarrow> coalesced F (xs @ p # q # ys) = coalesced F (xs @ p # ys)"
  by (auto simp: coalesced_def successively_append_iff successively_Cons)

section \<open>Cutting and joining\<close>

definition cut_at :: "VmemSegment \<Rightarrow> VmemSegment \<Rightarrow> VmemSegment \<Rightarrow> bool" where
  "cut_at g g1 g2 \<longleftrightarrow> sg_type g \<noteq> SEGMENT_SPAN \<and> sg_type g1 \<noteq> SEGMENT_SPAN \<and> sg_type g2 \<noteq> SEGMENT_SPAN \<and>
     lo g1 = lo g \<and> hi g1 = lo g2 \<and> hi g2 = hi g \<and> lo g1 < hi g1 \<and> lo g2 < hi g2"

lemma scan_cut: "cut_at g g1 g2 \<Longrightarrow> scan st (g1 # g2 # gs) = scan st (g # gs)"
  by (cases st) (auto simp: cut_at_def)

lemma occupants_cut: "cut_at g g1 g2 \<Longrightarrow> occupants (g1 # g2 # gs) x = occupants (g # gs) x"
  by (auto simp: cut_at_def seg_range_def)

lemma tiled_cut: "cut_at g g1 g2 \<Longrightarrow> tiled (gs @ g1 # g2 # hs) = tiled (gs @ g # hs)"
  unfolding tiled_def scan_append by (simp only: scan_cut)

lemma map_fun_upd_notin: "p \<notin> set xs \<Longrightarrow> map (f(p := y)) xs = map f xs"
  by simp

lemma arena_ok_frame:
  assumes "arena_ok sg D vm" and "\<And>p. p \<in> set (vm_segqueue vm) \<Longrightarrow> sg' p = sg p"
  shows "arena_ok sg' D vm"
proof -
  have m: "map sg' (vm_segqueue vm) = map sg (vm_segqueue vm)" using assms(2) by simp
  have t: "of_type ty sg' D vm = of_type ty sg D vm" for ty
    using assms(2) by (auto simp: of_type_def)
  have "bucket_ok FREELISTS_N (freelist_key sg') (of_type SEGMENT_FREE sg D vm) (vm_freelist vm)"
    "bucket_ok HASHTABLES_N (hash_key sg') (of_type SEGMENT_ALLOCATED sg D vm) (vm_hashtable vm)"
    using arena_okD(10,11) [OF assms(1)] assms(2)
    by (auto elim!: bucket_cong simp: of_type_def freelist_key_def hash_key_def)
  then show ?thesis
    using assms arena_okD(2) [OF assms(1)] unfolding arena_ok_def m t by auto
qed

lemma arena_cut:
  assumes ok: "arena_ok sg D vm" and q: "vm_segqueue vm = xs @ p # ys" and p: "p \<in> D"
    and n: "n \<notin> set (vm_segqueue vm)" and cut: "cut_at (sg p) g1 g2"
    and gr: "grained (vm_quantum vm) g1" "grained (vm_quantum vm) g2"
  defines "sg' \<equiv> sg(n := g1, p := g2)" and "vm' \<equiv> vm\<lparr>vm_segqueue := xs @ n # p # ys\<rparr>"
  shows "arena_ok sg' (insert n D) vm'" and "of_type ty sg' (insert n D) vm' = of_type ty sg D vm"
proof -
  have d: "distinct (xs @ p # ys)" using arena_okD(1) [OF ok] q by simp
  have np: "n \<noteq> p" "n \<notin> set xs" "n \<notin> set ys" "n \<notin> D" using n q arena_okD(2) [OF ok] by auto
  have m: "map sg' (vm_segqueue vm') = map sg xs @ g1 # g2 # map sg ys"
    using d np by (simp add: sg'_def vm'_def)
  have m0: "map sg (vm_segqueue vm) = map sg xs @ sg p # map sg ys" using q by simp
  show t: "of_type ty sg' (insert n D) vm' = of_type ty sg D vm" for ty
    using np p q by (auto simp: of_type_def sg'_def vm'_def)
  have old: "sg' r = sg r" if "r \<in> of_type ty sg D vm" for r ty
    using that p np n by (auto simp: of_type_def sg'_def)
  have "bucket_ok FREELISTS_N (freelist_key sg') (of_type SEGMENT_FREE sg D vm) (vm_freelist vm)"
    "bucket_ok HASHTABLES_N (hash_key sg') (of_type SEGMENT_ALLOCATED sg D vm) (vm_hashtable vm)"
    using arena_okD(10,11) [OF ok] old by (auto elim!: bucket_cong simp: freelist_key_def hash_key_def)
  moreover have "tiled (map sg' (vm_segqueue vm'))"
    using arena_okD(4) [OF ok] cut by (simp only: m m0 tiled_cut)
  moreover have "occupants (map sg' (vm_segqueue vm')) x \<le> 1" for x
    using arena_okD(5) [OF ok, of x] cut by (simp only: m m0 occupants_simps(3) occupants_cut)
  moreover have "coalesced (of_type SEGMENT_FREE sg D vm) (vm_segqueue vm')"
    using arena_okD(6) [OF ok] p n np by (simp add: q vm'_def coalesced_add(1) of_type_def)
  moreover have "grained (vm_quantum vm') (sg' r)" if "r \<in> set (vm_segqueue vm')" for r
    using that arena_okD(7) [OF ok, of r] q gr by (auto simp: sg'_def vm'_def)
  moreover have "sg_type (sg' r) \<noteq> SEGMENT_SPAN" if "r \<in> insert n D" for r
    using that arena_okD(3) [OF ok, of r] cut by (auto simp: sg'_def cut_at_def)
  ultimately show "arena_ok sg' (insert n D) vm'"
    using d np arena_okD(2,8,9) [OF ok] q unfolding arena_ok_def t by (auto simp: vm'_def)
qed

lemma arena_join:
  assumes ok: "arena_ok sg D vm" and p: "p \<in> D" and n: "n \<in> D" "n \<noteq> p"
    and q: "vm_segqueue vm = xs @ [p, n] @ ys \<and> cut_at g (sg p) (sg n) \<or>
            vm_segqueue vm = xs @ [n, p] @ ys \<and> cut_at g (sg n) (sg p)"
    and gr: "grained (vm_quantum vm) g"
  defines "sg' \<equiv> sg(p := g)" and "vm' \<equiv> vm\<lparr>vm_segqueue := xs @ p # ys\<rparr>"
  shows "arena_ok sg' (D - {n}) vm'" and "of_type ty sg' (D - {n}) vm' = of_type ty sg D vm"
proof -
  have d: "distinct (xs @ n # p # ys)" using arena_okD(1) [OF ok] q by auto
  have set_q: "set (vm_segqueue vm) = set xs \<union> {n, p} \<union> set ys" using q by auto
  have m: "map sg' (vm_segqueue vm') = map sg xs @ g # map sg ys"
    using d by (simp add: sg'_def vm'_def)
  have m0: "tiled (map sg (vm_segqueue vm)) = tiled (map sg xs @ g # map sg ys)"
    and o0: "occupants (map sg (vm_segqueue vm)) x = occupants (map sg xs @ g # map sg ys) x" for x
    using q by (auto simp only: map_append list.map append_Cons append_Nil tiled_cut occupants_simps(3) occupants_cut)
  show t: "of_type ty sg' (D - {n}) vm' = of_type ty sg D vm" for ty
    using p n d set_q by (auto simp: of_type_def sg'_def vm'_def)
  have old: "sg' r = sg r" if "r \<in> of_type ty sg D vm" for r ty
    using that p by (auto simp: of_type_def sg'_def)
  have "bucket_ok FREELISTS_N (freelist_key sg') (of_type SEGMENT_FREE sg D vm) (vm_freelist vm)"
    "bucket_ok HASHTABLES_N (hash_key sg') (of_type SEGMENT_ALLOCATED sg D vm) (vm_hashtable vm)"
    using arena_okD(10,11) [OF ok] old by (auto elim!: bucket_cong simp: freelist_key_def hash_key_def)
  moreover have "tiled (map sg' (vm_segqueue vm'))"
    using arena_okD(4) [OF ok] m m0 by simp
  moreover have "occupants (map sg' (vm_segqueue vm')) x \<le> 1" for x
    using arena_okD(5) [OF ok, of x] m o0 by simp
  moreover have "coalesced (of_type SEGMENT_FREE sg D vm) (vm_segqueue vm')"
  proof -
    have "p \<notin> of_type SEGMENT_FREE sg D vm" "n \<notin> of_type SEGMENT_FREE sg D vm"
      using p n by (auto simp: of_type_def)
    from coalesced_add [OF this, of xs ys] show ?thesis
      using arena_okD(6) [OF ok] q by (auto simp: vm'_def)
  qed
  moreover have "grained (vm_quantum vm') (sg' r)" if "r \<in> set (vm_segqueue vm')" for r
    using that arena_okD(7) [OF ok, of r] set_q gr by (auto simp: sg'_def vm'_def)
  moreover have "sg_type (sg' r) \<noteq> SEGMENT_SPAN" if "r \<in> D - {n}" for r
    using that arena_okD(3) [OF ok, of r] q by (auto simp: sg'_def cut_at_def)
  ultimately show "arena_ok sg' (D - {n}) vm'"
    using d arena_okD(2,8,9) [OF ok] set_q unfolding arena_ok_def t by (auto simp: vm'_def)
qed

section \<open>Taking a segment off its list and putting it back\<close>

lemma of_type_detach: "of_type ty sg (insert p D) (seglist_unlink p vm) = of_type ty sg D vm - {p}"
  by (auto simp: of_type_def seglist_unlink_def)

lemma seglist_unlink_fields [simp]:
  "vm_segqueue (seglist_unlink p vm) = vm_segqueue vm"
  "vm_quantum (seglist_unlink p vm) = vm_quantum vm"
  "vm_free (seglist_unlink p vm) = vm_free vm" "vm_alloc (seglist_unlink p vm) = vm_alloc vm"
  "vm_source (seglist_unlink p vm) = vm_source vm" "vm_lock (seglist_unlink p vm) = vm_lock vm"
  "vm_stat (seglist_unlink p vm) = vm_stat vm"
  by (simp_all add: seglist_unlink_def)

lemma arena_detach:
  assumes ok: "arena_ok sg D vm" and p: "p \<in> set (vm_segqueue vm)" "sg_type (sg p) \<noteq> SEGMENT_SPAN"
  shows "arena_ok sg (insert p D) (seglist_unlink p vm)"
proof -
  have "bucket_ok FREELISTS_N (freelist_key sg) (of_type SEGMENT_FREE sg D vm - {p}) (vm_freelist (seglist_unlink p vm))"
    "bucket_ok HASHTABLES_N (hash_key sg) (of_type SEGMENT_ALLOCATED sg D vm - {p}) (vm_hashtable (seglist_unlink p vm))"
    using bucket_remove arena_okD(10,11) [OF ok] by (auto simp: seglist_unlink_def)
  moreover have "coalesced (of_type SEGMENT_FREE sg D vm - {p}) (vm_segqueue vm)"
    using arena_okD(6) [OF ok] by (rule coalesced_subset) blast
  ultimately show ?thesis
    using arena_okD(1-5,7-9) [OF ok] p unfolding arena_ok_def of_type_detach by auto
qed

lemma of_type_attach:
  "p \<in> D \<Longrightarrow> p \<in> set (vm_segqueue vm) \<Longrightarrow> vm_segqueue vm' = vm_segqueue vm \<Longrightarrow>
   of_type ty sg (D - {p}) vm' = (if sg_type (sg p) = ty then insert p (of_type ty sg D vm) else of_type ty sg D vm)"
  by (auto simp: of_type_def)

lemma arena_attach_free:
  assumes ok: "arena_ok sg D vm" and p: "p \<in> D" and ty: "sg_type (sg p) = SEGMENT_FREE"
    and q: "vm_segqueue vm = xs @ p # ys"
    and nb: "xs \<noteq> [] \<Longrightarrow> last xs \<notin> of_type SEGMENT_FREE sg D vm"
            "ys \<noteq> [] \<Longrightarrow> hd ys \<notin> of_type SEGMENT_FREE sg D vm"
  defines "vm' \<equiv> vm\<lparr>vm_freelist := LIST_PUSH (freelist_key sg p) p (vm_freelist vm)\<rparr>"
  shows "arena_ok sg (D - {p}) vm'"
proof -
  have t: "of_type SEGMENT_FREE sg (D - {p}) vm' = insert p (of_type SEGMENT_FREE sg D vm)"
    "of_type SEGMENT_ALLOCATED sg (D - {p}) vm' = of_type SEGMENT_ALLOCATED sg D vm"
    using of_type_attach [of p D vm vm'] p ty q by (auto simp: vm'_def)
  have "p \<notin> of_type SEGMENT_FREE sg D vm" using p by (simp add: of_type_def)
  then have "bucket_ok FREELISTS_N (freelist_key sg) (insert p (of_type SEGMENT_FREE sg D vm)) (vm_freelist vm')"
    using bucket_insert arena_okD(10) [OF ok] by (simp add: vm'_def)
  moreover have "coalesced (insert p (of_type SEGMENT_FREE sg D vm)) (vm_segqueue vm)"
    unfolding q using arena_okD(1,6) [OF ok] nb by (intro coalesced_insert) (simp_all add: q)
  moreover have "vm_segqueue vm' = vm_segqueue vm" "vm_quantum vm' = vm_quantum vm"
    "vm_hashtable vm' = vm_hashtable vm" by (simp_all add: vm'_def)
  ultimately show ?thesis
    using arena_okD(1-5,7-9,11) [OF ok] unfolding arena_ok_def t by auto
qed

lemma arena_attach_allocated:
  assumes ok: "arena_ok sg D vm" and p: "p \<in> D" and ty: "sg_type (sg p) = SEGMENT_ALLOCATED"
  defines "vm' \<equiv> vm\<lparr>vm_hashtable := LIST_PUSH (hash_key sg p) p (vm_hashtable vm)\<rparr>"
  shows "arena_ok sg (D - {p}) vm'"
proof -
  have t: "of_type SEGMENT_FREE sg (D - {p}) vm' = of_type SEGMENT_FREE sg D vm"
    "of_type SEGMENT_ALLOCATED sg (D - {p}) vm' = insert p (of_type SEGMENT_ALLOCATED sg D vm)"
    using of_type_attach [of p D vm vm'] p ty arena_okD(2) [OF ok] by (auto simp: vm'_def)
  have "p \<notin> of_type SEGMENT_ALLOCATED sg D vm" using p by (simp add: of_type_def)
  then have "bucket_ok HASHTABLES_N (hash_key sg) (insert p (of_type SEGMENT_ALLOCATED sg D vm)) (vm_hashtable vm')"
    using bucket_insert arena_okD(11) [OF ok] by (simp add: vm'_def)
  moreover have "vm_segqueue vm' = vm_segqueue vm" "vm_quantum vm' = vm_quantum vm"
    "vm_freelist vm' = vm_freelist vm" by (simp_all add: vm'_def)
  ultimately show ?thesis
    using arena_okD(1-10) [OF ok] unfolding arena_ok_def t by auto
qed

text \<open>Changing the type of a detached segment, which no list depends on.\<close>

lemma arena_retype:
  assumes ok: "arena_ok sg D vm" and p: "p \<in> D" and ty: "ty \<noteq> SEGMENT_SPAN"
  defines "sg' \<equiv> sg(p := (sg p)\<lparr>sg_type := ty\<rparr>)"
  shows "arena_ok sg' D vm" and "of_type ty' sg' D vm = of_type ty' sg D vm"
proof -
  show t: "of_type ty' sg' D vm = of_type ty' sg D vm" for ty'
    using p by (auto simp: of_type_def sg'_def)
  have ns: "sg_type (sg p) \<noteq> SEGMENT_SPAN" using ok p by (rule arena_okD)
  have key: "(sg_type (sg' r) = SEGMENT_SPAN) = (sg_type (sg r) = SEGMENT_SPAN)"
    "sg_base (sg' r) = sg_base (sg r)" "sg_size (sg' r) = sg_size (sg r)" for r
    using ns ty by (auto simp: sg'_def)
  have "scan st (map sg' q) = scan st (map sg q)" for st q
    by (rule scan_cong_span) (simp add: key)
  moreover have "occupants (map sg' q) x = occupants (map sg q) x" for q x
    by (induction q) (simp_all add: key seg_range_def lo_def hi_def)
  moreover have "freelist_key sg' = freelist_key sg" "hash_key sg' = hash_key sg"
    by (auto simp: freelist_key_def hash_key_def key)
  moreover have "grained qu (sg' r) = grained qu (sg r)" for qu r
    by (simp add: grained_def key)
  ultimately show "arena_ok sg' D vm"
    using ok unfolding arena_ok_def t tiled_def by (simp add: key)
qed

section \<open>Adding and dropping a span\<close>

lemma scan_complete:
  "scan (c, c) gs = Some (e, e) \<Longrightarrow> \<exists>e'. scan (d, d) gs = Some (e', e')"
  by (cases gs) (auto split: if_splits)

lemma scan_complete_hd:
  "scan (c, c) (g # gs) = Some st \<Longrightarrow> sg_type g = SEGMENT_SPAN"
  by (auto split: if_splits)

lemma arena_add_span:
  assumes ok: "arena_ok sg D vm" and n: "sp \<notin> set (vm_segqueue vm)" "fr \<notin> set (vm_segqueue vm)" "sp \<noteq> fr"
    and g: "sg_type gs = SEGMENT_SPAN" "sg_type gf \<noteq> SEGMENT_SPAN"
      "sg_base gf = sg_base gs" "sg_size gf = sg_size gs" "lo gs < hi gs" "hi gs < 2 ^ 64"
    and gr: "grained (vm_quantum vm) gs"
    and disj: "\<And>r. r \<in> set (vm_segqueue vm) \<Longrightarrow> sg_type (sg r) \<noteq> SEGMENT_SPAN \<Longrightarrow>
                 seg_range (sg r) \<inter> seg_range gs = {}"
  defines "sg' \<equiv> sg(sp := gs, fr := gf)" and "vm' \<equiv> vm\<lparr>vm_segqueue := vm_segqueue vm @ [sp, fr]\<rparr>"
  shows "arena_ok sg' (insert fr D) vm'"
    and "ty \<noteq> SEGMENT_SPAN \<Longrightarrow> of_type ty sg' (insert fr D) vm' = of_type ty sg D vm"
proof -
  have nD: "sp \<notin> D" "fr \<notin> D" using n arena_okD(2) [OF ok] by auto
  have m: "map sg' (vm_segqueue vm') = map sg (vm_segqueue vm) @ [gs, gf]"
    using n by (auto simp: sg'_def vm'_def)
  show t: "of_type ty sg' (insert fr D) vm' = of_type ty sg D vm" if "ty \<noteq> SEGMENT_SPAN" for ty
    using that n g(1) nD by (auto simp: of_type_def sg'_def vm'_def)
  have old: "sg' r = sg r" if "r \<in> of_type ty sg D vm" for r ty
    using that n by (auto simp: of_type_def sg'_def)
  have "bucket_ok FREELISTS_N (freelist_key sg') (of_type SEGMENT_FREE sg D vm) (vm_freelist vm)"
    "bucket_ok HASHTABLES_N (hash_key sg') (of_type SEGMENT_ALLOCATED sg D vm) (vm_hashtable vm)"
    using arena_okD(10,11) [OF ok] old by (auto elim!: bucket_cong simp: freelist_key_def hash_key_def)
  moreover have "tiled (map sg' (vm_segqueue vm'))"
  proof -
    obtain e where "scan (0, 0) (map sg (vm_segqueue vm)) = Some (e, e)"
      using arena_okD(4) [OF ok] by (auto simp: tiled_def)
    then show ?thesis using g by (simp add: tiled_def m scan_append lo_def hi_def)
  qed
  moreover have "occupants (map sg' (vm_segqueue vm')) x \<le> 1" for x
  proof (cases "x \<in> seg_range gs")
    case True
    then have "occupants (map sg (vm_segqueue vm)) x = 0"
      using disj by (auto simp: occupants_def filter_empty_conv)
    then show ?thesis using g(1) by (simp add: m)
  next
    case False
    then show ?thesis
      using arena_okD(5) [OF ok, of x] g by (auto simp: m seg_range_def lo_def hi_def)
  qed
  moreover have "coalesced (of_type SEGMENT_FREE sg D vm) (vm_segqueue vm')"
    using arena_okD(6) [OF ok] n
    by (simp add: vm'_def coalesced_def successively_append_iff of_type_def)
  moreover have "grained (vm_quantum vm') (sg' r)" if "r \<in> set (vm_segqueue vm')" for r
    using that arena_okD(7) [OF ok, of r] gr g by (auto simp: sg'_def vm'_def grained_def)
  moreover have "sg_type (sg' r) \<noteq> SEGMENT_SPAN" if "r \<in> insert fr D" for r
    using that arena_okD(3) [OF ok, of r] g nD by (auto simp: sg'_def)
  ultimately show "arena_ok sg' (insert fr D) vm'"
    using n arena_okD(1,2,8,9) [OF ok] unfolding arena_ok_def t [OF segment_type.distinct(3)]
      t [OF segment_type.distinct(5)] by (auto simp: vm'_def)
qed

lemma arena_drop_span:
  assumes ok: "arena_ok sg D vm" and q: "vm_segqueue vm = xs @ sp # p # ys" and p: "p \<in> D"
    and sp: "sg_type (sg sp) = SEGMENT_SPAN" and sz: "sg_size (sg sp) = sg_size (sg p)"
  defines "vm' \<equiv> vm\<lparr>vm_segqueue := xs @ ys\<rparr>"
  shows "arena_ok sg (D - {p}) vm'"
    and "ty \<noteq> SEGMENT_SPAN \<Longrightarrow> of_type ty sg (D - {p}) vm' = of_type ty sg D vm"
proof -
  have d: "distinct (xs @ sp # p # ys)" using arena_okD(1) [OF ok] q by simp
  have ns: "sg_type (sg p) \<noteq> SEGMENT_SPAN" using ok p by (rule arena_okD)
  have spD: "sp \<notin> D" using arena_okD(3) [OF ok] sp by auto
  show t: "of_type ty sg (D - {p}) vm' = of_type ty sg D vm" if "ty \<noteq> SEGMENT_SPAN" for ty
    using that d p q sp by (auto simp: of_type_def vm'_def)
  obtain e c where c: "scan (0, 0) (map sg xs) = Some (c, c)"
    "scan (hi (sg sp), hi (sg sp)) (map sg ys) = Some (e, e)"
  proof -
    obtain e where e: "scan (0, 0) (map sg (vm_segqueue vm)) = Some (e, e)"
      using arena_okD(4) [OF ok] by (auto simp: tiled_def)
    then obtain c c' where "scan (0, 0) (map sg xs) = Some (c, c')"
      by (cases "scan (0, 0) (map sg xs)") (auto simp: q scan_append)
    with e that show thesis
      using sp ns sz by (auto simp: q scan_append lo_def hi_def split: if_splits)
  qed
  have "tiled (map sg (vm_segqueue vm'))"
    using c scan_complete [OF c(2), of c] by (auto simp: tiled_def vm'_def scan_append)
  moreover have "occupants (map sg (vm_segqueue vm')) x \<le> 1" for x
    using arena_okD(5) [OF ok, of x] q by (simp add: vm'_def split: if_splits)
  moreover have "coalesced (of_type SEGMENT_FREE sg D vm) (xs @ ys)"
  proof -
    have "hd ys \<notin> of_type SEGMENT_FREE sg D vm" if "ys \<noteq> []"
      using that c(2) scan_complete_hd by (cases ys) (auto simp: of_type_def simp del: scan.simps)
    then show ?thesis
      using arena_okD(6) [OF ok]
      by (auto simp: q coalesced_def successively_append_iff successively_Cons)
  qed
  ultimately show "arena_ok sg (D - {p}) vm'"
    using d arena_okD(2,3,7-11) [OF ok] q spD unfolding arena_ok_def t [OF segment_type.distinct(3)]
      t [OF segment_type.distinct(5)] by (auto simp: vm'_def)
qed

end
