(* ===== verification/Vmem_Ops.thy ===== *)
theory Vmem_Ops
  imports Vmem_Inv "HOL-Library.Multiset"
begin

text \<open>
  The operations of the allocator on the invariant: what each block of the code does to the
  segments, and from that the behaviour of \<open>vmem_xalloc\<close> and \<open>vmem_xfree\<close>.
\<close>

section \<open>State projections\<close>

lemma arena_upd_fields [simp]:
  "vs_seg (arena_upd a f s) = vs_seg s" "vs_free_segs (arena_upd a f s) = vs_free_segs s"
  "vs_nfreesegs (arena_upd a f s) = vs_nfreesegs s" "vs_glock (arena_upd a f s) = vs_glock s"
  "vs_irql (arena_upd a f s) = vs_irql s" "vs_world (arena_upd a f s) = vs_world s"
  "vs_arena (arena_upd a f s) = (vs_arena s)(a := f (vs_arena s a))"
  by (simp_all add: arena_upd_def)

lemma seg_upd_fields [simp]:
  "vs_arena (seg_upd p g s) = vs_arena s" "vs_free_segs (seg_upd p g s) = vs_free_segs s"
  "vs_nfreesegs (seg_upd p g s) = vs_nfreesegs s" "vs_glock (seg_upd p g s) = vs_glock s"
  "vs_irql (seg_upd p g s) = vs_irql s" "vs_world (seg_upd p g s) = vs_world s"
  "vs_seg (seg_upd p g s) = (vs_seg s)(p := g (vs_seg s p))"
  by (simp_all add: seg_upd_def)

lemma vmem_io_simps [simp]:
  "irql_current vmem_io = vs_irql" "irql_set vmem_io = vs_irql_update" "softints vmem_io = (\<lambda>_. 0)"
  by (simp_all add: vmem_io_def)

text \<open>The two kinds of locks of the allocator are fields in the sense of \<open>lock_fields\<close>.\<close>

interpretation global_lock: lock_fields vmem_io vs_glock vs_glock_update
  by unfold_locales simp_all

interpretation arena_locks: lock_fields vmem_io "\<lambda>s. vm_lock (vs_arena s a)" "\<lambda>f. arena_upd a (vm_lock_update f)"
  for a
  by unfold_locales simp_all

text \<open>The global lock is free and the level allows taking it.\<close>

definition quiet :: "'w vst \<Rightarrow> bool" where
  "quiet s \<longleftrightarrow> \<not> vs_glock s \<and> vs_irql s \<le> IRQL_DISPATCH"

lemma runs_to_irql_lower_vmem:
  "runs_to (irql_lower vmem_io old) s Q \<longleftrightarrow> old \<le> vs_irql s \<and> Q () (s\<lparr>vs_irql := old\<rparr>)"
  by (simp add: irql_lower_def wp)

lemma runs_to_seg_alloc:
  assumes "quiet s"
  shows "runs_to seg_alloc s Q \<longleftrightarrow>
     (\<exists>p rest. vs_free_segs s = p # rest \<and>
        Q p (s\<lparr>vs_free_segs := rest, vs_nfreesegs := vs_nfreesegs s - 1\<rparr>))"
  using assms
  by (cases s; cases "vs_free_segs s")
     (simp_all add: seg_alloc_def vmem_lock_def vmem_unlock_def spinlock_release_lower_def wp
        runs_to_irql_lower_vmem quiet_def)

lemma runs_to_seg_free:
  assumes "quiet s"
  shows "runs_to (seg_free p) s Q \<longleftrightarrow>
     Q () (s\<lparr>vs_free_segs := p # vs_free_segs s, vs_nfreesegs := vs_nfreesegs s + 1\<rparr>)"
  using assms
  by (cases s) (simp add: seg_free_def vmem_lock_def vmem_unlock_def spinlock_release_lower_def wp
      runs_to_irql_lower_vmem quiet_def)

lemma GET_LIST_pos: "2 \<le> unat sz \<Longrightarrow> 1 \<le> GET_LIST sz"
proof -
  assume "2 \<le> unat sz"
  then have "sz \<noteq> 0" by auto
  then have "unat sz < 2 ^ (64 - builtin_clzl sz)" by (rule clzl_bounds)
  then have "(2::nat) ^ 1 < 2 ^ (64 - builtin_clzl sz)" using \<open>2 \<le> unat sz\<close> by simp
  then have "1 < 64 - builtin_clzl sz" by (simp only: power_strict_increasing_iff)
  then show ?thesis by (simp add: GET_LIST_def FREELISTS_N_def)
qed

lemma runs_to_freelist_for_size:
  "2 \<le> unat sz \<Longrightarrow> runs_to (freelist_for_size sz) s Q \<longleftrightarrow> Q (GET_LIST sz - 1) s"
  using GET_LIST_pos [of sz] by (auto simp: freelist_for_size_def wp)

lemma runs_to_add_to_freelist:
  assumes "2 \<le> unat (sg_size (vs_seg s p))"
  shows "runs_to (vmem_add_to_freelist a p) s Q \<longleftrightarrow>
     Q () (arena_upd a (\<lambda>vm. vm\<lparr>vm_freelist := LIST_PUSH (freelist_key (vs_seg s) p) p (vm_freelist vm)\<rparr>) s)"
  using assms by (simp add: vmem_add_to_freelist_def wp runs_to_freelist_for_size freelist_key_def)

lemma runs_to_hashtab_insert:
  "runs_to (hashtab_insert a p) s Q \<longleftrightarrow>
     Q () (arena_upd a (\<lambda>vm. vm\<lparr>vm_hashtable := LIST_PUSH (hash_key (vs_seg s) p) p (vm_hashtable vm)\<rparr>) s)"
  by (simp add: hashtab_insert_def wp hash_key_def)

lemma runs_to_seglist_remove:
  "runs_to (seglist_remove a p) s Q \<longleftrightarrow> Q () (arena_upd a (seglist_unlink p) s)"
  by (simp add: seglist_remove_def wp)

lemma runs_to_insert_segment:
  "runs_to (vmem_insert_segment a p prev) s Q \<longleftrightarrow>
     (\<exists>r. prev = Some r \<and> Q () (arena_upd a (\<lambda>vm. vm\<lparr>vm_segqueue := insert_after r p (vm_segqueue vm)\<rparr>) s))"
  by (cases prev) (simp_all add: vmem_insert_segment_def wp)

text \<open>Updates of an arena in the order of its fields.\<close>

lemma vm_upd_order:
  "vm\<lparr>vm_freelist := x, vm_segqueue := y\<rparr> = vm\<lparr>vm_segqueue := y, vm_freelist := x\<rparr>"
  "vm\<lparr>vm_hashtable := z, vm_segqueue := y\<rparr> = vm\<lparr>vm_segqueue := y, vm_hashtable := z\<rparr>"
  "vm\<lparr>vm_hashtable := z, vm_freelist := x\<rparr> = vm\<lparr>vm_freelist := x, vm_hashtable := z\<rparr>"
  "vm\<lparr>vm_stat := u, vm_segqueue := y\<rparr> = vm\<lparr>vm_segqueue := y, vm_stat := u\<rparr>"
  "vm\<lparr>vm_stat := u, vm_freelist := x\<rparr> = vm\<lparr>vm_freelist := x, vm_stat := u\<rparr>"
  "vm\<lparr>vm_stat := u, vm_hashtable := z\<rparr> = vm\<lparr>vm_hashtable := z, vm_stat := u\<rparr>"
  "g\<lparr>sg_size := n, sg_base := b\<rparr> = g\<lparr>sg_base := b, sg_size := n\<rparr>"
  by simp_all

section \<open>What the lists stand for, step by step\<close>

lemma of_type_in: "p \<in> of_type ty sg D vm \<Longrightarrow> p \<in> set (vm_segqueue vm) \<and> p \<notin> D \<and> sg_type (sg p) = ty"
  by (simp add: of_type_def)

lemma view_cong:
  assumes "of_type ty sg' D' vm' = of_type ty sg D vm" and "\<And>p. p \<in> of_type ty sg D vm \<Longrightarrow> sg' p = sg p"
  shows "ty = SEGMENT_ALLOCATED \<Longrightarrow> allocations sg' D' vm' = allocations sg D vm"
    and "ty = SEGMENT_FREE \<Longrightarrow> free_space sg' D' vm' = free_space sg D vm"
  using assms by (auto simp: allocations_def free_space_def)

lemma arena_nonempty:
  assumes "arena_ok sg D vm" and "p \<in> set (vm_segqueue vm)"
  shows "lo (sg p) < hi (sg p)" and "hi (sg p) < 2 ^ 64"
  using tiled_sound [OF arena_okD(4) [OF assms(1)], of "sg p"] assms(2) by auto

lemma arena_size_ge2:
  assumes "arena_ok sg D vm" and "p \<in> set (vm_segqueue vm)"
  shows "2 \<le> unat (sg_size (sg p))"
proof -
  have "unat (vm_quantum vm) dvd unat (sg_size (sg p))"
    using arena_okD(7) [OF assms] by (simp add: grained_def)
  moreover have "0 < unat (sg_size (sg p))"
    using arena_nonempty(1) [OF assms] by (simp add: lo_def hi_def)
  ultimately have "unat (vm_quantum vm) \<le> unat (sg_size (sg p))" by (rule dvd_imp_le)
  moreover have "2 \<le> unat (vm_quantum vm)"
    using arena_okD(9) [OF assms(1)] by (simp add: word_le_nat_alt)
  ultimately show ?thesis by simp
qed

lemma free_space_detach:
  assumes "arena_ok sg D vm" and "p \<in> of_type SEGMENT_FREE sg D vm"
  shows "free_space sg (insert p D) (seglist_unlink p vm) = free_space sg D vm - seg_range (sg p)"
proof -
  have "seg_range (sg r) \<inter> seg_range (sg p) = {}" if "r \<in> of_type SEGMENT_FREE sg D vm - {p}" for r
    using that assms(2) by (intro arena_disjoint [OF assms(1)]) (auto simp: of_type_def)
  then show ?thesis
    using assms(2) unfolding free_space_def of_type_detach by blast
qed

lemma free_space_detach_other:
  "sg_type (sg p) \<noteq> SEGMENT_FREE \<Longrightarrow> free_space sg (insert p D) (seglist_unlink p vm) = free_space sg D vm"
  unfolding free_space_def of_type_detach by (auto simp: of_type_def)

lemma allocations_detach_other:
  "sg_type (sg p) \<noteq> SEGMENT_ALLOCATED \<Longrightarrow> allocations sg (insert p D) (seglist_unlink p vm) = allocations sg D vm"
  unfolding allocations_def of_type_detach by (auto simp: of_type_def)

lemma allocation_unique:
  assumes "arena_ok sg D vm" and "p \<in> of_type SEGMENT_ALLOCATED sg D vm"
    and "r \<in> of_type SEGMENT_ALLOCATED sg D vm" and "sg_base (sg p) = sg_base (sg r)"
  shows "p = r"
proof (rule ccontr)
  assume "p \<noteq> r"
  then have "seg_range (sg p) \<inter> seg_range (sg r) = {}"
    using assms by (intro arena_disjoint [OF assms(1)]) (auto simp: of_type_def)
  moreover have "lo (sg p) \<in> seg_range (sg p)" "lo (sg p) \<in> seg_range (sg r)"
    using arena_nonempty(1) [OF assms(1), of p] arena_nonempty(1) [OF assms(1), of r] assms(2-4)
    by (auto simp: of_type_def seg_range_def lo_def)
  ultimately show False by blast
qed

lemma allocations_detach:
  assumes "arena_ok sg D vm" and "p \<in> of_type SEGMENT_ALLOCATED sg D vm"
  shows "allocations sg (insert p D) (seglist_unlink p vm) = allocations sg D vm - {(sg_base (sg p), sg_size (sg p))}"
  using assms allocation_unique [OF assms(1)] unfolding allocations_def of_type_detach by blast

lemma arena_views [simp]:
  "of_type ty sg D (vm\<lparr>vm_stat := u\<rparr>) = of_type ty sg D vm"
  "of_type ty sg D (vm\<lparr>vm_lock := b\<rparr>) = of_type ty sg D vm"
  "allocations sg D (vm\<lparr>vm_stat := u\<rparr>) = allocations sg D vm"
  "allocations sg D (vm\<lparr>vm_lock := b\<rparr>) = allocations sg D vm"
  "free_space sg D (vm\<lparr>vm_stat := u\<rparr>) = free_space sg D vm"
  "free_space sg D (vm\<lparr>vm_lock := b\<rparr>) = free_space sg D vm"
  "arena_ok sg D (vm\<lparr>vm_stat := u\<rparr>) = arena_ok sg D vm"
  "arena_ok sg D (vm\<lparr>vm_lock := b\<rparr>) = arena_ok sg D vm"
  by (simp_all add: of_type_def allocations_def free_space_def arena_ok_def)

section \<open>Allocation\<close>

definition same_config :: "Vmem \<Rightarrow> Vmem \<Rightarrow> bool" where
  "same_config vm vm' \<longleftrightarrow> vm' = vm\<lparr>vm_segqueue := vm_segqueue vm', vm_freelist := vm_freelist vm',
     vm_hashtable := vm_hashtable vm', vm_stat := vm_stat vm'\<rparr>"

definition same_rest :: "'w vst \<Rightarrow> 'w vst \<Rightarrow> bool" where
  "same_rest s t \<longleftrightarrow> vs_free_segs t = vs_free_segs s \<and> vs_nfreesegs t = vs_nfreesegs s \<and>
     vs_glock t = vs_glock s \<and> vs_irql t = vs_irql s \<and> vs_world t = vs_world s"

definition touches :: "arena \<Rightarrow> u64 set \<Rightarrow> 'w vst \<Rightarrow> 'w vst \<Rightarrow> bool" where
  "touches a P s t \<longleftrightarrow> same_config (vs_arena s a) (vs_arena t a) \<and>
     (\<forall>b. b \<noteq> a \<longrightarrow> vs_arena t b = vs_arena s b) \<and> (\<forall>p. p \<notin> P \<longrightarrow> vs_seg t p = vs_seg s p) \<and>
     vs_glock t = vs_glock s \<and> vs_irql t = vs_irql s \<and> vs_world t = vs_world s"

lemma same_config_refl [simp]: "same_config vm vm"
  by (simp add: same_config_def)

lemma same_config_trans: "same_config u v \<Longrightarrow> same_config v w \<Longrightarrow> same_config u w"
  by (cases u, cases v, cases w) (auto simp: same_config_def)

lemma same_configD:
  assumes "same_config vm vm'"
  shows "vm_quantum vm' = vm_quantum vm" "vm_alloc vm' = vm_alloc vm" "vm_free vm' = vm_free vm"
    "vm_source vm' = vm_source vm" "vm_lock vm' = vm_lock vm"
  using assms by (cases vm, cases vm', simp add: same_config_def)+

lemma touches_refl [simp]: "touches a P s s"
  by (simp add: touches_def)

lemma touches_trans: "touches a P s t \<Longrightarrow> touches a P t u \<Longrightarrow> touches a P s u"
  by (auto simp: touches_def intro: same_config_trans)

lemma touches_mono: "touches a P s t \<Longrightarrow> P \<subseteq> R \<Longrightarrow> touches a R s t"
  by (auto simp: touches_def)

lemma touches_quiet: "touches a P s t \<Longrightarrow> quiet t = quiet s"
  by (simp add: touches_def quiet_def)

lemma arena_first_span:
  "arena_ok sg D vm \<Longrightarrow> vm_segqueue vm = xs @ p # ys \<Longrightarrow> sg_type (sg p) \<noteq> SEGMENT_SPAN \<Longrightarrow> xs \<noteq> []"
  using arena_okD(4) [of sg D vm] by (auto simp: tiled_def split: if_splits)

lemma free_space_attach:
  "p \<in> D \<Longrightarrow> p \<in> set (vm_segqueue vm) \<Longrightarrow> vm_segqueue vm' = vm_segqueue vm \<Longrightarrow>
   sg_type (sg p) = SEGMENT_FREE \<Longrightarrow> free_space sg (D - {p}) vm' = free_space sg D vm \<union> seg_range (sg p)"
  by (auto simp: free_space_def of_type_attach)

lemma allocations_attach_free:
  "p \<in> D \<Longrightarrow> p \<in> set (vm_segqueue vm) \<Longrightarrow> vm_segqueue vm' = vm_segqueue vm \<Longrightarrow>
   sg_type (sg p) = SEGMENT_FREE \<Longrightarrow> allocations sg (D - {p}) vm' = allocations sg D vm"
  by (simp add: allocations_def of_type_attach)

lemma free_space_attach_allocated:
  "p \<in> D \<Longrightarrow> p \<in> set (vm_segqueue vm) \<Longrightarrow> vm_segqueue vm' = vm_segqueue vm \<Longrightarrow>
   sg_type (sg p) = SEGMENT_ALLOCATED \<Longrightarrow> free_space sg (D - {p}) vm' = free_space sg D vm"
  by (simp add: free_space_def of_type_attach)

lemma allocations_attach:
  "p \<in> D \<Longrightarrow> p \<in> set (vm_segqueue vm) \<Longrightarrow> vm_segqueue vm' = vm_segqueue vm \<Longrightarrow>
   sg_type (sg p) = SEGMENT_ALLOCATED \<Longrightarrow>
   allocations sg (D - {p}) vm' = insert (sg_base (sg p), sg_size (sg p)) (allocations sg D vm)"
  by (simp add: allocations_def of_type_attach)

text \<open>Cutting a segment at an address inside it, as the code computes the two parts.\<close>

lemma cut_words:
  fixes st sz :: u64
  assumes g: "sg_type g \<noteq> SEGMENT_SPAN" "hi g < 2 ^ 64" and st: "lo g < unat st" "unat st < hi g"
  shows "unat (st - sg_base g) = unat st - lo g"
    and "unat (sg_size g - (st - sg_base g)) = hi g - unat st"
proof -
  show u: "unat (st - sg_base g) = unat st - lo g"
    using st by (simp add: unat_sub word_le_nat_alt lo_def)
  then have "st - sg_base g \<le> sg_size g"
    using st by (simp add: word_le_nat_alt lo_def hi_def)
  then show "unat (sg_size g - (st - sg_base g)) = hi g - unat st"
    using st u by (simp add: unat_sub lo_def hi_def)
qed

lemma arena_split_before:
  assumes ok: "arena_ok sg {p} vm" and q: "vm_segqueue vm = xs @ p # ys"
    and n: "n \<notin> set (vm_segqueue vm)"
    and st: "lo (sg p) < unat st" "unat st < hi (sg p)" "unat (vm_quantum vm) dvd unat st"
    and ty: "sg_type (sg p) = SEGMENT_FREE"
    and left: "xs \<noteq> [] \<Longrightarrow> last xs \<notin> of_type SEGMENT_FREE sg {p} vm"
  defines "g1 \<equiv> (sg n)\<lparr>sg_type := SEGMENT_FREE, sg_base := sg_base (sg p), sg_size := st - sg_base (sg p)\<rparr>"
    and "g2 \<equiv> (sg p)\<lparr>sg_base := st, sg_size := sg_size (sg p) - (st - sg_base (sg p))\<rparr>"
  defines "sg' \<equiv> sg(n := g1, p := g2)"
  defines "vm' \<equiv> vm\<lparr>vm_segqueue := xs @ n # p # ys,
                     vm_freelist := LIST_PUSH (freelist_key sg' n) n (vm_freelist vm)\<rparr>"
  shows "arena_ok sg' {p} vm'"
    and "free_space sg' {p} vm' = free_space sg {p} vm \<union> {lo (sg p)..<unat st}"
    and "allocations sg' {p} vm' = allocations sg {p} vm"
    and "of_type SEGMENT_FREE sg' {p} vm' = insert n (of_type SEGMENT_FREE sg {p} vm)"
    and "hi g2 = hi (sg p)"
proof -
  have p: "p \<in> set (vm_segqueue vm)" and np: "n \<noteq> p" using q n by auto
  note hp = arena_nonempty [OF ok p]
  have w: "unat (st - sg_base (sg p)) = unat st - lo (sg p)"
    "unat (sg_size (sg p) - (st - sg_base (sg p))) = hi (sg p) - unat st"
    using cut_words [of "sg p" st] hp st ty by auto
  have b: "lo g1 = lo (sg p)" "hi g1 = unat st" "lo g2 = unat st" "hi g2 = hi (sg p)"
    using w st by (auto simp: g1_def g2_def lo_def hi_def)
  then show "hi g2 = hi (sg p)" by simp
  have cut: "cut_at (sg p) g1 g2"
    using b st ty by (auto simp: cut_at_def g1_def g2_def)
  have gp: "grained (vm_quantum vm) (sg p)" using ok p by (rule arena_okD)
  have "unat (vm_quantum vm) dvd hi (sg p)" using gp by (simp add: grained_def hi_def)
  then have gr: "grained (vm_quantum vm) g1" "grained (vm_quantum vm) g2"
    using gp st w by (auto simp: grained_def g1_def g2_def lo_def dvd_diff_nat)
  let ?vm1 = "vm\<lparr>vm_segqueue := xs @ n # p # ys\<rparr>"
  have c: "arena_ok sg' {n, p} ?vm1"
    and t: "of_type ty sg' {n, p} ?vm1 = of_type ty sg {p} vm" for ty
    using arena_cut [OF ok q _ n cut gr] by (auto simp: sg'_def)
  have old: "sg' r = sg r" if "r \<in> of_type ty sg {p} vm" for r ty
    using that n by (auto simp: of_type_def sg'_def)
  have tn: "sg_type (sg' n) = SEGMENT_FREE" "seg_range (sg' n) = {lo (sg p)..<unat st}"
    using np b by (auto simp: sg'_def g1_def seg_range_def)
  have vm': "vm' = ?vm1\<lparr>vm_freelist := LIST_PUSH (freelist_key sg' n) n (vm_freelist ?vm1)\<rparr>"
    by (simp add: vm'_def)
  have np1: "{n, p} - {n} = {p}" using np by auto
  have "arena_ok sg' ({n, p} - {n}) vm'"
    unfolding vm' using left t [of SEGMENT_FREE]
    by (intro arena_attach_free [OF c _ tn(1), of xs "p # ys"]) (auto simp: of_type_def)
  then show "arena_ok sg' {p} vm'" by (simp only: np1)
  have "free_space sg' ({n, p} - {n}) vm' = free_space sg' {n, p} ?vm1 \<union> seg_range (sg' n)"
    using tn by (intro free_space_attach) (auto simp: vm'_def)
  also have "free_space sg' {n, p} ?vm1 = free_space sg {p} vm"
    using view_cong(2) [OF t [of SEGMENT_FREE] old [of _ SEGMENT_FREE]] by simp
  finally show "free_space sg' {p} vm' = free_space sg {p} vm \<union> {lo (sg p)..<unat st}"
    by (simp only: np1 tn)
  have "allocations sg' ({n, p} - {n}) vm' = allocations sg' {n, p} ?vm1"
    using tn by (intro allocations_attach_free) (auto simp: vm'_def)
  also have "\<dots> = allocations sg {p} vm"
    using view_cong(1) [OF t [of SEGMENT_ALLOCATED] old [of _ SEGMENT_ALLOCATED]] by simp
  finally show "allocations sg' {p} vm' = allocations sg {p} vm" by (simp only: np1)
  have "of_type SEGMENT_FREE sg' ({n, p} - {n}) vm' = insert n (of_type SEGMENT_FREE sg' {n, p} ?vm1)"
    using of_type_attach [of n "{n, p}" ?vm1 vm'] tn by (simp add: vm'_def)
  then show "of_type SEGMENT_FREE sg' {p} vm' = insert n (of_type SEGMENT_FREE sg {p} vm)"
    by (simp only: np1 t)
qed

lemma arena_split_after:
  assumes ok: "arena_ok sg {p} vm" and q: "vm_segqueue vm = xs @ p # ys"
    and n: "n \<notin> set (vm_segqueue vm)"
    and sz: "0 < unat sz" "unat sz < unat (sg_size (sg p))" "unat (vm_quantum vm) dvd unat sz"
    and ty: "sg_type (sg p) = SEGMENT_FREE"
    and right: "ys \<noteq> [] \<Longrightarrow> hd ys \<notin> of_type SEGMENT_FREE sg {p} vm"
  defines "g1 \<equiv> (sg n)\<lparr>sg_type := SEGMENT_ALLOCATED, sg_base := sg_base (sg p), sg_size := sz\<rparr>"
    and "g2 \<equiv> (sg p)\<lparr>sg_base := sg_base (sg p) + sz, sg_size := sg_size (sg p) - sz\<rparr>"
  defines "sg' \<equiv> sg(n := g1, p := g2)"
  defines "vm' \<equiv> vm\<lparr>vm_segqueue := xs @ n # p # ys,
                     vm_freelist := LIST_PUSH (freelist_key sg' p) p (vm_freelist vm),
                     vm_hashtable := LIST_PUSH (hash_key sg' n) n (vm_hashtable vm)\<rparr>"
  shows "arena_ok sg' {} vm'"
    and "free_space sg' {} vm' = free_space sg {p} vm \<union> {lo (sg p) + unat sz..<hi (sg p)}"
    and "allocations sg' {} vm' = insert (sg_base (sg p), sz) (allocations sg {p} vm)"
proof -
  have p: "p \<in> set (vm_segqueue vm)" and np: "n \<noteq> p" using q n by auto
  note hp = arena_nonempty [OF ok p]
  have w: "unat (sg_base (sg p) + sz) = lo (sg p) + unat sz"
    using sz hp(2) by (simp add: unat_add_lem [THEN iffD1] lo_def hi_def)
  have w2: "unat (sg_size (sg p) - sz) = unat (sg_size (sg p)) - unat sz"
    using sz by (simp add: unat_sub word_le_nat_alt)
  have b: "lo g1 = lo (sg p)" "hi g1 = lo (sg p) + unat sz" "lo g2 = lo (sg p) + unat sz" "hi g2 = hi (sg p)"
    using w w2 sz by (auto simp: g1_def g2_def lo_def hi_def)
  have cut: "cut_at (sg p) g1 g2"
    using b sz ty by (auto simp: cut_at_def g1_def g2_def hi_def lo_def)
  have gp: "grained (vm_quantum vm) (sg p)" using ok p by (rule arena_okD)
  then have gr: "grained (vm_quantum vm) g1" "grained (vm_quantum vm) g2"
    using sz w w2 by (auto simp: grained_def g1_def g2_def lo_def dvd_diff_nat)
  let ?vm1 = "vm\<lparr>vm_segqueue := xs @ n # p # ys\<rparr>"
  let ?vm2 = "?vm1\<lparr>vm_freelist := LIST_PUSH (freelist_key sg' p) p (vm_freelist ?vm1)\<rparr>"
  have c: "arena_ok sg' {n, p} ?vm1"
    and t: "of_type ty sg' {n, p} ?vm1 = of_type ty sg {p} vm" for ty
    using arena_cut [OF ok q _ n cut gr] by (auto simp: sg'_def)
  have old: "sg' r = sg r" if "r \<in> of_type ty sg {p} vm" for r ty
    using that n by (auto simp: of_type_def sg'_def)
  have tp: "sg_type (sg' p) = SEGMENT_FREE" "seg_range (sg' p) = {lo (sg p) + unat sz..<hi (sg p)}"
    and tn: "sg_type (sg' n) = SEGMENT_ALLOCATED" "sg_base (sg' n) = sg_base (sg p)" "sg_size (sg' n) = sz"
    using np b ty by (auto simp: sg'_def g2_def g1_def seg_range_def)
  have D: "{n, p} - {p} = {n}" "{n} - {n} = {}" using np by auto
  have "arena_ok sg' ({n, p} - {p}) ?vm2"
    using right t [of SEGMENT_FREE]
    by (intro arena_attach_free [OF c _ tp(1), of "xs @ [n]" ys]) (auto simp: of_type_def)
  then have "arena_ok sg' ({n} - {n}) (?vm2\<lparr>vm_hashtable := LIST_PUSH (hash_key sg' n) n (vm_hashtable ?vm2)\<rparr>)"
    unfolding D(1) using tn(1) by (intro arena_attach_allocated) auto
  then show "arena_ok sg' {} vm'" by (simp add: D vm'_def)
  have "free_space sg' ({n} - {n}) vm' = free_space sg' {n} ?vm2"
    using tn by (intro free_space_attach_allocated) (auto simp: vm'_def)
  also have "\<dots> = free_space sg' {n, p} ?vm1 \<union> seg_range (sg' p)"
    using tp free_space_attach [of p "{n, p}" ?vm1 ?vm2 sg'] by (simp add: D)
  also have "free_space sg' {n, p} ?vm1 = free_space sg {p} vm"
    using view_cong(2) [OF t [of SEGMENT_FREE] old [of _ SEGMENT_FREE]] by simp
  finally show "free_space sg' {} vm' = free_space sg {p} vm \<union> {lo (sg p) + unat sz..<hi (sg p)}"
    by (simp only: D tp)
  have "allocations sg' ({n} - {n}) vm' = insert (sg_base (sg p), sz) (allocations sg' {n} ?vm2)"
    using tn allocations_attach [of n "{n}" ?vm2 vm' sg'] by (simp add: vm'_def)
  also have "allocations sg' {n} ?vm2 = allocations sg' {n, p} ?vm1"
    using tp allocations_attach_free [of p "{n, p}" ?vm1 ?vm2 sg'] by (simp add: D)
  also have "\<dots> = allocations sg {p} vm"
    using view_cong(1) [OF t [of SEGMENT_ALLOCATED] old [of _ SEGMENT_ALLOCATED]] by simp
  finally show "allocations sg' {} vm' = insert (sg_base (sg p), sz) (allocations sg {p} vm)"
    by (simp only: D)
qed

lemma arena_take:
  assumes ok: "arena_ok sg {p} vm"
  defines "sg' \<equiv> sg(p := (sg p)\<lparr>sg_type := SEGMENT_ALLOCATED\<rparr>)"
  defines "vm' \<equiv> vm\<lparr>vm_hashtable := LIST_PUSH (hash_key sg' p) p (vm_hashtable vm)\<rparr>"
  shows "arena_ok sg' {} vm'" and "free_space sg' {} vm' = free_space sg {p} vm"
    and "allocations sg' {} vm' = insert (sg_base (sg p), sg_size (sg p)) (allocations sg {p} vm)"
proof -
  have p: "p \<in> set (vm_segqueue vm)" using arena_okD(2) [OF ok] by simp
  have r: "arena_ok sg' {p} vm" and t: "of_type ty sg' {p} vm = of_type ty sg {p} vm" for ty
    using arena_retype [OF ok, of p SEGMENT_ALLOCATED] by (auto simp: sg'_def)
  have old: "sg' r = sg r" if "r \<in> of_type ty sg {p} vm" for r ty
    using that by (auto simp: of_type_def sg'_def)
  have tp: "sg_type (sg' p) = SEGMENT_ALLOCATED" "sg_base (sg' p) = sg_base (sg p)"
    "sg_size (sg' p) = sg_size (sg p)" by (simp_all add: sg'_def)
  show "arena_ok sg' {} vm'"
    using arena_attach_allocated [OF r _ tp(1)] by (simp add: vm'_def)
  show "free_space sg' {} vm' = free_space sg {p} vm"
    using free_space_attach_allocated [of p "{p}" vm vm' sg'] tp p
      view_cong(2) [OF t [of SEGMENT_FREE] old [of _ SEGMENT_FREE]] by (simp add: vm'_def)
  show "allocations sg' {} vm' = insert (sg_base (sg p), sg_size (sg p)) (allocations sg {p} vm)"
    using allocations_attach [of p "{p}" vm vm' sg'] tp p
      view_cong(1) [OF t [of SEGMENT_ALLOCATED] old [of _ SEGMENT_ALLOCATED]]
    by (simp add: vm'_def)
qed

section \<open>The code after \<open>found\<close>\<close>

definition split_before_post ::
    "arena \<Rightarrow> u64 \<Rightarrow> u64 \<Rightarrow> u64 list \<Rightarrow> u64 list \<Rightarrow> u64 \<Rightarrow> 'w vst \<Rightarrow> u64 option \<Rightarrow> 'w vst \<Rightarrow> bool" where
  "split_before_post a p n xs ys st s r t \<longleftrightarrow>
     arena_ok (vs_seg t) {p} (vs_arena t a) \<and>
     vm_segqueue (vs_arena t a) = xs @ (if r = None then [n] else []) @ p # ys \<and> (r = None \<or> r = Some n) \<and>
     sg_type (vs_seg t p) = SEGMENT_FREE \<and> sg_base (vs_seg t p) = st \<and> hi (vs_seg t p) = hi (vs_seg s p) \<and>
     allocations (vs_seg t) {p} (vs_arena t a) = allocations (vs_seg s) {p} (vs_arena s a) \<and>
     free_space (vs_seg t) {p} (vs_arena t a) =
       free_space (vs_seg s) {p} (vs_arena s a) \<union> {lo (vs_seg s p)..<unat st} \<and>
     of_type SEGMENT_FREE (vs_seg t) {p} (vs_arena t a) \<subseteq>
       insert n (of_type SEGMENT_FREE (vs_seg s) {p} (vs_arena s a)) \<and>
     vs_free_segs t = vs_free_segs s \<and> vs_nfreesegs t = vs_nfreesegs s \<and>
     vm_stat (vs_arena t a) = vm_stat (vs_arena s a) \<and> touches a {p, n} s t"

lemma split_before_ok:
  assumes ok: "arena_ok (vs_seg s) {p} (vs_arena s a)" and q: "vm_segqueue (vs_arena s a) = xs @ p # ys"
    and n: "n \<notin> set (vm_segqueue (vs_arena s a))"
    and st: "lo (vs_seg s p) \<le> unat st" "unat st < hi (vs_seg s p)"
      "unat (vm_quantum (vs_arena s a)) dvd unat st"
    and ty: "sg_type (vs_seg s p) = SEGMENT_FREE"
    and left: "xs \<noteq> [] \<Longrightarrow> last xs \<notin> of_type SEGMENT_FREE (vs_seg s) {p} (vs_arena s a)"
  shows "runs_to (xalloc_split_before a p st n) s (split_before_post a p n xs ys st s)"
proof (cases "sg_base (vs_seg s p) = st")
  case True
  then show ?thesis
    using ok q ty by (auto simp: xalloc_split_before_def wp split_before_post_def lo_def)
next
  case False
  then have lt: "lo (vs_seg s p) < unat st"
    using st(1) by (metis lo_def le_neq_implies_less word_unat_eq_iff)
  have np: "n \<noteq> p" and d: "distinct (xs @ p # ys)" using n q arena_okD(1) [OF ok] by auto
  have xs: "xs \<noteq> []" using arena_first_span [OF ok q] ty by simp
  have pr: "list_prev p (xs @ p # ys) = Some (last xs)"
    "insert_after (last xs) n (xs @ p # ys) = xs @ n # p # ys"
    using xs d by (simp_all add: list_prev_last insert_after_last)
  note sb = arena_split_before [OF ok q n lt st(2,3) ty left]
  have "n \<in> set (xs @ n # p # ys)" by simp
  have sz: "2 \<le> unat (st - sg_base (vs_seg s p))"
    using arena_size_ge2 [OF sb(1), of n] np by simp
  let ?g1 = "(vs_seg s n)\<lparr>sg_type := SEGMENT_FREE, sg_base := sg_base (vs_seg s p),
               sg_size := st - sg_base (vs_seg s p)\<rparr>"
  let ?g2 = "(vs_seg s p)\<lparr>sg_base := st, sg_size := sg_size (vs_seg s p) - (st - sg_base (vs_seg s p))\<rparr>"
  let ?sg = "(vs_seg s)(n := ?g1, p := ?g2)"
  let ?vm = "(vs_arena s a)\<lparr>vm_segqueue := xs @ n # p # ys,
               vm_freelist := LIST_PUSH (freelist_key ?sg n) n (vm_freelist (vs_arena s a))\<rparr>"
  have "runs_to (xalloc_split_before a p st n) s
          (\<lambda>r t. r = None \<and> vs_seg t = ?sg \<and> vs_arena t = (vs_arena s)(a := ?vm) \<and> same_rest s t)"
    using False np sz pr q
    by (simp add: xalloc_split_before_def wp runs_to_add_to_freelist runs_to_insert_segment same_rest_def
        vm_upd_order)
  then show ?thesis
    by (rule runs_to_mono)
       (use np sb ty in \<open>simp add: split_before_post_def touches_def same_config_def same_rest_def\<close>)
qed

definition pool_excess :: "'w vst \<Rightarrow> int" where
  "pool_excess s = vs_nfreesegs s - int (length (vs_free_segs s))"

definition segments :: "arena \<Rightarrow> 'w vst \<Rightarrow> u64 multiset" where
  "segments a s = mset (vs_free_segs s) + mset (vm_segqueue (vs_arena s a))"

definition split_after_post ::
    "arena \<Rightarrow> u64 \<Rightarrow> u64 \<Rightarrow> u64 \<Rightarrow> 'w vst \<Rightarrow> u64 \<Rightarrow> 'w vst \<Rightarrow> bool" where
  "split_after_post a p n sz s r t \<longleftrightarrow>
     arena_ok (vs_seg t) {} (vs_arena t a) \<and> sg_type (vs_seg t r) = SEGMENT_ALLOCATED \<and>
     sg_base (vs_seg t r) = sg_base (vs_seg s p) \<and> sg_size (vs_seg t r) = sz \<and>
     allocations (vs_seg t) {} (vs_arena t a) =
       insert (sg_base (vs_seg s p), sz) (allocations (vs_seg s) {p} (vs_arena s a)) \<and>
     free_space (vs_seg t) {} (vs_arena t a) =
       free_space (vs_seg s) {p} (vs_arena s a) \<union> {lo (vs_seg s p) + unat sz..<hi (vs_seg s p)} \<and>
     segments a t = add_mset n (segments a s) \<and> pool_excess t = pool_excess s \<and>
     vm_stat (vs_arena t a) = vm_stat (vs_arena s a) \<and> touches a {p, n} s t"

lemma leftover_quantum:
  fixes a b q :: u64
  assumes "unat q dvd unat a" "unat q dvd unat b" "unat b \<le> unat a" "a \<noteq> b" "q \<noteq> 0"
  shows "q - 1 < a - b"
proof -
  have "unat b < unat a" using assms(3,4) by (metis le_neq_implies_less word_unat_eq_iff)
  then have "unat q \<le> unat a - unat b"
    using assms(1,2) by (intro dvd_imp_le dvd_diff_nat) auto
  moreover have "unat (a - b) = unat a - unat b" using assms(3) by (simp add: unat_sub word_le_nat_alt)
  moreover have "unat (q - 1) = unat q - 1" "0 < unat q" using assms(5) by (simp_all add: unat_minus_one unat_gt_0)
  ultimately show ?thesis by (simp add: word_less_nat_alt)
qed

lemma split_after_ok:
  assumes ok: "arena_ok (vs_seg s) {p} (vs_arena s a)" and q: "vm_segqueue (vs_arena s a) = xs @ p # ys"
    and n: "n \<notin> set (vm_segqueue (vs_arena s a))" and quiet: "quiet s"
    and sz: "0 < unat sz" "unat sz \<le> unat (sg_size (vs_seg s p))"
      "unat (vm_quantum (vs_arena s a)) dvd unat sz"
    and ty: "sg_type (vs_seg s p) = SEGMENT_FREE"
    and right: "ys \<noteq> [] \<Longrightarrow> hd ys \<notin> of_type SEGMENT_FREE (vs_seg s) {p} (vs_arena s a)"
  shows "runs_to (xalloc_split_after a p sz n) s (split_after_post a p n sz s)"
proof (cases "sg_size (vs_seg s p) = sz")
  case True
  let ?sg = "(vs_seg s)(p := (vs_seg s p)\<lparr>sg_type := SEGMENT_ALLOCATED\<rparr>)"
  let ?vm = "(vs_arena s a)\<lparr>vm_hashtable := LIST_PUSH (hash_key ?sg p) p (vm_hashtable (vs_arena s a))\<rparr>"
  note tk = arena_take [OF ok]
  have "runs_to (xalloc_split_after a p sz n) s
          (\<lambda>r t. r = p \<and> vs_seg t = ?sg \<and> vs_arena t = (vs_arena s)(a := ?vm) \<and>
                 same_rest (s\<lparr>vs_free_segs := n # vs_free_segs s, vs_nfreesegs := vs_nfreesegs s + 1\<rparr>) t)"
    using True quiet
    by (simp add: xalloc_split_after_def wp runs_to_hashtab_insert runs_to_seg_free same_rest_def quiet_def)
  then show ?thesis
    by (rule runs_to_mono)
       (use tk True in \<open>simp add: split_after_post_def touches_def same_config_def same_rest_def
          segments_def pool_excess_def lo_def hi_def\<close>)
next
  case False
  have np: "n \<noteq> p" and d: "distinct (xs @ p # ys)" using n q arena_okD(1) [OF ok] by auto
  have xs: "xs \<noteq> []" using arena_first_span [OF ok q] ty by simp
  have pr: "list_prev p (xs @ p # ys) = Some (last xs)"
    "insert_after (last xs) n (xs @ p # ys) = xs @ n # p # ys"
    using xs d by (simp_all add: list_prev_last insert_after_last)
  have lt: "unat sz < unat (sg_size (vs_seg s p))"
    using False sz(2) by (metis le_neq_implies_less word_unat_eq_iff)
  have gp: "grained (vm_quantum (vs_arena s a)) (vs_seg s p)"
    using arena_okD(7) [OF ok, of p] q by simp
  have big: "sg_size (vs_seg s p) - sz > vm_quantum (vs_arena s a) - 1"
    using gp sz False arena_okD(9) [OF ok] by (intro leftover_quantum) (auto simp: grained_def)
  note sa = arena_split_after [OF ok q n sz(1) lt sz(3) ty right]
  have s2: "2 \<le> unat (sg_size (vs_seg s p) - sz)"
    using arena_size_ge2 [OF sa(1), of p] np by simp
  let ?g1 = "(vs_seg s n)\<lparr>sg_type := SEGMENT_ALLOCATED, sg_base := sg_base (vs_seg s p), sg_size := sz\<rparr>"
  let ?g2 = "(vs_seg s p)\<lparr>sg_base := sg_base (vs_seg s p) + sz, sg_size := sg_size (vs_seg s p) - sz\<rparr>"
  let ?sg = "(vs_seg s)(n := ?g1, p := ?g2)"
  let ?vm = "(vs_arena s a)\<lparr>vm_segqueue := xs @ n # p # ys,
               vm_freelist := LIST_PUSH (freelist_key ?sg p) p (vm_freelist (vs_arena s a)),
               vm_hashtable := LIST_PUSH (hash_key ?sg n) n (vm_hashtable (vs_arena s a))\<rparr>"
  have "runs_to (xalloc_split_after a p sz n) s
          (\<lambda>r t. r = n \<and> vs_seg t = ?sg \<and> vs_arena t = (vs_arena s)(a := ?vm) \<and> same_rest s t)"
    using False np s2 pr q big
    by (simp add: xalloc_split_after_def wp runs_to_add_to_freelist runs_to_insert_segment
        runs_to_hashtab_insert same_rest_def vm_upd_order)
  then show ?thesis
    by (rule runs_to_mono)
       (use np sa q in \<open>simp add: split_after_post_def touches_def same_config_def same_rest_def
          segments_def pool_excess_def\<close>)
qed

lemma coalesced_neighbours:
  assumes "coalesced F (xs @ p # ys)" and "p \<in> F"
  shows "xs \<noteq> [] \<Longrightarrow> last xs \<notin> F" and "ys \<noteq> [] \<Longrightarrow> hd ys \<notin> F"
  using assms by (auto simp: coalesced_def successively_append_iff successively_Cons)

definition found_post :: "arena \<Rightarrow> u64 \<Rightarrow> u64 \<Rightarrow> u64 \<Rightarrow> u64 \<Rightarrow> u64 \<Rightarrow> 'w vst \<Rightarrow> u64 \<Rightarrow> 'w vst \<Rightarrow> bool" where
  "found_post a p n n2 st sz s r t \<longleftrightarrow>
     r = st \<and> arena_ok (vs_seg t) {} (vs_arena t a) \<and>
     allocations (vs_seg t) {} (vs_arena t a) = insert (st, sz) (allocations (vs_seg s) {} (vs_arena s a)) \<and>
     free_space (vs_seg t) {} (vs_arena t a) =
       free_space (vs_seg s) {} (vs_arena s a) - {unat st..<unat st + unat sz} \<and>
     segments a t = {#n, n2#} + segments a s \<and> pool_excess t = pool_excess s \<and>
     vm_stat (vs_arena t a) = (vm_stat (vs_arena s a))\<lparr>st_free := st_free (vm_stat (vs_arena s a)) - sz,
       st_in_use := st_in_use (vm_stat (vs_arena s a)) + sz\<rparr> \<and>
     touches a {p, n, n2} s t"

lemma found_post_combine:
  fixes s :: "'w vst" and a p
  defines "s1 \<equiv> arena_upd a (seglist_unlink p) s"
  assumes sb: "split_before_post a p n2 xs ys st s1 r t" and sa: "split_after_post a p n sz t r' t'"
    and fs1: "free_space (vs_seg s1) {p} (vs_arena s1 a) =
      free_space (vs_seg s) {} (vs_arena s a) - seg_range (vs_seg s p)"
    and al1: "allocations (vs_seg s1) {p} (vs_arena s1 a) = allocations (vs_seg s) {} (vs_arena s a)"
    and range: "seg_range (vs_seg s p) \<subseteq> free_space (vs_seg s) {} (vs_arena s a)"
    and st: "lo (vs_seg s p) \<le> unat st" "unat st + unat sz \<le> hi (vs_seg s p)"
    and q: "vm_segqueue (vs_arena s a) = xs @ p # ys"
    and fin: "vs_seg t'' = vs_seg t'" "vs_arena t'' = (vs_arena t')(a := (vs_arena t' a)
         \<lparr>vm_stat := (vm_stat (vs_arena t' a))\<lparr>st_free := st_free (vm_stat (vs_arena t' a)) - sz,
            st_in_use := st_in_use (vm_stat (vs_arena t' a)) + sz\<rparr>\<rparr>)"
         "same_rest (t'\<lparr>vs_free_segs := (if r = None then [] else [n2]) @ vs_free_segs t',
            vs_nfreesegs := vs_nfreesegs t' + (if r = None then 0 else 1)\<rparr>) t''"
  shows "found_post a p n n2 st sz s st t''"
proof -
  note sb = sb [unfolded split_before_post_def] and sa = sa [unfolded split_after_post_def]
  have "arena_ok (vs_seg t'') {} (vs_arena t'' a)"
    using sa fin by simp
  moreover have "allocations (vs_seg t'') {} (vs_arena t'' a) = insert (st, sz) (allocations (vs_seg s) {} (vs_arena s a))"
    using sa sb al1 fin by simp
  moreover have "free_space (vs_seg t'') {} (vs_arena t'' a) =
       free_space (vs_seg s) {} (vs_arena s a) - {unat st..<unat st + unat sz}"
  proof -
    have "lo (vs_seg t p) = unat st" using sb by (simp add: lo_def)
    then have "free_space (vs_seg t'') {} (vs_arena t'' a) =
      (free_space (vs_seg s) {} (vs_arena s a) - seg_range (vs_seg s p)) \<union> {lo (vs_seg s1 p)..<unat st} \<union>
      {unat st + unat sz..<hi (vs_seg s1 p)}"
      using sa sb fs1 fin by simp
    then show ?thesis
      using range st by (auto simp: s1_def seg_range_def)
  qed
  moreover have "segments a t'' = {#n, n2#} + segments a s" "pool_excess t'' = pool_excess s"
    using fin sa sb q by (auto simp: segments_def pool_excess_def same_rest_def s1_def)
  moreover have "vm_stat (vs_arena t'' a) = (vm_stat (vs_arena s a))\<lparr>st_free := st_free (vm_stat (vs_arena s a)) - sz,
       st_in_use := st_in_use (vm_stat (vs_arena s a)) + sz\<rparr>"
    using fin sa sb by (simp add: s1_def)
  moreover have "touches a {p, n, n2} s t''"
  proof -
    have "touches a {p, n, n2} s s1" by (simp add: s1_def touches_def same_config_def seglist_unlink_def)
    moreover have "touches a {p, n, n2} s1 t" "touches a {p, n, n2} t t'"
      using sb sa by (auto elim: touches_mono)
    moreover have "touches a {p, n, n2} t' t''"
      using fin by (simp add: touches_def same_config_def same_rest_def)
    ultimately show ?thesis by (meson touches_trans)
  qed
  ultimately show ?thesis by (simp add: found_post_def)
qed

lemma xalloc_found_ok:
  assumes ok: "arena_ok (vs_seg s) {} (vs_arena s a)" and quiet: "quiet s"
    and p: "p \<in> of_type SEGMENT_FREE (vs_seg s) {} (vs_arena s a)"
    and st: "lo (vs_seg s p) \<le> unat st" "unat st + unat sz \<le> hi (vs_seg s p)"
      "unat (vm_quantum (vs_arena s a)) dvd unat st"
    and sz: "0 < unat sz" "unat (vm_quantum (vs_arena s a)) dvd unat sz"
    and n: "n \<notin> set (vm_segqueue (vs_arena s a))" "n2 \<notin> set (vm_segqueue (vs_arena s a))" "n \<noteq> n2"
  shows "runs_to (xalloc_found a p st sz n n2) s (found_post a p n n2 st sz s)"
proof -
  let ?s1 = "arena_upd a (seglist_unlink p) s"
  have pq: "p \<in> set (vm_segqueue (vs_arena s a))" and ty: "sg_type (vs_seg s p) = SEGMENT_FREE"
    using p by (auto simp: of_type_def)
  obtain xs ys where q: "vm_segqueue (vs_arena s a) = xs @ p # ys"
    using pq by (meson split_list)
  have nb: "xs \<noteq> [] \<Longrightarrow> last xs \<notin> of_type SEGMENT_FREE (vs_seg s) {} (vs_arena s a)"
    "ys \<noteq> [] \<Longrightarrow> hd ys \<notin> of_type SEGMENT_FREE (vs_seg s) {} (vs_arena s a)"
    using coalesced_neighbours [OF _ p, of xs ys] arena_okD(6) [OF ok] by (simp_all add: q)
  have ok1: "arena_ok (vs_seg ?s1) {p} (vs_arena ?s1 a)"
    using arena_detach [OF ok pq] ty by simp
  have F1: "of_type SEGMENT_FREE (vs_seg ?s1) {p} (vs_arena ?s1 a) \<subseteq> of_type SEGMENT_FREE (vs_seg s) {} (vs_arena s a)"
    using of_type_detach [of SEGMENT_FREE "vs_seg s" p "{}" "vs_arena s a"] by auto
  have fs1: "free_space (vs_seg ?s1) {p} (vs_arena ?s1 a) =
      free_space (vs_seg s) {} (vs_arena s a) - seg_range (vs_seg s p)"
    and al1: "allocations (vs_seg ?s1) {p} (vs_arena ?s1 a) = allocations (vs_seg s) {} (vs_arena s a)"
    using free_space_detach [OF ok p] allocations_detach_other [of "vs_seg s" p "{}"] ty by simp_all
  have range: "seg_range (vs_seg s p) \<subseteq> free_space (vs_seg s) {} (vs_arena s a)"
    using p by (auto simp: free_space_def)
  have fsz: "sz \<le> sg_size (vs_seg s p)"
    using st by (simp add: word_le_nat_alt lo_def hi_def)
  have sb: "runs_to (xalloc_split_before a p st n2) ?s1 (split_before_post a p n2 xs ys st ?s1)"
    using ok1 q n st sz ty nb F1 by (intro split_before_ok) auto
  have after: "runs_to (xalloc_split_after a p sz n) t (split_after_post a p n sz t)"
    if "split_before_post a p n2 xs ys st ?s1 r t" for r t
  proof (rule split_after_ok [where xs = "xs @ (if r = None then [n2] else [])" and ys = ys])
    note post = that [unfolded split_before_post_def]
    show "vm_segqueue (vs_arena t a) = (xs @ (if r = None then [n2] else [])) @ p # ys" using post by simp
    show "n \<notin> set (vm_segqueue (vs_arena t a))" using post n q by auto
    show "quiet t" using post quiet by (auto simp: touches_def quiet_def)
    have "vm_quantum (vs_arena t a) = vm_quantum (vs_arena s a)"
      using post same_configD(1) by (fastforce simp: touches_def)
    then show "unat (vm_quantum (vs_arena t a)) dvd unat sz" using sz by simp
    have "unat st + unat (sg_size (vs_seg t p)) = hi (vs_seg s p)" using post by (auto simp: hi_def)
    then show "unat sz \<le> unat (sg_size (vs_seg t p))" using st(2) by linarith
    show "ys \<noteq> [] \<Longrightarrow> hd ys \<notin> of_type SEGMENT_FREE (vs_seg t) {p} (vs_arena t a)"
      using post nb(2) F1 n(2) q hd_in_set by fastforce
  qed (use that sz in \<open>auto simp: split_before_post_def\<close>)
  show ?thesis
    unfolding xalloc_found_def
    using ty fsz
  proof (simp add: wp runs_to_seglist_remove, intro runs_to_mono [OF sb] conjI, goal_cases)
    case (1 r t)
    then show ?case by (simp add: split_before_post_def)
  next
    case (2 r t)
    then have b: "split_before_post a p n2 xs ys st ?s1 r t" by simp
    show ?case
    proof (rule runs_to_mono [OF after [OF b]], goal_cases)
      case (1 r' t')
      then have c: "split_after_post a p n sz t r' t'" by simp
      have r': "sg_base (vs_seg t' r') = st" "sg_size (vs_seg t' r') = sz"
        and same: "(vs_seg t')(r' := (vs_seg t' r')\<lparr>sg_type := SEGMENT_ALLOCATED\<rparr>) = vs_seg t'"
        using b c by (auto simp: split_before_post_def split_after_post_def)
      have quiet': "quiet t'" using b c quiet
        by (auto simp: split_before_post_def split_after_post_def touches_def quiet_def)
      note comb = found_post_combine [OF b c fs1 al1 range st(1,2) q]
      show ?case
      proof (cases r)
        case None
        with r' same show ?thesis by (simp add: wp comb same_rest_def)
      next
        case (Some x)
        then have "x = n2" using b by (simp add: split_before_post_def)
        with Some r' same quiet' show ?thesis by (simp add: wp runs_to_seg_free comb same_rest_def)
      qed
    qed
  qed
qed

end
