(* ===== verification/Vmem_Fit.thy ===== *)
theory Vmem_Fit
  imports Vmem_Ops
begin

text \<open>
  Finding room for a request: \<open>seg_fit\<close> returns the lowest address of a segment that meets the
  alignment, the phase and the bounds, and the search over the free lists finds a segment
  whenever one fits.
\<close>

section \<open>Fitting a request into a segment\<close>

lemma mod_add_u64:
  fixes x y :: u64
  assumes "k \<le> 64"
  shows "unat (x + y) mod 2 ^ k = (unat x + unat y) mod 2 ^ k"
proof -
  have "(2::nat) ^ k dvd 2 ^ 64" using assms by (rule le_imp_power_dvd)
  moreover have "unat (x + y) = (unat x + unat y) mod 2 ^ 64" by (simp add: unat_word_ariths)
  ultimately show ?thesis by (simp only: mod_mod_cancel)
qed

lemma take_bit_add_u64:
  fixes x y :: u64
  shows "take_bit k (x + take_bit k y) = take_bit k (x + y)"
proof (cases "k \<le> 64")
  case True
  then have "unat (take_bit k (x + take_bit k y)) = unat (take_bit k (x + y))"
    by (simp only: unat_take_bit_u64 mod_add_u64 mod_add_right_eq)
  then show ?thesis by (simp add: word_unat_eq_iff)
next
  case False
  then show ?thesis by (simp add: take_bit_word_eq_self)
qed

lemma take_bit_add_exp: "take_bit k (x + 2 ^ k) = take_bit k x" for x :: u64
proof -
  have "take_bit k ((2::u64) ^ k) = 0" by (rule bit_eqI) (auto simp: bit_simps)
  then show ?thesis using take_bit_add_u64 [of k x "2 ^ k"] by simp
qed

lemma VMEM_ALIGNUP_eq: "VMEM_ALIGNUP x (2 ^ k) = x + take_bit k (- x)"
proof -
  let ?y = "x + mask k"
  have "VMEM_ALIGNUP x (2 ^ k) = ?y AND NOT (mask k)"
    by (simp add: VMEM_ALIGNUP_def mask_eq_exp_minus_1 add_diff_eq)
  also have "\<dots> = ?y - take_bit k ?y" by (rule and_not_mask_u64)
  also have "\<dots> = x + (mask k - take_bit k ?y)" by simp
  also have "mask k - take_bit k ?y = take_bit k (NOT ?y)" by (simp add: take_bit_not_eq_mask_diff)
  also have "NOT ?y = - x - 2 ^ k"
    by (simp add: not_eq_complement mask_eq_exp_minus_1)
  also have "take_bit k (- x - 2 ^ k) = take_bit k (- x)"
    using take_bit_add_exp [of k "- x - 2 ^ k"] by simp
  finally show ?thesis .
qed

definition fits :: "VmemSegment \<Rightarrow> u64 \<Rightarrow> u64 \<Rightarrow> u64 \<Rightarrow> u64 \<Rightarrow> u64 \<Rightarrow> nat \<Rightarrow> bool" where
  "fits g sz align phase minaddr maxaddr st \<longleftrightarrow>
     lo g \<le> st \<and> unat minaddr \<le> st \<and> st + unat sz \<le> hi g \<and> st + unat sz \<le> unat maxaddr \<and>
     st mod unat align = unat phase mod unat align"

lemma unat_mod_take_bit: "unat x mod 2 ^ k = unat (take_bit k x)" for x :: u64
  by (simp add: unat_take_bit_u64)

text \<open>The address \<open>seg_fit\<close> rounds up to, as a natural number, when the sum does not wrap.\<close>

lemma seg_fit_start:
  fixes start phase :: u64
  assumes k: "k < 64" and room: "unat start + 2 ^ k \<le> 2 ^ 64"
  defines "st \<equiv> VMEM_ALIGNUP (start - phase) (2 ^ k) + phase"
  shows "unat start \<le> unat st" and "unat st mod 2 ^ k = unat phase mod 2 ^ k"
    and "unat start \<le> x \<Longrightarrow> x mod 2 ^ k = unat phase mod 2 ^ k \<Longrightarrow> unat st \<le> x"
proof -
  define d where "d = take_bit k (phase - start)"
  have st: "st = start + d" by (simp add: st_def VMEM_ALIGNUP_eq d_def)
  have dlt: "unat d < 2 ^ k" by (simp add: d_def unat_take_bit_u64)
  then have u: "unat st = unat start + unat d"
    using room unat_add_lem [of start d] by (simp add: st)
  then show "unat start \<le> unat st" by simp
  have "take_bit k st = take_bit k phase"
    using take_bit_add_u64 [of k start "phase - start"] by (simp add: st d_def)
  then show m: "unat st mod 2 ^ k = unat phase mod 2 ^ k"
    by (simp add: unat_mod_take_bit)
  show "unat st \<le> x" if "unat start \<le> x" "x mod 2 ^ k = unat phase mod 2 ^ k"
  proof (rule ccontr)
    assume "\<not> unat st \<le> x"
    then have "x < unat st" and "unat st - x < 2 ^ k" using that(1) u dlt by linarith+
    moreover have "2 ^ k dvd unat st - x"
      using m that(2) \<open>x < unat st\<close> by (subst mod_eq_dvd_iff_nat [symmetric]) simp_all
    ultimately show False by (auto dest: dvd_imp_le)
  qed
qed

lemma seg_fit_spec:
  assumes g: "hi g < 2 ^ 64" and sz: "0 < sz" "sz \<le> sg_size g"
    and k: "k < 64" and room: "max (lo g) (unat minaddr) + 2 ^ k \<le> 2 ^ 64"
  shows "runs_to (seg_fit g sz (2 ^ k) phase 0 minaddr maxaddr) s
    (\<lambda>r t. t = s \<and>
       (case r of
          Some st \<Rightarrow> fits g sz (2 ^ k) phase minaddr maxaddr (unat st) \<and>
            (\<forall>x. fits g sz (2 ^ k) phase minaddr maxaddr x \<longrightarrow> unat st \<le> x)
        | None \<Rightarrow> \<forall>x. \<not> fits g sz (2 ^ k) phase minaddr maxaddr x))"
proof -
  define start where "start = MAX_u64 (sg_base g) minaddr"
  define endp where "endp = MIN_u64 (sg_base g + sg_size g) maxaddr"
  have us: "unat start = max (lo g) (unat minaddr)"
    by (auto simp: start_def MAX_u64_def lo_def word_less_nat_alt)
  have ue: "unat endp = min (hi g) (unat maxaddr)"
    using g unat_add_lem [of "sg_base g" "sg_size g"]
    by (auto simp: endp_def MIN_u64_def hi_def word_less_nat_alt)
  define st where "st = VMEM_ALIGNUP (start - phase) (2 ^ k) + phase"
  have room': "unat start + 2 ^ k \<le> 2 ^ 64" using room us by simp
  note fit = seg_fit_start [OF k room', where phase = phase, folded st_def]
  have p2: "unat ((2::u64) ^ k) = 2 ^ k" using k by (rule unat_2p_u64)
  have "lo g \<le> unat start" using us by simp
  then have nb: "\<not> st < sg_base g" using fit(1) by (simp add: word_less_nat_alt lo_def)
  have F: "fits g sz (2 ^ k) phase minaddr maxaddr x \<longleftrightarrow>
      unat start \<le> x \<and> x + unat sz \<le> unat endp \<and> x mod 2 ^ k = unat phase mod 2 ^ k" for x
    unfolding fits_def us ue p2 by auto
  have none: "\<forall>x. \<not> fits g sz (2 ^ k) phase minaddr maxaddr x" if "start > endp"
    using that sz unfolding F by (auto simp: word_less_nat_alt)
  have main: "(st \<le> endp \<and> sz \<le> endp - st) \<longleftrightarrow> unat st + unat sz \<le> unat endp"
    by (auto simp: word_le_nat_alt unat_sub)
  have none': "\<forall>x. \<not> fits g sz (2 ^ k) phase minaddr maxaddr x" if "\<not> unat st + unat sz \<le> unat endp"
    using that fit(3) unfolding F by (meson add_le_mono1 le_trans)
  show ?thesis
    unfolding seg_fit_def start_def [symmetric] endp_def [symmetric]
    using sz none none' nb main fit F
    by (auto simp: wp Let_def st_def [symmetric])
qed

text \<open>
  Where the rounding wraps around, the address comes out below the segment. The check for that
  case adds the alignment once and lets an address outside the segment through.
\<close>

lemma seg_fit_wrapped:
  "seg_fit \<lparr>sg_type = SEGMENT_FREE, sg_imported = False, sg_base = 0xFFFFFFFFFFFF1000, sg_size = 0x3000\<rparr>
     0x1000 0x10000 0 0 0 VMEM_ADDR_MAX s = Inr (Some 0x10000, s)"
  by (simp add: seg_fit_def VMEM_ALIGNUP_def MAX_u64_def MIN_u64_def VMEM_ADDR_MAX_def km_defs Let_def)

section \<open>Searching the free lists\<close>

definition no_wrap :: "(u64 \<Rightarrow> VmemSegment) \<Rightarrow> Vmem \<Rightarrow> u64 \<Rightarrow> u64 \<Rightarrow> bool" where
  "no_wrap sg vm align minaddr \<longleftrightarrow>
     (\<forall>p \<in> of_type SEGMENT_FREE sg {} vm. max (lo (sg p)) (unat minaddr) + unat align \<le> 2 ^ 64)"

lemma bestfit_search_spec:
  assumes sz: "0 < sz" and k: "k < 64"
    and ps: "\<And>p. p \<in> set ps \<Longrightarrow> hi (vs_seg s p) < 2 ^ 64 \<and>
               max (lo (vs_seg s p)) (unat minaddr) + 2 ^ k \<le> 2 ^ 64"
  shows "runs_to (bestfit_search sz (2 ^ k) phase 0 minaddr maxaddr ps) s
    (\<lambda>r t. t = s \<and>
       (case r of
          Some (p, st) \<Rightarrow> p \<in> set ps \<and> fits (vs_seg s p) sz (2 ^ k) phase minaddr maxaddr (unat st)
        | None \<Rightarrow> \<forall>p \<in> set ps. sz \<le> sg_size (vs_seg s p) \<longrightarrow>
                    (\<forall>x. \<not> fits (vs_seg s p) sz (2 ^ k) phase minaddr maxaddr x)))"
  using ps
proof (induction ps)
  case Nil
  then show ?case by (simp add: wp)
next
  case (Cons p ps)
  have ih: "runs_to (bestfit_search sz (2 ^ k) phase 0 minaddr maxaddr ps) s
    (\<lambda>r t. t = s \<and>
       (case r of
          Some (p, st) \<Rightarrow> p \<in> set ps \<and> fits (vs_seg s p) sz (2 ^ k) phase minaddr maxaddr (unat st)
        | None \<Rightarrow> \<forall>p \<in> set ps. sz \<le> sg_size (vs_seg s p) \<longrightarrow>
                    (\<forall>x. \<not> fits (vs_seg s p) sz (2 ^ k) phase minaddr maxaddr x)))"
    using Cons.prems by (intro Cons.IH) auto
  show ?case
  proof (cases "sz \<le> sg_size (vs_seg s p)")
    case False
    then show ?thesis
      by (simp add: wp) (rule runs_to_mono [OF ih], auto split: option.splits)
  next
    case True
    have fit: "runs_to (seg_fit (vs_seg s p) sz (2 ^ k) phase 0 minaddr maxaddr) s
      (\<lambda>r t. t = s \<and>
       (case r of
          Some st \<Rightarrow> fits (vs_seg s p) sz (2 ^ k) phase minaddr maxaddr (unat st) \<and>
            (\<forall>x. fits (vs_seg s p) sz (2 ^ k) phase minaddr maxaddr x \<longrightarrow> unat st \<le> x)
        | None \<Rightarrow> \<forall>x. \<not> fits (vs_seg s p) sz (2 ^ k) phase minaddr maxaddr x))"
      using Cons.prems [of p] True sz k by (intro seg_fit_spec) auto
    show ?thesis
      using True
    proof (simp add: wp, intro runs_to_mono [OF fit], goal_cases)
      case (1 r t)
      then show ?case
        by (cases r) (auto simp: wp intro!: runs_to_mono [OF ih] split: option.splits)
    qed
  qed
qed

lemma GET_LIST_mono: "0 < x \<Longrightarrow> x \<le> y \<Longrightarrow> GET_LIST x \<le> GET_LIST y"
  using clzl_antimono [of x y] by (auto simp: GET_LIST_def word_gt_0 intro!: diff_le_mono2)

lemma in_concat_drop: "i < length ls \<Longrightarrow> n \<le> i \<Longrightarrow> x \<in> set (ls ! i) \<Longrightarrow> x \<in> set (concat (drop n ls))"
proof -
  assume a: "i < length ls" "n \<le> i" "x \<in> set (ls ! i)"
  then have "drop n ls ! (i - n) = ls ! i" "i - n < length (drop n ls)" by simp_all
  then have "ls ! i \<in> set (drop n ls)" by (metis nth_mem)
  with a(3) show ?thesis by auto
qed

text \<open>
  The lists searched for a request of size \<open>sz\<close> start at the list of that size; every free
  segment that is large enough is on one of them.
\<close>

lemma searched_segments:
  assumes ok: "arena_ok sg {} vm" and sz: "2 \<le> unat sz"
  shows "set (concat (drop (GET_LIST sz - 1) (vm_freelist vm))) \<subseteq> of_type SEGMENT_FREE sg {} vm"
    and "{p \<in> of_type SEGMENT_FREE sg {} vm. sz \<le> sg_size (sg p)} \<subseteq>
           set (concat (drop (GET_LIST sz - 1) (vm_freelist vm)))"
proof -
  note b = arena_okD(10) [OF ok]
  show "set (concat (drop (GET_LIST sz - 1) (vm_freelist vm))) \<subseteq> of_type SEGMENT_FREE sg {} vm"
  proof
    fix p assume "p \<in> set (concat (drop (GET_LIST sz - 1) (vm_freelist vm)))"
    then obtain l where "l \<in> set (vm_freelist vm)" "p \<in> set l" by (auto dest: in_set_dropD)
    then obtain i where "i < length (vm_freelist vm)" "p \<in> set (vm_freelist vm ! i)"
      by (metis in_set_conv_nth)
    then show "p \<in> of_type SEGMENT_FREE sg {} vm"
      using bucket_okD(2) [OF b, of i p] bucket_okD(3) [OF b] by simp
  qed
  show "{p \<in> of_type SEGMENT_FREE sg {} vm. sz \<le> sg_size (sg p)} \<subseteq>
           set (concat (drop (GET_LIST sz - 1) (vm_freelist vm)))"
  proof
    fix p assume "p \<in> {p \<in> of_type SEGMENT_FREE sg {} vm. sz \<le> sg_size (sg p)}"
    then have p: "p \<in> of_type SEGMENT_FREE sg {} vm" "sz \<le> sg_size (sg p)" by auto
    have "0 < sz" using sz by (auto simp: word_gt_0)
    then have "GET_LIST sz - 1 \<le> freelist_key sg p"
      using GET_LIST_mono [of sz "sg_size (sg p)"] p(2) by (simp add: freelist_key_def)
    then show "p \<in> set (concat (drop (GET_LIST sz - 1) (vm_freelist vm)))"
      using bucket_okD(1) [OF b p(1) freelist_key_less] bucket_okD(3) [OF b] freelist_key_less [of sg p]
      by (intro in_concat_drop [of "freelist_key sg p"]) simp_all
  qed
qed

section \<open>Refilling the pool of segments\<close>

lemma runs_to_seg_free_list:
  assumes "quiet s"
  shows "runs_to (kfor ps seg_free) s Q \<longleftrightarrow>
     Q () (s\<lparr>vs_free_segs := rev ps @ vs_free_segs s, vs_nfreesegs := vs_nfreesegs s + int (length ps)\<rparr>)"
  using assms
proof (induction ps arbitrary: s)
  case Nil
  then show ?case by (simp add: wp)
next
  case (Cons p ps)
  have "quiet (s\<lparr>vs_free_segs := p # vs_free_segs s, vs_nfreesegs := vs_nfreesegs s + 1\<rparr>)"
    using Cons.prems by (simp add: quiet_def)
  from Cons.IH [OF this] Cons.prems show ?case
    by (simp add: runs_to_kfor_Cons runs_to_seg_free ac_simps del: kfor.simps)
qed

lemma segblock_distinct: "distinct (segblock page)"
proof -
  have "inj_on (\<lambda>i. page + of_nat i * sizeof_VmemSegment) {0..<64}"
  proof (rule inj_onI)
    fix i j :: nat assume ij: "i \<in> {0..<64}" "j \<in> {0..<64}"
      and "page + of_nat i * sizeof_VmemSegment = page + of_nat j * sizeof_VmemSegment"
    then have "(of_nat (i * 56) :: u64) = of_nat (j * 56)" by (simp add: sizeof_VmemSegment_def)
    then have "unat (of_nat (i * 56) :: u64) = unat (of_nat (j * 56) :: u64)" by simp
    moreover have "unat (of_nat (n * 56) :: u64) = n * 56" if "n < 64" for n
      using that unat_of_nat [where 'a = 64, of "n * 56"] by simp
    ultimately show "i = j" using ij by simp
  qed
  then show ?thesis by (simp add: segblock_def distinct_map)
qed

text \<open>
  The pool holds enough segments for one operation: it is large, or the caller is not allowed
  to refill it but two segments are left, or the page allocator returns a page that overlaps
  no segment in use.
\<close>

definition refill_ok :: "'w vmem_env \<Rightarrow> arena \<Rightarrow> u32 \<Rightarrow> 'w vst \<Rightarrow> bool" where
  "refill_ok env a vmflag s \<longleftrightarrow>
     (if vmflag AND VM_BOOTSTRAP \<noteq> 0 then 2 \<le> length (vs_free_segs s)
      else 128 \<le> vs_nfreesegs s \<or>
        (\<exists>page w. ve_page env (vs_world s) = Inr (Some page, w) \<and>
           set (segblock page) \<inter> set (vs_free_segs s @ vm_segqueue (vs_arena s a)) = {}))"

text \<open>Refilling the pool took the segments \<open>new\<close> out of a page, or there were enough of them.\<close>

definition refilled :: "'w vmem_env \<Rightarrow> 'w vst \<Rightarrow> u64 list \<Rightarrow> 'w \<Rightarrow> bool" where
  "refilled env s new w \<longleftrightarrow> new = [] \<and> w = vs_world s \<or>
     (\<exists>page. ve_page env (vs_world s) = Inr (Some page, w) \<and> new = rev (segblock page))"

lemma refill_runs:
  assumes inv: "distinct (vs_free_segs s @ vm_segqueue (vs_arena s a))" "pool_excess s = 0"
    and quiet: "quiet s" and ok: "refill_ok env a vmflag s"
  shows "runs_to (kwhen (vmflag AND VM_BOOTSTRAP = 0)
            (kbind (repopulate_segments env) (\<lambda>r. kassert (r = 0) msg))) s
     (\<lambda>_ t. \<exists>new w. t = s\<lparr>vs_free_segs := new @ vs_free_segs s,
                         vs_nfreesegs := vs_nfreesegs s + int (length new), vs_world := w\<rparr> \<and>
        distinct (new @ vs_free_segs s @ vm_segqueue (vs_arena s a)) \<and> 2 \<le> length (new @ vs_free_segs s) \<and>
        refilled env s new w)"
proof (cases "vmflag AND VM_BOOTSTRAP = 0 \<and> \<not> 128 \<le> vs_nfreesegs s")
  case True
  then obtain page w where pg: "ve_page env (vs_world s) = Inr (Some page, w)"
    "set (segblock page) \<inter> set (vs_free_segs s @ vm_segqueue (vs_arena s a)) = {}"
    using ok by (auto simp: refill_ok_def)
  have q: "quiet (s\<lparr>vs_world := w\<rparr>)" using quiet by (simp add: quiet_def)
  have page: "runs_to (vmem_alloc_pages env 1) s Q \<longleftrightarrow> Q page (s\<lparr>vs_world := w\<rparr>)" for Q
    using pg(1) by (simp add: vmem_alloc_pages_def vs_lift_def runs_to_def km_defs)
  have len: "length (segblock page) = 64" by (simp add: segblock_def)
  have d: "distinct (rev (segblock page) @ vs_free_segs s @ vm_segqueue (vs_arena s a))"
    using pg(2) inv(1) segblock_distinct [of page] by auto
  show ?thesis
    using True d len pg(1)
    by (simp add: repopulate_segments_def wp page runs_to_seg_free_list [OF q])
       (rule exI [of _ "rev (segblock page)"], simp, rule exI [of _ w], simp add: refilled_def)
next
  case False
  then have "2 \<le> length (vs_free_segs s)"
    using ok inv(2) by (auto simp: refill_ok_def pool_excess_def)
  then show ?thesis
    using False inv(1)
    by (auto simp: wp repopulate_segments_def refilled_def intro!: exI [of _ "[]"] exI [of _ "vs_world s"])
qed

end
