(* ===== verification/Vmem_Alloc.thy ===== *)
theory Vmem_Alloc
  imports Vmem_Fit
begin

text \<open>The behaviour of \<open>vmem_xalloc\<close> and \<open>vmem_alloc\<close>: what they return and what they leave.\<close>

section \<open>The invariant of an arena and its pool\<close>

definition vmem_inv :: "arena \<Rightarrow> 'w vst \<Rightarrow> bool" where
  "vmem_inv a s \<longleftrightarrow> arena_ok (vs_seg s) {} (vs_arena s a) \<and>
     distinct (vs_free_segs s @ vm_segqueue (vs_arena s a)) \<and> pool_excess s = 0"

definition ready :: "arena \<Rightarrow> 'w vst \<Rightarrow> bool" where
  "ready a s \<longleftrightarrow> quiet s \<and> \<not> vm_lock (vs_arena s a)"

abbreviation allocs :: "arena \<Rightarrow> 'w vst \<Rightarrow> (u64 \<times> u64) set" where
  "allocs a s \<equiv> allocations (vs_seg s) {} (vs_arena s a)"

abbreviation free_addrs :: "arena \<Rightarrow> 'w vst \<Rightarrow> nat set" where
  "free_addrs a s \<equiv> free_space (vs_seg s) {} (vs_arena s a)"

abbreviation free_segments :: "arena \<Rightarrow> 'w vst \<Rightarrow> u64 set" where
  "free_segments a s \<equiv> of_type SEGMENT_FREE (vs_seg s) {} (vs_arena s a)"

lemma runs_to_arena_lock:
  "runs_to (arena_lock a) s Q \<longleftrightarrow> vs_irql s \<le> IRQL_DISPATCH \<and> \<not> vm_lock (vs_arena s a) \<and>
     Q (vs_irql s) (arena_upd a (\<lambda>vm. vm\<lparr>vm_lock := True\<rparr>) (s\<lparr>vs_irql := IRQL_DISPATCH\<rparr>))"
  by (simp add: arena_lock_def wp)

lemma runs_to_arena_unlock:
  "runs_to (arena_unlock a old) s Q \<longleftrightarrow> old \<le> vs_irql s \<and>
     Q () ((arena_upd a (\<lambda>vm. vm\<lparr>vm_lock := False\<rparr>) s)\<lparr>vs_irql := old\<rparr>)"
  by (simp add: arena_unlock_def spinlock_release_lower_def wp runs_to_irql_lower_vmem)

section \<open>The search loop\<close>

lemma xalloc_loop_found:
  assumes ok: "arena_ok (vs_seg s) {} (vs_arena s a)" and sz: "2 \<le> unat sz" and k: "k < 64"
    and nw: "no_wrap (vs_seg s) (vs_arena s a) (2 ^ k) minaddr"
    and fl: "vmflag AND VM_INSTANTFIT = 0" "vmflag AND VM_BESTFIT \<noteq> 0"
    and p: "p \<in> free_segments a s" "fits (vs_seg s p) sz (2 ^ k) phase minaddr maxaddr x"
  shows "runs_to (xalloc_loop env (Suc n) a (GET_LIST sz - 1) sz (2 ^ k) phase 0 minaddr maxaddr vmflag) s
    (\<lambda>(r, st) t. t = s \<and> r \<in> free_segments a s \<and>
       fits (vs_seg s r) sz (2 ^ k) phase minaddr maxaddr (unat st))"
proof -
  let ?ps = "concat (drop (GET_LIST sz - 1) (vm_freelist (vs_arena s a)))"
  note ss = searched_segments [OF ok sz]
  have sz0: "0 < sz" using sz by (auto simp: word_gt_0)
  have bound: "hi (vs_seg s r) < 2 ^ 64 \<and> max (lo (vs_seg s r)) (unat minaddr) + 2 ^ k \<le> 2 ^ 64"
    if "r \<in> set ?ps" for r
  proof -
    have r: "r \<in> free_segments a s" using that ss(1) by blast
    then have "max (lo (vs_seg s r)) (unat minaddr) + unat ((2::u64) ^ k) \<le> 2 ^ 64"
      using nw by (simp add: no_wrap_def)
    then show ?thesis
      using r arena_nonempty(2) [OF ok, of r] k by (simp add: of_type_def unat_2p_u64)
  qed
  note bs = bestfit_search_spec [of sz k ?ps s minaddr phase maxaddr, OF sz0 k bound]
  have "sz \<le> sg_size (vs_seg s p)"
    using p(2) by (simp add: fits_def word_le_nat_alt lo_def hi_def)
  then have "p \<in> set ?ps" using p(1) ss(2) by blast
  have fl': "(vmflag AND VM_INSTANTFIT \<noteq> 0) = False" using fl by simp
  show ?thesis
    unfolding xalloc_loop.simps Let_def fl'
    using fl
  proof (simp add: wp del: One_nat_def, intro runs_to_mono [OF bs], goal_cases)
    case (2 r t)
    show ?case
    proof (cases r)
      case None
      then show ?thesis using 2 \<open>p \<in> set ?ps\<close> \<open>sz \<le> sg_size (vs_seg s p)\<close> p(2) by auto
    next
      case (Some q)
      then show ?thesis using 2 ss(1) by (cases q) (auto simp: wp)
    qed
  qed (use bound in auto)
qed

section \<open>Allocation\<close>

lemma runs_to_seg_allocI:
  "quiet s \<Longrightarrow> vs_free_segs s = p # rest \<Longrightarrow>
   Q p (s\<lparr>vs_free_segs := rest, vs_nfreesegs := vs_nfreesegs s - 1\<rparr>) \<Longrightarrow> runs_to seg_alloc s Q"
  by (simp add: runs_to_seg_alloc)

lemma bestfit_flags:
  fixes vmflag :: u32
  defines "f \<equiv> (vmflag AND NOT VM_INSTANTFIT) OR VM_BESTFIT"
  shows "f AND VM_INSTANTFIT = 0" and "f AND VM_BESTFIT \<noteq> 0" and "f AND VM_BOOTSTRAP = vmflag AND VM_BOOTSTRAP"
proof -
  show "f AND VM_INSTANTFIT = 0"
    by (rule bit_eqI) (auto simp: f_def VM_INSTANTFIT_def VM_BESTFIT_def bit_simps)
  have "bit (f AND VM_BESTFIT) 0"
    by (auto simp: f_def VM_INSTANTFIT_def VM_BESTFIT_def bit_simps)
  then show "f AND VM_BESTFIT \<noteq> 0" by (metis bit_0_eq bot_apply bot_bool_def)
  show "f AND VM_BOOTSTRAP = vmflag AND VM_BOOTSTRAP"
    by (rule bit_eqI) (auto simp: f_def VM_INSTANTFIT_def VM_BESTFIT_def VM_BOOTSTRAP_def bit_simps)
qed

definition alloc_post :: "arena \<Rightarrow> u64 \<Rightarrow> 'w vst \<Rightarrow> u64 \<Rightarrow> 'w vst \<Rightarrow> bool" where
  "alloc_post a sz s addr t \<longleftrightarrow>
     vmem_inv a t \<and> ready a t \<and>
     {unat addr..<unat addr + unat sz} \<subseteq> free_addrs a s \<and>
     allocs a t = insert (addr, sz) (allocs a s) \<and>
     free_addrs a t = free_addrs a s - {unat addr..<unat addr + unat sz} \<and>
     segments a s \<subseteq># segments a t \<and>
     vm_stat (vs_arena t a) = (vm_stat (vs_arena s a))\<lparr>st_free := st_free (vm_stat (vs_arena s a)) - sz,
       st_in_use := st_in_use (vm_stat (vs_arena s a)) + sz\<rparr> \<and>
     same_config (vs_arena s a) (vs_arena t a) \<and>
     (\<forall>b. b \<noteq> a \<longrightarrow> vs_arena t b = vs_arena s b) \<and>
     (\<forall>p. p \<notin># segments a t \<longrightarrow> vs_seg t p = vs_seg s p) \<and>
     vs_glock t = vs_glock s \<and> vs_irql t = vs_irql s"

text \<open>The request is one the arena can serve: whole quanta, and a power of two as alignment.\<close>

definition request_ok :: "Vmem \<Rightarrow> u64 \<Rightarrow> u64 \<Rightarrow> u64 \<Rightarrow> bool" where
  "request_ok vm sz align phase \<longleftrightarrow>
     0 < unat sz \<and> unat (vm_quantum vm) dvd unat sz \<and> unat (vm_quantum vm) dvd unat phase \<and>
     align \<noteq> 0 \<and> P2CHECK align \<and> align mod vm_quantum vm = 0"

lemma fits_grained:
  assumes "fits g sz align phase minaddr maxaddr x" and "request_ok vm sz align phase"
  shows "unat (vm_quantum vm) dvd x"
proof -
  have "unat (vm_quantum vm) dvd unat align"
    using assms(2) by (metis request_ok_def dvd_eq_mod_eq_0 unat_0 unat_mod)
  moreover have "x mod unat align = unat phase mod unat align" "unat (vm_quantum vm) dvd unat phase"
    using assms by (simp_all add: fits_def request_ok_def)
  ultimately show ?thesis by (metis dvd_mod_iff)
qed

lemma request_size:
  assumes "request_ok vm sz align phase" and "vm_quantum vm \<ge> 2"
  shows "2 \<le> unat sz"
proof -
  have "unat (vm_quantum vm) \<le> unat sz" using assms(1) by (auto simp: request_ok_def intro: dvd_imp_le)
  then show ?thesis using assms(2) by (simp add: word_le_nat_alt)
qed

lemma fits_range: "fits g sz align phase minaddr maxaddr x \<Longrightarrow> {x..<x + unat sz} \<subseteq> seg_range g"
  by (auto simp: fits_def seg_range_def)

lemma free_segment_range: "p \<in> free_segments a s \<Longrightarrow> seg_range (vs_seg s p) \<subseteq> free_addrs a s"
  by (auto simp: free_space_def)

lemma same_config_unlock:
  "same_config (vm\<lparr>vm_lock := True\<rparr>) vm' \<Longrightarrow> \<not> vm_lock vm \<Longrightarrow> same_config vm (vm'\<lparr>vm_lock := False\<rparr>)"
  by (cases vm, cases vm') (simp add: same_config_def)

text \<open>From the state in which a segment has been found to the end of the operation.\<close>

lemma alloc_post_unlock:
  fixes s t :: "'w vst"
  assumes inv: "vmem_inv a s" and ready: "ready a s"
    and found: "found_post a p n n2 st sz s2 r t" and p: "p \<in> free_segments a s"
    and rng: "{unat st..<unat st + unat sz} \<subseteq> seg_range (vs_seg s p)"
    and s2: "s2 = (arena_upd a (\<lambda>vm. vm\<lparr>vm_lock := True\<rparr>) (s\<lparr>vs_irql := IRQL_DISPATCH\<rparr>))
                    \<lparr>vs_free_segs := rest, vs_nfreesegs := nf, vs_world := w\<rparr>"
    and rest: "new @ vs_free_segs s = n # n2 # rest" "nf = int (length rest)"
    and dist: "distinct (new @ vs_free_segs s @ vm_segqueue (vs_arena s a))"
    and u: "u = (arena_upd a (\<lambda>vm. vm\<lparr>vm_lock := False\<rparr>) t)\<lparr>vs_irql := vs_irql s\<rparr>"
  shows "alloc_post a sz s r u" and "segments a u = mset new + segments a s" and "vs_world u = w"
proof -
  note f = found [unfolded found_post_def]
  have seg: "segments a u = mset (new @ vs_free_segs s) + mset (vm_segqueue (vs_arena s a))"
    using f by (simp add: segments_def u s2 rest(1))
  then show "segments a u = mset new + segments a s" by (simp add: segments_def)
  show "vs_world u = w" using f by (simp add: touches_def u s2)
  have "mset (vs_free_segs u @ vm_segqueue (vs_arena u a)) = mset (new @ vs_free_segs s @ vm_segqueue (vs_arena s a))"
    using seg by (simp add: segments_def)
  then have "distinct (vs_free_segs u @ vm_segqueue (vs_arena u a))"
    using dist mset_eq_imp_distinct_iff by blast
  moreover have "pool_excess u = 0"
    using f rest(2) by (simp add: pool_excess_def u s2)
  moreover have "arena_ok (vs_seg u) {} (vs_arena u a)" using f by (simp add: u)
  ultimately have inv': "vmem_inv a u" by (simp add: vmem_inv_def)
  have pin: "p \<in># segments a u" "n \<in># segments a u" "n2 \<in># segments a u"
    using p rest(1) by (auto simp: seg of_type_def simp flip: set_mset_mset)
  have frame: "vs_seg u x = vs_seg s x" if "x \<notin># segments a u" for x
  proof -
    have "x \<notin> {p, n, n2}" using that pin by auto
    then show ?thesis using f by (simp add: touches_def u s2)
  qed
  have cfg: "same_config (vs_arena s a) (vs_arena u a)"
    using f ready same_config_unlock by (simp add: touches_def u s2 ready_def)
  show "alloc_post a sz s r u"
    unfolding alloc_post_def
  proof (intro conjI)
    show "{unat r..<unat r + unat sz} \<subseteq> free_addrs a s"
      using f rng free_segment_range [OF p] by (simp add: subset_trans)
    show "segments a s \<subseteq># segments a u" unfolding seg by (simp add: segments_def)
    show "ready a u" using f ready by (simp add: ready_def quiet_def touches_def u s2)
    show "\<forall>b. b \<noteq> a \<longrightarrow> vs_arena u b = vs_arena s b" using f by (simp add: touches_def u s2)
    show "vs_glock u = vs_glock s" using f by (simp add: touches_def u s2)
  qed (use f inv' frame cfg in \<open>simp_all add: u s2\<close>)
qed

lemma vmem_xalloc_correct:
  assumes inv: "vmem_inv a s" and ready: "ready a s" and fuel: "0 < ve_fuel env"
    and refill: "refill_ok env a vmflag s" and req: "request_ok (vs_arena s a) sz align phase"
    and nw: "no_wrap (vs_seg s) (vs_arena s a) align minaddr"
    and p: "p \<in> free_segments a s" "fits (vs_seg s p) sz align phase minaddr maxaddr x"
  shows "runs_to (vmem_xalloc env a sz align phase 0 minaddr maxaddr vmflag) s
    (\<lambda>addr t. alloc_post a sz s addr t \<and> unat minaddr \<le> unat addr \<and> unat addr + unat sz \<le> unat maxaddr \<and>
       unat addr mod unat align = unat phase mod unat align \<and>
       (\<exists>new. refilled env s new (vs_world t) \<and> segments a t = mset new + segments a s))"
proof -
  obtain k where k: "k < 64" "align = 2 ^ k"
    using req P2CHECK_pow2 [of align] by (auto simp: request_ok_def)
  obtain m where m: "ve_fuel env = Suc m" using fuel by (cases "ve_fuel env") auto
  let ?f = "(vmflag AND NOT VM_INSTANTFIT) OR VM_BESTFIT"
  let ?s0 = "arena_upd a (\<lambda>vm. vm\<lparr>vm_lock := True\<rparr>) (s\<lparr>vs_irql := IRQL_DISPATCH\<rparr>)"
  note ok = inv [unfolded vmem_inv_def]
  have q2: "vm_quantum (vs_arena s a) \<ge> 2" using ok arena_okD(9) by blast
  then have q0: "vm_quantum (vs_arena s a) \<noteq> 0" by auto
  have sz: "2 \<le> unat sz" using req q2 by (rule request_size)
  have ref: "runs_to (kwhen (?f AND VM_BOOTSTRAP = 0)
            (kbind (repopulate_segments env) (\<lambda>r. kassert (r = 0) ''repopulate_segments() == 0''))) ?s0
     (\<lambda>_ t. \<exists>new w. t = ?s0\<lparr>vs_free_segs := new @ vs_free_segs ?s0,
                         vs_nfreesegs := vs_nfreesegs ?s0 + int (length new), vs_world := w\<rparr> \<and>
        distinct (new @ vs_free_segs ?s0 @ vm_segqueue (vs_arena ?s0 a)) \<and> 2 \<le> length (new @ vs_free_segs ?s0) \<and>
        refilled env ?s0 new w)"
    using ok ready refill
    by (intro refill_runs) (auto simp: pool_excess_def quiet_def ready_def refill_ok_def bestfit_flags)
  have rest: "runs_to (kbind seg_alloc (\<lambda>new_seg. kbind seg_alloc (\<lambda>new_seg2.
        kbind (xalloc_loop env (ve_fuel env) a (GET_LIST sz - 1) sz align phase 0 minaddr maxaddr ?f)
          (\<lambda>(seg, start). kbind (xalloc_found a seg start sz new_seg new_seg2) (\<lambda>ret.
          kthen (arena_unlock a (vs_irql s)) (kreturn ret)))))) t
     (\<lambda>addr t. alloc_post a sz s addr t \<and> unat minaddr \<le> unat addr \<and> unat addr + unat sz \<le> unat maxaddr \<and>
       unat addr mod unat align = unat phase mod unat align \<and>
       (\<exists>new. refilled env s new (vs_world t) \<and> segments a t = mset new + segments a s))"
    if t: "t = ?s0\<lparr>vs_free_segs := new @ vs_free_segs s,
                vs_nfreesegs := vs_nfreesegs s + int (length new), vs_world := w\<rparr>"
      and d: "distinct (new @ vs_free_segs s @ vm_segqueue (vs_arena s a))"
      and l: "2 \<le> length (new @ vs_free_segs s)" and rf: "refilled env s new w"
    for t new w
  proof -
    obtain n n2 rs where rs: "new @ vs_free_segs s = n # n2 # rs"
      using l by (metis Suc_le_length_iff numeral_2_eq_2)
    let ?s2 = "?s0\<lparr>vs_free_segs := rs, vs_nfreesegs := vs_nfreesegs s + int (length new) - 2, vs_world := w\<rparr>"
    have nf: "vs_nfreesegs s + int (length new) - 2 = int (length rs)"
      using ok arg_cong [OF rs, of length] by (simp add: pool_excess_def)
    have qt: "quiet t" "quiet (t\<lparr>vs_free_segs := n2 # rs, vs_nfreesegs := vs_nfreesegs t - 1\<rparr>)" "quiet ?s2"
      using ready by (simp_all add: t ready_def quiet_def)
    have arena: "arena_ok (vs_seg ?s2) {} (vs_arena ?s2 a)" using ok by simp
    have "distinct ((new @ vs_free_segs s) @ vm_segqueue (vs_arena s a))" using d by simp
    then have nq: "n \<notin> set (vm_segqueue (vs_arena ?s2 a))" "n2 \<notin> set (vm_segqueue (vs_arena ?s2 a))" "n \<noteq> n2"
      unfolding rs by auto
    have loop: "runs_to (xalloc_loop env (ve_fuel env) a (GET_LIST sz - 1) sz align phase 0 minaddr maxaddr ?f) ?s2
      (\<lambda>(r, st) t. t = ?s2 \<and> r \<in> free_segments a s \<and>
         fits (vs_seg s r) sz align phase minaddr maxaddr (unat st))"
      using xalloc_loop_found [OF arena sz k(1) _ bestfit_flags(1,2), of minaddr p phase maxaddr x env m vmflag] nw p k(2)
      by (simp add: m no_wrap_def del: xalloc_loop.simps)
    have found: "runs_to (xalloc_found a r st sz n n2) ?s2 (found_post a r n n2 st sz ?s2)"
      if "r \<in> free_segments a s" "fits (vs_seg s r) sz align phase minaddr maxaddr (unat st)" for r st
      using that arena qt nq req fits_grained [OF that(2) req] by (intro xalloc_found_ok) (auto simp: fits_def request_ok_def)
    let ?t1 = "t\<lparr>vs_free_segs := n2 # rs, vs_nfreesegs := vs_nfreesegs t - 1\<rparr>"
    have s2: "?t1\<lparr>vs_free_segs := rs, vs_nfreesegs := vs_nfreesegs ?t1 - 1\<rparr> = ?s2"
      by (simp add: t)
    have fs: "vs_free_segs t = n # n2 # rs" "vs_free_segs ?t1 = n2 # rs" by (simp_all add: t rs)
    show ?thesis
      unfolding runs_to_kbind
    proof (rule runs_to_seg_allocI [OF qt(1) fs(1)], rule runs_to_seg_allocI [OF qt(2) fs(2)],
        unfold s2, rule runs_to_mono [OF loop], goal_cases)
      case (1 q t')
      then obtain r st where q: "q = (r, st)" and t': "t' = ?s2" and r: "r \<in> free_segments a s"
        and fit: "fits (vs_seg s r) sz align phase minaddr maxaddr (unat st)" by auto
      show ?case
        unfolding q t' prod.case
      proof (simp add: wp runs_to_arena_unlock del: One_nat_def, intro runs_to_mono [OF found [OF r fit]], goal_cases)
        case (1 ret u)
        then show ?case
          using alloc_post_unlock [OF inv ready 1 r fits_range [OF fit] refl rs nf d refl] fit ready rf
          by (auto simp: found_post_def touches_def fits_def ready_def quiet_def)
      qed
    qed
  qed
  have al: "align \<noteq> 0" "align mod vm_quantum (vs_arena s a) = 0" using req by (auto simp: request_ok_def)
  show ?thesis
    unfolding vmem_xalloc_def Let_def
    using ready q0 al sz
  proof (simp add: wp runs_to_arena_lock ready_def quiet_def runs_to_freelist_for_size del: One_nat_def runs_to_kwhen,
      intro runs_to_mono [OF ref], goal_cases)
    case (1 u t)
    then obtain new w where "t = ?s0\<lparr>vs_free_segs := new @ vs_free_segs s,
                vs_nfreesegs := vs_nfreesegs s + int (length new), vs_world := w\<rparr>"
      "distinct (new @ vs_free_segs s @ vm_segqueue (vs_arena s a))" "2 \<le> length (new @ vs_free_segs s)"
      "refilled env s new w"
      by (auto simp: refilled_def)
    from rest [OF this] show ?case by (simp add: wp del: One_nat_def)
  qed
qed

end
