(* ===== verification/Vmem_Free.thy ===== *)
theory Vmem_Free
  imports Vmem_Alloc
begin

text \<open>The behaviour of \<open>vmem_xfree\<close>: coalescing with the neighbours, and giving a span back.\<close>

section \<open>Joining with a free neighbour\<close>

lemma tiled_adjacent:
  assumes "tiled (gs @ g1 # g2 # hs)" and "sg_type g2 \<noteq> SEGMENT_SPAN" and "sg_type g1 \<noteq> SEGMENT_SPAN"
  shows "hi g1 = lo g2"
proof -
  obtain e where e: "scan (0, 0) (gs @ g1 # g2 # hs) = Some (e, e)"
    using assms(1) by (auto simp: tiled_def)
  then obtain c c' where "scan (0, 0) gs = Some (c, c')"
    by (cases "scan (0, 0) gs") (auto simp: scan_append)
  with e assms show ?thesis by (auto simp: scan_append split: if_splits)
qed

lemma join_words:
  assumes "hi g1 = lo g2" and "hi g2 < 2 ^ 64"
  shows "unat (sg_size g1 + sg_size g2) = unat (sg_size g1) + unat (sg_size g2)"
  using assms unat_add_lem [of "sg_size g1" "sg_size g2"] by (simp add: lo_def hi_def)

lemma arena_merge:
  assumes ok: "arena_ok sg {p} vm" and nb: "nb \<in> of_type SEGMENT_FREE sg {p} vm"
    and q: "right \<and> vm_segqueue vm = xs @ [p, nb] @ ys \<or> \<not> right \<and> vm_segqueue vm = xs @ [nb, p] @ ys"
  defines "g \<equiv> (sg p)\<lparr>sg_base := (if right then sg_base (sg p) else sg_base (sg nb)),
                      sg_size := sg_size (sg p) + sg_size (sg nb)\<rparr>"
  defines "sg' \<equiv> sg(p := g)" and "vm' \<equiv> (seglist_unlink nb vm)\<lparr>vm_segqueue := xs @ p # ys\<rparr>"
  shows "arena_ok sg' {p} vm'"
    and "of_type SEGMENT_FREE sg' {p} vm' = of_type SEGMENT_FREE sg {p} vm - {nb}"
    and "allocations sg' {p} vm' = allocations sg {p} vm"
    and "free_space sg' {p} vm' \<union> seg_range g = free_space sg {p} vm \<union> seg_range (sg p)"
proof -
  have pn: "nb \<noteq> p" "sg_type (sg nb) = SEGMENT_FREE" "nb \<in> set (vm_segqueue vm)" using nb by (auto simp: of_type_def)
  have p: "p \<in> set (vm_segqueue vm)" "sg_type (sg p) \<noteq> SEGMENT_SPAN" using q arena_okD(3) [OF ok] by auto
  have D: "{nb, p} - {nb} = {p}" using pn by auto
  have ok1: "arena_ok sg {nb, p} (seglist_unlink nb vm)"
    using arena_detach [OF ok pn(3)] pn(2) by simp
  have til: "tiled (map sg (vm_segqueue vm))" using ok by (rule arena_okD)
  have adj: "if right then hi (sg p) = lo (sg nb) else hi (sg nb) = lo (sg p)"
    using til q pn p tiled_adjacent [of "map sg xs" _ _ "map sg ys"] by (cases right) auto
  have w: "unat (sg_size (sg p) + sg_size (sg nb)) = unat (sg_size (sg p)) + unat (sg_size (sg nb))"
    using adj join_words [of "sg p" "sg nb"] join_words [of "sg nb" "sg p"] arena_nonempty(2) [OF ok p(1)]
      arena_nonempty(2) [OF ok pn(3)] by (auto simp: add.commute split: if_splits)
  have b: "lo g = (if right then lo (sg p) else lo (sg nb))" "hi g = (if right then hi (sg nb) else hi (sg p))"
    using adj w by (auto simp: g_def lo_def hi_def)
  note ne = arena_nonempty(1) [OF ok p(1)] arena_nonempty(1) [OF ok pn(3)]
  have cut: "if right then cut_at g (sg p) (sg nb) else cut_at g (sg nb) (sg p)"
    using b adj ne p pn by (auto simp: cut_at_def g_def)
  have gr: "grained (vm_quantum vm) g"
    using arena_okD(7) [OF ok p(1)] arena_okD(7) [OF ok pn(3)] w by (auto simp: grained_def g_def)
  have j: "arena_ok sg' ({nb, p} - {nb}) vm'"
    and t: "of_type ty sg' ({nb, p} - {nb}) vm' = of_type ty sg {nb, p} (seglist_unlink nb vm)" for ty
    using arena_join [OF ok1, of p nb xs ys g] q cut gr pn(1)
    by (auto simp: sg'_def vm'_def split: if_splits)
  show "arena_ok sg' {p} vm'" using j by (simp only: D)
  have t': "of_type ty sg' {p} vm' = of_type ty sg {p} vm - {nb}" for ty
    using t [of ty] unfolding D by (simp add: of_type_detach)
  then show "of_type SEGMENT_FREE sg' {p} vm' = of_type SEGMENT_FREE sg {p} vm - {nb}" .
  have old: "sg' r = sg r" if "r \<in> of_type ty sg {p} vm" for r ty
    using that by (auto simp: of_type_def sg'_def)
  have "of_type SEGMENT_ALLOCATED sg' {p} vm' = of_type SEGMENT_ALLOCATED sg {p} vm"
    using t' [of SEGMENT_ALLOCATED] pn(2) by (auto simp: of_type_def)
  from view_cong(1) [OF this old [of _ SEGMENT_ALLOCATED]]
  show "allocations sg' {p} vm' = allocations sg {p} vm" by simp
  have "free_space sg' {p} vm' = free_space sg {p} vm - seg_range (sg nb)"
  proof -
    have "free_space sg' {p} vm' = free_space sg {nb, p} (seglist_unlink nb vm)"
      using view_cong(2) [of SEGMENT_FREE sg' "{p}" vm' sg "{nb, p}" "seglist_unlink nb vm"] t [of SEGMENT_FREE]
      unfolding D by (simp add: sg'_def of_type_def)
    then show ?thesis using free_space_detach [OF ok nb] by simp
  qed
  moreover have "seg_range g = seg_range (sg p) \<union> seg_range (sg nb)"
    using b adj ne by (auto simp: seg_range_def split: if_splits)
  moreover have "seg_range (sg nb) \<subseteq> free_space sg {p} vm" using nb by (auto simp: free_space_def)
  ultimately show "free_space sg' {p} vm' \<union> seg_range g = free_space sg {p} vm \<union> seg_range (sg p)" by blast
qed

definition merge_post :: "arena \<Rightarrow> u64 \<Rightarrow> 'w vst \<Rightarrow> 'w vst \<Rightarrow> bool" where
  "merge_post a p s t \<longleftrightarrow>
     arena_ok (vs_seg t) {p} (vs_arena t a) \<and> sg_type (vs_seg t p) = sg_type (vs_seg s p) \<and>
     of_type SEGMENT_FREE (vs_seg t) {p} (vs_arena t a) \<subseteq> of_type SEGMENT_FREE (vs_seg s) {p} (vs_arena s a) \<and>
     allocations (vs_seg t) {p} (vs_arena t a) = allocations (vs_seg s) {p} (vs_arena s a) \<and>
     free_space (vs_seg t) {p} (vs_arena t a) \<union> seg_range (vs_seg t p) =
       free_space (vs_seg s) {p} (vs_arena s a) \<union> seg_range (vs_seg s p) \<and>
     segments a t = segments a s \<and> pool_excess t = pool_excess s \<and>
     vm_stat (vs_arena t a) = vm_stat (vs_arena s a) \<and> touches a {p} s t"

lemma merge_post_refl: "arena_ok (vs_seg s) {p} (vs_arena s a) \<Longrightarrow> merge_post a p s s"
  by (simp add: merge_post_def)

lemma merge_post_trans: "merge_post a p s t \<Longrightarrow> merge_post a p t u \<Longrightarrow> merge_post a p s u"
  by (auto simp: merge_post_def intro: touches_trans)

text \<open>The state after a neighbour has been joined.\<close>

lemma merge_post_joined:
  assumes ok: "arena_ok (vs_seg s) {p} (vs_arena s a)"
    and nb: "nb \<in> of_type SEGMENT_FREE (vs_seg s) {p} (vs_arena s a)"
    and q: "right \<and> vm_segqueue (vs_arena s a) = xs @ [p, nb] @ ys \<or>
            \<not> right \<and> vm_segqueue (vs_arena s a) = xs @ [nb, p] @ ys"
    and t: "vs_seg t = (vs_seg s)(p := (vs_seg s p)\<lparr>
              sg_base := (if right then sg_base (vs_seg s p) else sg_base (vs_seg s nb)),
              sg_size := sg_size (vs_seg s p) + sg_size (vs_seg s nb)\<rparr>)"
      "vs_arena t = (vs_arena s)(a := (seglist_unlink nb (vs_arena s a))\<lparr>vm_segqueue := xs @ p # ys\<rparr>)"
      "same_rest (s\<lparr>vs_free_segs := nb # vs_free_segs s, vs_nfreesegs := vs_nfreesegs s + 1\<rparr>) t"
  shows "merge_post a p s t"
proof -
  note m = arena_merge [OF ok nb q]
  have "segments a t = segments a s"
    using t q by (auto simp: segments_def same_rest_def)
  moreover have "touches a {p} s t"
    using t by (simp add: touches_def same_rest_def same_config_def seglist_unlink_def)
  ultimately show ?thesis
    using m t by (simp add: merge_post_def pool_excess_def same_rest_def)
qed

lemma merge_right_ok:
  assumes ok: "arena_ok (vs_seg s) {p} (vs_arena s a)" and quiet: "quiet s"
    and q: "vm_segqueue (vs_arena s a) = xs @ p # ys"
  shows "runs_to (xfree_merge_right a p) s (\<lambda>_ t. merge_post a p s t \<and>
     (\<exists>zs. vm_segqueue (vs_arena t a) = xs @ p # zs \<and>
        (zs \<noteq> [] \<longrightarrow> hd zs \<notin> of_type SEGMENT_FREE (vs_seg t) {p} (vs_arena t a))))"
proof (cases "ys \<noteq> [] \<and> hd ys \<in> of_type SEGMENT_FREE (vs_seg s) {p} (vs_arena s a)")
  case False
  have "distinct (xs @ p # ys)" using arena_okD(1) [OF ok] q by simp
  moreover have "hd ys \<noteq> p" if "ys \<noteq> []" using calculation that hd_in_set [of ys] by auto
  ultimately show ?thesis
    using False merge_post_refl [OF ok] q
    by (cases ys) (auto simp: xfree_merge_right_def wp list_next_hd of_type_def)
next
  case True
  then obtain nb zs where ys: "ys = nb # zs" and nb: "nb \<in> of_type SEGMENT_FREE (vs_seg s) {p} (vs_arena s a)"
    by (cases ys) auto
  have d: "distinct (xs @ p # nb # zs)" using arena_okD(1) [OF ok] q ys by simp
  have zs: "zs \<noteq> [] \<Longrightarrow> hd zs \<notin> of_type SEGMENT_FREE (vs_seg s) {p} (vs_arena s a)"
    using coalesced_neighbours(2) [of _ "xs @ [p]" nb zs, OF _ nb] arena_okD(6) [OF ok] q ys by simp
  have "sg_type (vs_seg s nb) = SEGMENT_FREE" "nb \<noteq> p" using nb by (auto simp: of_type_def)
  then have "runs_to (xfree_merge_right a p) s (\<lambda>_ t.
      vs_seg t = (vs_seg s)(p := (vs_seg s p)\<lparr>
              sg_base := (if True then sg_base (vs_seg s p) else sg_base (vs_seg s nb)),
              sg_size := sg_size (vs_seg s p) + sg_size (vs_seg s nb)\<rparr>) \<and>
      vs_arena t = (vs_arena s)(a := (seglist_unlink nb (vs_arena s a))\<lparr>vm_segqueue := xs @ p # zs\<rparr>) \<and>
      same_rest (s\<lparr>vs_free_segs := nb # vs_free_segs s, vs_nfreesegs := vs_nfreesegs s + 1\<rparr>) t)"
    using d quiet q ys
    by (simp add: xfree_merge_right_def wp list_next_hd runs_to_seglist_remove runs_to_seg_free
        quiet_def same_rest_def remove1_append seglist_unlink_def vm_upd_order)
  then show ?thesis
  proof (rule runs_to_mono, elim conjE)
    fix t assume t: "vs_seg t = (vs_seg s)(p := (vs_seg s p)\<lparr>
              sg_base := (if True then sg_base (vs_seg s p) else sg_base (vs_seg s nb)),
              sg_size := sg_size (vs_seg s p) + sg_size (vs_seg s nb)\<rparr>)"
      "vs_arena t = (vs_arena s)(a := (seglist_unlink nb (vs_arena s a))\<lparr>vm_segqueue := xs @ p # zs\<rparr>)"
      "same_rest (s\<lparr>vs_free_segs := nb # vs_free_segs s, vs_nfreesegs := vs_nfreesegs s + 1\<rparr>) t"
    have "merge_post a p s t" using q ys by (intro merge_post_joined [OF ok nb _ t]) simp
    then show "merge_post a p s t \<and> (\<exists>zs. vm_segqueue (vs_arena t a) = xs @ p # zs \<and>
        (zs \<noteq> [] \<longrightarrow> hd zs \<notin> of_type SEGMENT_FREE (vs_seg t) {p} (vs_arena t a)))"
      using zs t(2) by (auto simp: merge_post_def)
  qed
qed

lemma merge_left_ok:
  assumes ok: "arena_ok (vs_seg s) {p} (vs_arena s a)" and quiet: "quiet s"
    and q: "vm_segqueue (vs_arena s a) = xs @ p # ys"
    and right: "ys \<noteq> [] \<Longrightarrow> hd ys \<notin> of_type SEGMENT_FREE (vs_seg s) {p} (vs_arena s a)"
  shows "runs_to (xfree_merge_left a p) s (\<lambda>_ t. merge_post a p s t \<and>
     (\<exists>zs. vm_segqueue (vs_arena t a) = zs @ p # ys \<and> zs \<noteq> [] \<and>
        last zs \<notin> of_type SEGMENT_FREE (vs_seg t) {p} (vs_arena t a) \<and>
        (ys \<noteq> [] \<longrightarrow> hd ys \<notin> of_type SEGMENT_FREE (vs_seg t) {p} (vs_arena t a))))"
proof -
  have ns: "sg_type (vs_seg s p) \<noteq> SEGMENT_SPAN" using arena_okD(3) [OF ok] by simp
  have xs: "xs \<noteq> []" using arena_first_span [OF ok q ns] .
  then obtain us nb where us: "xs = us @ [nb]" by (meson rev_exhaust)
  have d: "distinct (us @ nb # p # ys)" using arena_okD(1) [OF ok] q us by simp
  have pr: "list_prev p (us @ nb # p # ys) = Some nb" using d by simp
  have "nb \<noteq> p" using d by auto
  show ?thesis
  proof (cases "nb \<in> of_type SEGMENT_FREE (vs_seg s) {p} (vs_arena s a)")
    case False
    then have "sg_type (vs_seg s nb) \<noteq> SEGMENT_FREE"
      using \<open>nb \<noteq> p\<close> q us by (auto simp: of_type_def)
    then show ?thesis
      using False merge_post_refl [OF ok] q us pr right
      by (auto simp: xfree_merge_left_def wp intro!: exI [of _ "us @ [nb]"])
  next
    case True
    have last: "us \<noteq> [] \<Longrightarrow> last us \<notin> of_type SEGMENT_FREE (vs_seg s) {p} (vs_arena s a)"
      using coalesced_neighbours(1) [of _ us nb "p # ys", OF _ True] arena_okD(6) [OF ok] q us by simp
    have "us \<noteq> []"
      using arena_first_span [OF ok, of us nb "p # ys"] True q us by (auto simp: of_type_def)
    have "sg_type (vs_seg s nb) = SEGMENT_FREE" using True by (simp add: of_type_def)
    then have "runs_to (xfree_merge_left a p) s (\<lambda>_ t.
      vs_seg t = (vs_seg s)(p := (vs_seg s p)\<lparr>
              sg_base := (if False then sg_base (vs_seg s p) else sg_base (vs_seg s nb)),
              sg_size := sg_size (vs_seg s p) + sg_size (vs_seg s nb)\<rparr>) \<and>
      vs_arena t = (vs_arena s)(a := (seglist_unlink nb (vs_arena s a))\<lparr>vm_segqueue := us @ p # ys\<rparr>) \<and>
      same_rest (s\<lparr>vs_free_segs := nb # vs_free_segs s, vs_nfreesegs := vs_nfreesegs s + 1\<rparr>) t)"
      using d quiet q us pr
      by (simp add: xfree_merge_left_def wp runs_to_seglist_remove runs_to_seg_free
          quiet_def same_rest_def remove1_append seglist_unlink_def vm_upd_order)
    then show ?thesis
    proof (rule runs_to_mono, elim conjE)
      fix t assume t: "vs_seg t = (vs_seg s)(p := (vs_seg s p)\<lparr>
              sg_base := (if False then sg_base (vs_seg s p) else sg_base (vs_seg s nb)),
              sg_size := sg_size (vs_seg s p) + sg_size (vs_seg s nb)\<rparr>)"
        "vs_arena t = (vs_arena s)(a := (seglist_unlink nb (vs_arena s a))\<lparr>vm_segqueue := us @ p # ys\<rparr>)"
        "same_rest (s\<lparr>vs_free_segs := nb # vs_free_segs s, vs_nfreesegs := vs_nfreesegs s + 1\<rparr>) t"
      have "merge_post a p s t" using q us by (intro merge_post_joined [OF ok True _ t]) simp
      then show "merge_post a p s t \<and> (\<exists>zs. vm_segqueue (vs_arena t a) = zs @ p # ys \<and> zs \<noteq> [] \<and>
        last zs \<notin> of_type SEGMENT_FREE (vs_seg t) {p} (vs_arena t a) \<and>
        (ys \<noteq> [] \<longrightarrow> hd ys \<notin> of_type SEGMENT_FREE (vs_seg t) {p} (vs_arena t a)))"
        using last \<open>us \<noteq> []\<close> right t(2) by (auto simp: merge_post_def)
    qed
  qed
qed

section \<open>Putting the segment back\<close>

definition spans_match :: "arena \<Rightarrow> u64 \<Rightarrow> u64 \<Rightarrow> 'w vst \<Rightarrow> bool" where
  "spans_match a p nb s \<longleftrightarrow> vm_free (vs_arena s a) \<noteq> None \<and> sg_type (vs_seg s nb) = SEGMENT_SPAN \<and>
     sg_imported (vs_seg s nb) \<and> sg_size (vs_seg s nb) = sg_size (vs_seg s p)"

definition release_post :: "arena \<Rightarrow> u64 \<Rightarrow> 'w vst \<Rightarrow> 'w vst \<Rightarrow> bool" where
  "release_post a p s t \<longleftrightarrow>
     arena_ok (vs_seg t) {} (vs_arena t a) \<and>
     allocations (vs_seg t) {} (vs_arena t a) = allocations (vs_seg s) {p} (vs_arena s a) \<and>
     segments a t = segments a s \<and> pool_excess t = pool_excess s \<and>
     vm_stat (vs_arena t a) = vm_stat (vs_arena s a) \<and> touches a {p} s t"

lemma arena_release:
  assumes ok: "arena_ok sg {p} vm" and q: "vm_segqueue vm = xs @ p # ys"
    and nb: "xs \<noteq> [] \<Longrightarrow> last xs \<notin> of_type SEGMENT_FREE sg {p} vm"
            "ys \<noteq> [] \<Longrightarrow> hd ys \<notin> of_type SEGMENT_FREE sg {p} vm"
  defines "sg' \<equiv> sg(p := (sg p)\<lparr>sg_type := SEGMENT_FREE\<rparr>)"
  defines "vm' \<equiv> vm\<lparr>vm_freelist := LIST_PUSH (freelist_key sg' p) p (vm_freelist vm)\<rparr>"
  shows "arena_ok sg' {} vm'" and "free_space sg' {} vm' = free_space sg {p} vm \<union> seg_range (sg p)"
    and "allocations sg' {} vm' = allocations sg {p} vm"
proof -
  have p: "p \<in> set (vm_segqueue vm)" using q by simp
  have r: "arena_ok sg' {p} vm" and t: "of_type ty sg' {p} vm = of_type ty sg {p} vm" for ty
    using arena_retype [OF ok, of p SEGMENT_FREE] by (auto simp: sg'_def)
  have old: "sg' r = sg r" if "r \<in> of_type ty sg {p} vm" for r ty
    using that by (auto simp: of_type_def sg'_def)
  have tp: "sg_type (sg' p) = SEGMENT_FREE" "seg_range (sg' p) = seg_range (sg p)"
    by (simp_all add: sg'_def seg_range_def lo_def hi_def)
  show "arena_ok sg' {} vm'"
    using arena_attach_free [OF r _ tp(1) q] nb t [of SEGMENT_FREE] by (simp add: vm'_def)
  show "free_space sg' {} vm' = free_space sg {p} vm \<union> seg_range (sg p)"
    using free_space_attach [of p "{p}" vm vm' sg'] tp p
      view_cong(2) [OF t [of SEGMENT_FREE] old [of _ SEGMENT_FREE]] by (simp add: vm'_def)
  show "allocations sg' {} vm' = allocations sg {p} vm"
    using allocations_attach_free [of p "{p}" vm vm' sg'] tp p
      view_cong(1) [OF t [of SEGMENT_ALLOCATED] old [of _ SEGMENT_ALLOCATED]] by (simp add: vm'_def)
qed

lemma release_ok:
  assumes ok: "arena_ok (vs_seg s) {p} (vs_arena s a)"
    and q: "vm_segqueue (vs_arena s a) = xs @ p # ys" "xs \<noteq> []"
    and nb: "last xs \<notin> of_type SEGMENT_FREE (vs_seg s) {p} (vs_arena s a)"
      "ys \<noteq> [] \<Longrightarrow> hd ys \<notin> of_type SEGMENT_FREE (vs_seg s) {p} (vs_arena s a)"
    and keep: "\<not> spans_match a p (last xs) s"
  shows "runs_to (xfree_release env a p) s (\<lambda>_ t. release_post a p s t \<and>
     free_space (vs_seg t) {} (vs_arena t a) =
       free_space (vs_seg s) {p} (vs_arena s a) \<union> seg_range (vs_seg s p))"
proof -
  have d: "distinct (xs @ p # ys)" using arena_okD(1) [OF ok] q by simp
  have pr: "list_prev p (xs @ p # ys) = Some (last xs)" using q(2) d by (rule list_prev_last)
  have lp: "last xs \<noteq> p" using d q(2) last_in_set by fastforce
  have ty: "sg_type (vs_seg s (last xs)) = SEGMENT_SPAN \<or> sg_type (vs_seg s (last xs)) = SEGMENT_ALLOCATED"
    using nb(1) lp q last_in_set [OF q(2)] by (cases "sg_type (vs_seg s (last xs))") (auto simp: of_type_def)
  have s2: "2 \<le> unat (sg_size (vs_seg s p))" using arena_size_ge2 [OF ok, of p] q by simp
  let ?sg = "(vs_seg s)(p := (vs_seg s p)\<lparr>sg_type := SEGMENT_FREE\<rparr>)"
  let ?vm = "(vs_arena s a)\<lparr>vm_freelist := LIST_PUSH (freelist_key ?sg p) p (vm_freelist (vs_arena s a))\<rparr>"
  have "runs_to (xfree_release env a p) s (\<lambda>_ t. vs_seg t = ?sg \<and>
          vs_arena t = (vs_arena s)(a := ?vm) \<and> same_rest s t)"
    using pr q ty s2 keep lp
    by (cases "vm_free (vs_arena s a)")
       (auto simp: xfree_release_def wp runs_to_add_to_freelist same_rest_def spans_match_def)
  then show ?thesis
    by (rule runs_to_mono)
       (use arena_release [OF ok q(1)] nb in \<open>simp add: release_post_def segments_def pool_excess_def
          same_rest_def touches_def same_config_def\<close>)
qed

lemma release_span:
  assumes ok: "arena_ok (vs_seg s) {p} (vs_arena s a)" and quiet: "quiet s"
    and q: "vm_segqueue (vs_arena s a) = xs @ sp # p # ys"
    and match: "spans_match a p sp s" and f: "vm_free (vs_arena s a) = Some f"
    and free: "\<And>u. release_post a p s u \<Longrightarrow>
        free_space (vs_seg u) {} (vs_arena u a) = free_space (vs_seg s) {p} (vs_arena s a) \<Longrightarrow>
        runs_to (ve_free env f (vm_source (vs_arena s a)) (sg_base (vs_seg s p)) (sg_size (vs_seg s p))) u Q"
  shows "runs_to (xfree_release env a p) s Q"
proof -
  have d: "distinct (xs @ sp # p # ys)" using arena_okD(1) [OF ok] q by simp
  have pr: "list_prev p (xs @ sp # p # ys) = Some sp" using d by simp
  have m: "sg_type (vs_seg s sp) = SEGMENT_SPAN" "sg_imported (vs_seg s sp)"
    "sg_size (vs_seg s sp) = sg_size (vs_seg s p)" using match by (auto simp: spans_match_def)
  define sg' where "sg' = (vs_seg s)(p := (vs_seg s p)\<lparr>sg_type := SEGMENT_FREE\<rparr>)"
  let ?vm = "(vs_arena s a)\<lparr>vm_segqueue := xs @ ys\<rparr>"
  have r: "arena_ok sg' {p} (vs_arena s a)" and t: "of_type ty sg' {p} (vs_arena s a) = of_type ty (vs_seg s) {p} (vs_arena s a)" for ty
    using arena_retype [OF ok, of p SEGMENT_FREE] by (auto simp: sg'_def)
  have sp: "sg_type (sg' sp) = SEGMENT_SPAN" "sg_size (sg' sp) = sg_size (sg' p)" using m d by (auto simp: sg'_def)
  have dr: "arena_ok sg' {} ?vm"
    using arena_drop_span(1) [OF r q _ sp] by simp
  have tv: "of_type ty sg' {} ?vm = of_type ty (vs_seg s) {p} (vs_arena s a)" if "ty \<noteq> SEGMENT_SPAN" for ty
    using arena_drop_span(2) [OF r q _ sp that] t [of ty] by simp
  have post: "release_post a p s u" "free_space (vs_seg u) {} (vs_arena u a) = free_space (vs_seg s) {p} (vs_arena s a)"
    if u: "vs_seg u = sg'" "vs_arena u = (vs_arena s)(a := ?vm)"
      "same_rest (s\<lparr>vs_free_segs := sp # p # vs_free_segs s, vs_nfreesegs := vs_nfreesegs s + 2\<rparr>) u" for u
  proof -
    have old: "sg' r = vs_seg s r" if "r \<in> of_type ty (vs_seg s) {p} (vs_arena s a)" for r ty
      using that by (auto simp: of_type_def sg'_def)
    show "free_space (vs_seg u) {} (vs_arena u a) = free_space (vs_seg s) {p} (vs_arena s a)"
      using view_cong(2) [OF tv [of SEGMENT_FREE] old [of _ SEGMENT_FREE]] u by simp
    have "allocations sg' {} ?vm = allocations (vs_seg s) {p} (vs_arena s a)"
      using view_cong(1) [OF tv [of SEGMENT_ALLOCATED] old [of _ SEGMENT_ALLOCATED]] by simp
    moreover have "touches a {p} s u"
      using u by (simp add: same_rest_def touches_def same_config_def sg'_def)
    ultimately show "release_post a p s u"
      using u dr q by (simp add: release_post_def segments_def pool_excess_def same_rest_def)
  qed
  show ?thesis
    using pr q m d f quiet
    by (simp add: xfree_release_def wp runs_to_seg_free quiet_def remove1_append)
       (intro free post; simp add: remove1_append same_rest_def sg'_def)
qed

section \<open>Freeing\<close>

definition free_post :: "arena \<Rightarrow> u64 \<Rightarrow> u64 \<Rightarrow> 'w vst \<Rightarrow> 'w vst \<Rightarrow> bool" where
  "free_post a addr sz s t \<longleftrightarrow>
     vmem_inv a t \<and> ready a t \<and> allocs a t = allocs a s - {(addr, sz)} \<and>
     segments a t = segments a s \<and>
     vm_stat (vs_arena t a) = (vm_stat (vs_arena s a))\<lparr>st_free := st_free (vm_stat (vs_arena s a)) + sz,
       st_in_use := st_in_use (vm_stat (vs_arena s a)) - sz\<rparr> \<and>
     same_config (vs_arena s a) (vs_arena t a) \<and>
     (\<forall>b. b \<noteq> a \<longrightarrow> vs_arena t b = vs_arena s b) \<and>
     (\<forall>p. p \<notin># segments a t \<longrightarrow> vs_seg t p = vs_seg s p) \<and>
     vs_glock t = vs_glock s \<and> vs_irql t = vs_irql s \<and> vs_world t = vs_world s"

text \<open>Looking the address up in its hash chain finds the one segment allocated there.\<close>

lemma hash_lookup:
  assumes ok: "arena_ok sg {} vm" and al: "(addr, sz) \<in> allocations sg {} vm"
  obtains p where "find (\<lambda>p. sg_base (sg p) = addr) (vm_hashtable vm ! hashtable_for_addr addr) = Some p"
    and "p \<in> of_type SEGMENT_ALLOCATED sg {} vm" and "sg_base (sg p) = addr" and "sg_size (sg p) = sz"
proof -
  obtain r where r: "r \<in> of_type SEGMENT_ALLOCATED sg {} vm" "sg_base (sg r) = addr" "sg_size (sg r) = sz"
    using al by (auto simp: allocations_def)
  note b = arena_okD(11) [OF ok]
  have key: "hash_key sg r = hashtable_for_addr addr" using r by (simp add: hash_key_def)
  have "r \<in> set (vm_hashtable vm ! hashtable_for_addr addr)"
    using bucket_okD(1) [OF b r(1) hash_key_less] key by simp
  then obtain p where p: "find (\<lambda>p. sg_base (sg p) = addr) (vm_hashtable vm ! hashtable_for_addr addr) = Some p"
    using r(2) by (cases "find (\<lambda>p. sg_base (sg p) = addr) (vm_hashtable vm ! hashtable_for_addr addr)")
      (auto simp: find_None_iff)
  then have "p \<in> set (vm_hashtable vm ! hashtable_for_addr addr)" "sg_base (sg p) = addr"
    by (auto simp: find_Some_iff)
  moreover have "hashtable_for_addr addr < HASHTABLES_N" using hash_key_less [of sg r] key by simp
  ultimately have "p \<in> of_type SEGMENT_ALLOCATED sg {} vm" using bucket_okD(2) [OF b] by blast
  then have "p = r" using allocation_unique [OF ok _ r(1)] \<open>sg_base (sg p) = addr\<close> r(2) by simp
  with p r that show thesis by blast
qed

text \<open>
  The state in which the segment goes back: \<open>merged\<close> relates it to the state \<open>s\<close> before the call.
\<close>

definition merged :: "arena \<Rightarrow> u64 \<Rightarrow> u64 \<Rightarrow> u64 \<Rightarrow> u64 list \<Rightarrow> u64 list \<Rightarrow> 'w vst \<Rightarrow> 'w vst \<Rightarrow> bool" where
  "merged a p addr sz xs ys s t \<longleftrightarrow>
     arena_ok (vs_seg t) {p} (vs_arena t a) \<and> p \<in># segments a s \<and>
     vm_segqueue (vs_arena t a) = xs @ p # ys \<and> xs \<noteq> [] \<and>
     last xs \<notin> of_type SEGMENT_FREE (vs_seg t) {p} (vs_arena t a) \<and>
     (ys \<noteq> [] \<longrightarrow> hd ys \<notin> of_type SEGMENT_FREE (vs_seg t) {p} (vs_arena t a)) \<and>
     allocations (vs_seg t) {p} (vs_arena t a) = allocs a s - {(addr, sz)} \<and>
     free_space (vs_seg t) {p} (vs_arena t a) \<union> seg_range (vs_seg t p) =
       free_addrs a s \<union> {unat addr..<unat addr + unat sz} \<and>
     segments a t = segments a s \<and> pool_excess t = 0 \<and> vm_stat (vs_arena t a) = vm_stat (vs_arena s a) \<and>
     touches a {p} (arena_upd a (\<lambda>vm. vm\<lparr>vm_lock := True\<rparr>) (s\<lparr>vs_irql := IRQL_DISPATCH\<rparr>)) t"

lemma seglist_unlink_lock [simp]: "seglist_unlink p (vm\<lparr>vm_lock := b\<rparr>) = (seglist_unlink p vm)\<lparr>vm_lock := b\<rparr>"
  by (simp add: seglist_unlink_def)

lemma xfree_until_release:
  assumes inv: "vmem_inv a s" and ready: "ready a s" and al: "(addr, sz) \<in> allocs a s"
    and rel: "\<And>p t xs ys. merged a p addr sz xs ys s t \<Longrightarrow>
       runs_to (xfree_release env a p) t (\<lambda>_ u.
         Q () ((arena_upd a (\<lambda>vm. vm\<lparr>vm_stat := (vm_stat vm)\<lparr>st_in_use := st_in_use (vm_stat vm) - sz,
                 st_free := st_free (vm_stat vm) + sz\<rparr>, vm_lock := False\<rparr>) u)\<lparr>vs_irql := vs_irql s\<rparr>) \<and>
         vs_irql s \<le> vs_irql u)"
  shows "runs_to (vmem_xfree env a addr sz) s Q"
proof -
  note ok = inv [unfolded vmem_inv_def]
  obtain p where p: "find (\<lambda>p. sg_base (vs_seg s p) = addr) (vm_hashtable (vs_arena s a) ! hashtable_for_addr addr) = Some p"
    "p \<in> of_type SEGMENT_ALLOCATED (vs_seg s) {} (vs_arena s a)" "sg_base (vs_seg s p) = addr" "sg_size (vs_seg s p) = sz"
    using hash_lookup ok al by metis
  have pq: "p \<in> set (vm_segqueue (vs_arena s a))" "sg_type (vs_seg s p) = SEGMENT_ALLOCATED"
    using p(2) by (auto simp: of_type_def)
  obtain xs ys where q: "vm_segqueue (vs_arena s a) = xs @ p # ys" using pq(1) by (meson split_list)
  let ?s0 = "arena_upd a (\<lambda>vm. vm\<lparr>vm_lock := True\<rparr>) (s\<lparr>vs_irql := IRQL_DISPATCH\<rparr>)"
  let ?s1 = "arena_upd a (seglist_unlink p) ?s0"
  have ok1: "arena_ok (vs_seg ?s1) {p} (vs_arena ?s1 a)"
    using arena_detach [of "vs_seg s" "{}" "vs_arena s a" p] ok pq by simp
  have q1: "quiet ?s1" using ready by (simp add: ready_def quiet_def)
  have views: "allocations (vs_seg ?s1) {p} (vs_arena ?s1 a) = allocs a s - {(addr, sz)}"
    "free_space (vs_seg ?s1) {p} (vs_arena ?s1 a) = free_addrs a s"
    "seg_range (vs_seg ?s1 p) = {unat addr..<unat addr + unat sz}"
    using allocations_detach [OF conjunct1 [OF ok] p(2)] free_space_detach_other [of "vs_seg s" p "{}"] pq p
    by (simp_all add: seg_range_def lo_def hi_def)
  have t1: "touches a {p} ?s0 ?s1" by (simp add: touches_def same_config_def seglist_unlink_def)
  have right: "runs_to (xfree_merge_right a p) ?s1 (\<lambda>_ t. merge_post a p ?s1 t \<and>
     (\<exists>zs. vm_segqueue (vs_arena t a) = xs @ p # zs \<and>
        (zs \<noteq> [] \<longrightarrow> hd zs \<notin> of_type SEGMENT_FREE (vs_seg t) {p} (vs_arena t a))))"
    using q by (intro merge_right_ok [OF ok1 q1]) simp
  have left: "runs_to (xfree_merge_left a p) t (\<lambda>_ u. \<exists>xs ys. merged a p addr sz xs ys s u)"
    if t: "merge_post a p ?s1 t" "vm_segqueue (vs_arena t a) = xs @ p # zs"
      "zs \<noteq> [] \<longrightarrow> hd zs \<notin> of_type SEGMENT_FREE (vs_seg t) {p} (vs_arena t a)" for t zs
  proof -
    have okt: "arena_ok (vs_seg t) {p} (vs_arena t a)" "quiet t"
      using t(1) q1 touches_quiet by (auto simp: merge_post_def)
    have "runs_to (xfree_merge_left a p) t (\<lambda>_ u. merge_post a p t u \<and>
     (\<exists>ws. vm_segqueue (vs_arena u a) = ws @ p # zs \<and> ws \<noteq> [] \<and>
        last ws \<notin> of_type SEGMENT_FREE (vs_seg u) {p} (vs_arena u a) \<and>
        (zs \<noteq> [] \<longrightarrow> hd zs \<notin> of_type SEGMENT_FREE (vs_seg u) {p} (vs_arena u a))))"
      using t by (intro merge_left_ok [OF okt(1,2) t(2)]) simp
    then show ?thesis
    proof (rule runs_to_mono)
      fix u
      assume u: "merge_post a p t u \<and> (\<exists>ws. vm_segqueue (vs_arena u a) = ws @ p # zs \<and> ws \<noteq> [] \<and>
        last ws \<notin> of_type SEGMENT_FREE (vs_seg u) {p} (vs_arena u a) \<and>
        (zs \<noteq> [] \<longrightarrow> hd zs \<notin> of_type SEGMENT_FREE (vs_seg u) {p} (vs_arena u a)))"
      then have m: "merge_post a p ?s1 u" using t(1) merge_post_trans by blast
      have "touches a {p} ?s0 u" using m t1 touches_trans by (fastforce simp: merge_post_def)
      moreover have "segments a u = segments a s" "pool_excess u = 0"
        using m ok by (auto simp: merge_post_def segments_def pool_excess_def)
      moreover have "p \<in># segments a s" using pq by (simp add: segments_def)
      ultimately show "\<exists>xs ys. merged a p addr sz xs ys s u"
        using u m views unfolding merged_def merge_post_def by auto
    qed
  qed
  show ?thesis
    unfolding vmem_xfree_def
    using ready p
  proof (simp add: wp runs_to_arena_lock runs_to_arena_unlock ready_def quiet_def runs_to_seglist_remove,
      intro runs_to_mono [OF right], goal_cases)
    case (1 x t)
    then obtain zs where zs: "merge_post a p ?s1 t" "vm_segqueue (vs_arena t a) = xs @ p # zs"
      "zs \<noteq> [] \<longrightarrow> hd zs \<notin> of_type SEGMENT_FREE (vs_seg t) {p} (vs_arena t a)" by auto
    show ?case
    proof (rule runs_to_mono [OF left [OF zs]], elim exE, goal_cases)
      case (1 y u ws vs)
      show ?case by (rule runs_to_mono [OF rel [OF 1]]) (simp add: arena_upd_def comp_def)
    qed
  qed
qed

text \<open>The last steps, from the segment put back to the lock released.\<close>

lemma free_post_unlock:
  assumes ready: "ready a s" and inv: "vmem_inv a s" and m: "merged a p addr sz xs ys s t"
    and r: "release_post a p t u"
    and v: "v = (arena_upd a (\<lambda>vm. vm\<lparr>vm_stat := (vm_stat vm)\<lparr>st_in_use := st_in_use (vm_stat vm) - sz,
                 st_free := st_free (vm_stat vm) + sz\<rparr>, vm_lock := False\<rparr>) u)\<lparr>vs_irql := vs_irql s\<rparr>"
  shows "free_post a addr sz s v"
proof -
  note m = m [unfolded merged_def] and r = r [unfolded release_post_def]
  let ?s0 = "arena_upd a (\<lambda>vm. vm\<lparr>vm_lock := True\<rparr>) (s\<lparr>vs_irql := IRQL_DISPATCH\<rparr>)"
  have tc: "touches a {p} ?s0 u" using m r touches_trans by blast
  have "segments a v = segments a u" by (simp add: segments_def v)
  then have seg: "segments a v = segments a s" using m r by simp
  then have "mset (vs_free_segs v @ vm_segqueue (vs_arena v a)) = mset (vs_free_segs s @ vm_segqueue (vs_arena s a))"
    by (simp add: segments_def)
  then have "distinct (vs_free_segs v @ vm_segqueue (vs_arena v a))"
    using inv unfolding vmem_inv_def by (metis mset_eq_imp_distinct_iff)
  moreover have "pool_excess v = 0" using m r by (simp add: pool_excess_def v)
  moreover have "arena_ok (vs_seg v) {} (vs_arena v a)" using r by (simp add: v)
  ultimately have inv': "vmem_inv a v" by (simp add: vmem_inv_def)
  have cfg: "same_config (vs_arena s a) (vs_arena v a)"
    using tc ready same_config_unlock [of "vs_arena s a" "vs_arena u a"]
    by (cases "vs_arena u a") (simp add: touches_def v ready_def same_config_def)
  have frame: "vs_seg v x = vs_seg s x" if "x \<notin># segments a v" for x
  proof -
    have "x \<noteq> p" using that m seg by auto
    then show ?thesis using tc by (simp add: touches_def v)
  qed
  show ?thesis
    unfolding free_post_def using inv' seg cfg frame m r tc ready
    by (simp add: v touches_def ready_def quiet_def)
qed

lemma vmem_xfree_correct:
  assumes inv: "vmem_inv a s" and ready: "ready a s" and al: "(addr, sz) \<in> allocs a s"
    and own: "vm_free (vs_arena s a) = None"
  shows "runs_to (vmem_xfree env a addr sz) s (\<lambda>_ t. free_post a addr sz s t \<and>
     free_addrs a t = free_addrs a s \<union> {unat addr..<unat addr + unat sz})"
proof (rule xfree_until_release [OF inv ready al], goal_cases)
  case (1 p t xs ys)
  note m = 1 [unfolded merged_def]
  have "\<not> spans_match a p (last xs) t"
  proof -
    have "vm_free (vs_arena t a) = vm_free (vs_arena s a)"
      using m same_configD(3) [of "(vs_arena s a)\<lparr>vm_lock := True\<rparr>" "vs_arena t a"] by (simp add: touches_def)
    then show ?thesis using own by (simp add: spans_match_def)
  qed
  then have rel: "runs_to (xfree_release env a p) t (\<lambda>_ u. release_post a p t u \<and>
     free_space (vs_seg u) {} (vs_arena u a) =
       free_space (vs_seg t) {p} (vs_arena t a) \<union> seg_range (vs_seg t p))"
    using m by (intro release_ok [where xs = xs and ys = ys]) auto
  show ?case
  proof (rule runs_to_mono [OF rel], elim conjE, intro conjI, goal_cases)
    case (1 x u)
    then show ?case using free_post_unlock [OF ready inv \<open>merged a p addr sz xs ys s t\<close> _ refl] by simp
  next
    case (2 x u)
    then show ?case using m by simp
  next
    case (3 x u)
    then show ?case using m ready by (simp add: release_post_def touches_def ready_def quiet_def)
  qed
qed

end
