(* ===== verification/Vmem_Span.thy ===== *)
theory Vmem_Span
  imports Vmem_Free
begin

text \<open>
  Spans: \<open>vmem_init\<close> and \<open>vmem_add\<close>, the plain \<open>vmem_alloc\<close> on top of \<open>vmem_xalloc\<close>, and the
  allocation that has to import a span first.
\<close>

section \<open>Adding a span\<close>

definition span_ok :: "Vmem \<Rightarrow> u64 \<Rightarrow> u64 \<Rightarrow> bool" where
  "span_ok vm base sz \<longleftrightarrow> 0 < unat sz \<and> unat base + unat sz < 2 ^ 64 \<and>
     unat (vm_quantum vm) dvd unat base \<and> unat (vm_quantum vm) dvd unat sz"

definition range_unused :: "(u64 \<Rightarrow> VmemSegment) \<Rightarrow> Vmem \<Rightarrow> u64 \<Rightarrow> u64 \<Rightarrow> bool" where
  "range_unused sg vm base sz \<longleftrightarrow>
     (\<forall>r \<in> set (vm_segqueue vm). sg_type (sg r) \<noteq> SEGMENT_SPAN \<longrightarrow>
        seg_range (sg r) \<inter> {unat base..<unat base + unat sz} = {})"

definition add_post :: "arena \<Rightarrow> u64 \<Rightarrow> u64 \<Rightarrow> 'w vst \<Rightarrow> u64 \<Rightarrow> 'w vst \<Rightarrow> bool" where
  "add_post a base sz s r t \<longleftrightarrow>
     vmem_inv a t \<and> r \<in> free_segments a t \<and> sg_base (vs_seg t r) = base \<and> sg_size (vs_seg t r) = sz \<and>
     allocs a t = allocs a s \<and> free_addrs a t = free_addrs a s \<union> {unat base..<unat base + unat sz} \<and>
     free_segments a t = insert r (free_segments a s) \<and>
     segments a t = segments a s \<and> vm_stat (vs_arena t a) = vm_stat (vs_arena s a) \<and>
     length (vs_free_segs s) = length (vs_free_segs t) + 2 \<and>
     touches a (set (vs_free_segs s)) s t"

lemma vmem_add_internal_correct:
  assumes inv: "vmem_inv a s" and quiet: "quiet s" and pool: "2 \<le> length (vs_free_segs s)"
    and span: "span_ok (vs_arena s a) base sz" and unused: "range_unused (vs_seg s) (vs_arena s a) base sz"
  shows "runs_to (vmem_add_internal a base sz imp) s (add_post a base sz s)"
proof -
  note ok = inv [unfolded vmem_inv_def]
  obtain sp fr rs where fs: "vs_free_segs s = sp # fr # rs"
    using pool by (metis Suc_le_length_iff numeral_2_eq_2)
  let ?q = "vm_segqueue (vs_arena s a)"
  have n: "sp \<notin> set ?q" "fr \<notin> set ?q" "sp \<noteq> fr" using ok fs by auto
  define gs where "gs = (vs_seg s sp)\<lparr>sg_base := base, sg_size := sz, sg_type := SEGMENT_SPAN, sg_imported := imp\<rparr>"
  define gf where "gf = (vs_seg s fr)\<lparr>sg_base := base, sg_size := sz, sg_type := SEGMENT_FREE\<rparr>"
  define sg where "sg = (vs_seg s)(sp := gs, fr := gf)"
  let ?vm1 = "(vs_arena s a)\<lparr>vm_segqueue := ?q @ [sp, fr]\<rparr>"
  let ?vm = "?vm1\<lparr>vm_freelist := LIST_PUSH (freelist_key sg fr) fr (vm_freelist ?vm1)\<rparr>"
  have rg: "seg_range gs = {unat base..<unat base + unat sz}" by (simp add: gs_def seg_range_def lo_def hi_def)
  have ad: "arena_ok sg {fr} ?vm1"
    and tv: "ty \<noteq> SEGMENT_SPAN \<Longrightarrow> of_type ty sg {fr} ?vm1 = of_type ty (vs_seg s) {} (vs_arena s a)" for ty
    using arena_add_span [OF conjunct1 [OF ok] n, of gs gf] span unused rg
    by (auto simp: sg_def gs_def gf_def lo_def hi_def span_ok_def range_unused_def grained_def)
  have fr: "sg_type (sg fr) = SEGMENT_FREE" "seg_range (sg fr) = {unat base..<unat base + unat sz}"
    by (simp_all add: sg_def gf_def seg_range_def lo_def hi_def)
  have sp: "sp \<notin> of_type SEGMENT_FREE sg {fr} ?vm1" using n by (simp add: of_type_def sg_def gs_def)
  have ok': "arena_ok sg {} ?vm"
    using arena_attach_free [OF ad _ fr(1), of "?q @ [sp]" "[]"] sp by simp
  have old: "sg r = vs_seg s r" if "r \<in> of_type ty (vs_seg s) {} (vs_arena s a)" for r ty
    using that n by (auto simp: of_type_def sg_def)
  have al: "allocations sg {} ?vm = allocs a s"
    using allocations_attach_free [of fr "{fr}" ?vm1 ?vm sg] fr
      view_cong(1) [OF tv [of SEGMENT_ALLOCATED] old [of _ SEGMENT_ALLOCATED]] by simp
  have fsp: "free_space sg {} ?vm = free_addrs a s \<union> {unat base..<unat base + unat sz}"
    using free_space_attach [of fr "{fr}" ?vm1 ?vm sg] fr
      view_cong(2) [OF tv [of SEGMENT_FREE] old [of _ SEGMENT_FREE]] by simp
  have F: "of_type SEGMENT_FREE sg {} ?vm = insert fr (free_segments a s)"
    using of_type_attach [of fr "{fr}" ?vm1 ?vm SEGMENT_FREE sg] fr tv [of SEGMENT_FREE] by simp
  have q: "insert_after sp fr (?q @ [sp]) = ?q @ [sp, fr]" using n insert_after_append [of sp ?q fr "[]"] by simp
  have s2: "2 \<le> unat sz" using arena_size_ge2 [OF ok', of fr] by (simp add: sg_def gf_def)
  have q1: "quiet (seg_upd sp g (s\<lparr>vs_free_segs := fr # rs, vs_nfreesegs := nf\<rparr>))" for g nf
    using quiet by (simp add: quiet_def)
  have "runs_to (vmem_add_internal a base sz imp) s (\<lambda>r t. r = fr \<and> vs_seg t = sg \<and>
      vs_arena t = (vs_arena s)(a := ?vm) \<and>
      same_rest (s\<lparr>vs_free_segs := rs, vs_nfreesegs := vs_nfreesegs s - 2\<rparr>) t)"
    using fs n s2 q
    by (simp add: vmem_add_internal_def wp runs_to_seg_alloc quiet q1 runs_to_insert_segment
        runs_to_add_to_freelist same_rest_def sg_def gs_def gf_def fun_upd_twist vm_upd_order)
  then show ?thesis
  proof (rule runs_to_mono, elim conjE, goal_cases)
    case (1 r t)
    then have t: "r = fr" "vs_seg t = sg" "vs_arena t a = ?vm" "vs_free_segs t = rs"
      "vs_nfreesegs t = vs_nfreesegs s - 2" by (simp_all add: same_rest_def)
    have "vmem_inv a t" using ok ok' fs n by (auto simp: vmem_inv_def t pool_excess_def)
    moreover have "touches a (set (vs_free_segs s)) s t"
      using 1 fs by (simp add: touches_def same_config_def same_rest_def sg_def)
    moreover have "segments a t = segments a s" by (simp add: segments_def t fs)
    ultimately show ?case
      using al fsp F fs by (simp add: add_post_def t sg_def gf_def)
  qed
qed

section \<open>Setting up an arena\<close>

definition fresh_arena :: "Vmem \<Rightarrow> bool" where
  "fresh_arena vm \<longleftrightarrow> vm_segqueue vm = [] \<and> vm_freelist vm = replicate FREELISTS_N [] \<and>
     vm_hashtable vm = replicate HASHTABLES_N [] \<and> P2CHECK (vm_quantum vm) \<and> vm_quantum vm \<ge> 2"

lemma fresh_arena_ok:
  assumes "fresh_arena vm"
  shows "arena_ok sg {} vm" and "allocations sg {} vm = {}" and "free_space sg {} vm = {}"
    and "of_type ty sg {} vm = {}"
proof -
  show t: "of_type ty sg {} vm = {}" for ty using assms by (simp add: of_type_def fresh_arena_def)
  show "arena_ok sg {} vm"
    using assms unfolding arena_ok_def t by (simp add: fresh_arena_def tiled_def coalesced_def bucket_empty)
  show "allocations sg {} vm = {}" "free_space sg {} vm = {}"
    by (simp_all add: allocations_def free_space_def t)
qed

definition pool_ok :: "'w vst \<Rightarrow> bool" where
  "pool_ok s \<longleftrightarrow> quiet s \<and> distinct (vs_free_segs s) \<and> pool_excess s = 0"

lemma vmem_init_correct:
  assumes pool: "pool_ok s" "2 \<le> length (vs_free_segs s)" and name: "length nm < 64"
    and qu: "P2CHECK quantum" "quantum \<ge> 2"
    and sp: "0 < unat sz" "unat base + unat sz < 2 ^ 64" "unat quantum dvd unat base" "unat quantum dvd unat sz"
  shows "runs_to (vmem_init a nm base sz quantum afunc ffunc None qcache_max vmflag) s
    (\<lambda>r t. r = 0 \<and> vmem_inv a t \<and> ready a t \<and> allocs a t = {} \<and>
       free_addrs a t = {unat base..<unat base + unat sz} \<and>
       (\<exists>r. free_segments a t = {r} \<and> sg_base (vs_seg t r) = base \<and> sg_size (vs_seg t r) = sz) \<and>
       (\<forall>b. b \<noteq> a \<longrightarrow> vs_arena t b = vs_arena s b) \<and>
       length (vs_free_segs s) = length (vs_free_segs t) + 2 \<and>
       vm_quantum (vs_arena t a) = quantum \<and> vm_alloc (vs_arena t a) = afunc \<and>
       vm_free (vs_arena t a) = ffunc \<and> st_in_use (vm_stat (vs_arena t a)) = 0 \<and> st_free (vm_stat (vs_arena t a)) = 2 * sz \<and>
       st_total (vm_stat (vs_arena t a)) = st_total (vm_stat (vs_arena s a)) + 2 * sz)"
proof -
  define vm where "vm = (vs_arena s a)\<lparr>
         vm_name := nm, vm_base := base, vm_size := sz, vm_quantum := quantum,
         vm_alloc := afunc, vm_free := ffunc, vm_source := None,
         vm_qcache_max := qcache_max, vm_vmflag := vmflag, vm_lock := False,
         vm_stat := (vm_stat (vs_arena s a))\<lparr>st_free := sz, st_total := st_total (vm_stat (vs_arena s a)) + sz,
                      st_in_use := 0, st_import := 0\<rparr>,
         vm_spanlist := [], vm_segqueue := [],
         vm_freelist := replicate FREELISTS_N [],
         vm_hashtable := replicate HASHTABLES_N []\<rparr>"
  define vm2 where "vm2 = vm\<lparr>vm_stat := (vm_stat vm)\<lparr>st_free := st_free (vm_stat vm) + sz,
               st_total := st_total (vm_stat vm) + sz\<rparr>\<rparr>"
  let ?u = "s\<lparr>vs_arena := (vs_arena s)(a := vm2)\<rparr>"
  have fresh: "fresh_arena vm2" using qu by (simp add: fresh_arena_def vm2_def vm_def)
  have q2: "vm_segqueue vm2 = []" using fresh by (simp add: fresh_arena_def)
  have inv: "vmem_inv a ?u"
    using pool fresh_arena_ok(1) [OF fresh] q2 by (simp add: vmem_inv_def pool_ok_def pool_excess_def)
  have "runs_to (vmem_add_internal a base sz False) ?u (add_post a base sz ?u)"
    using inv pool sp q2 by (intro vmem_add_internal_correct)
      (simp_all add: pool_ok_def quiet_def span_ok_def range_unused_def vm2_def vm_def)
  then have add: "runs_to (vmem_add_internal a base sz False) ?u (\<lambda>r t. vmem_inv a t \<and> ready a t \<and>
       allocs a t = {} \<and> free_addrs a t = {unat base..<unat base + unat sz} \<and>
       (\<exists>r. free_segments a t = {r} \<and> sg_base (vs_seg t r) = base \<and> sg_size (vs_seg t r) = sz) \<and>
       (\<forall>b. b \<noteq> a \<longrightarrow> vs_arena t b = vs_arena s b) \<and> length (vs_free_segs s) = length (vs_free_segs t) + 2 \<and>
       vm_stat (vs_arena t a) = vm_stat vm2 \<and> vm_quantum (vs_arena t a) = quantum \<and>
       vm_alloc (vs_arena t a) = afunc \<and> vm_free (vs_arena t a) = ffunc)"
  proof (rule runs_to_mono, goal_cases)
    case (1 r t)
    have "vm_lock (vs_arena t a) = vm_lock vm2" "vm_quantum (vs_arena t a) = vm_quantum vm2"
      "vm_alloc (vs_arena t a) = vm_alloc vm2" "vm_free (vs_arena t a) = vm_free vm2"
      using 1 same_configD [of vm2 "vs_arena t a"] by (simp_all add: add_post_def touches_def)
    with 1 show ?case
      using fresh_arena_ok [OF fresh] pool
      by (simp add: add_post_def touches_def ready_def quiet_def pool_ok_def vm2_def vm_def)
  qed
  have upd: "arena_upd a (\<lambda>vm. vm\<lparr>vm_stat := (vm_stat vm)\<lparr>st_free := st_free (vm_stat vm) + sz,
               st_total := st_total (vm_stat vm) + sz\<rparr>\<rparr>) (s\<lparr>vs_arena := (vs_arena s)(a := vm)\<rparr>) = ?u"
    by (simp add: arena_upd_def vm2_def)
  have ini: "arena_upd a (\<lambda>vm. vm\<lparr>
         vm_name := nm, vm_base := base, vm_size := sz, vm_quantum := quantum,
         vm_alloc := afunc, vm_free := ffunc, vm_source := None,
         vm_qcache_max := qcache_max, vm_vmflag := vmflag, vm_lock := False,
         vm_stat := (vm_stat vm)\<lparr>st_free := sz, st_total := st_total (vm_stat vm) + sz,
                      st_in_use := 0, st_import := 0\<rparr>,
         vm_spanlist := [], vm_segqueue := [],
         vm_freelist := replicate FREELISTS_N [],
         vm_hashtable := replicate HASHTABLES_N []\<rparr>) s = s\<lparr>vs_arena := (vs_arena s)(a := vm)\<rparr>"
    by (simp add: arena_upd_def vm_def)
  have c: "vm_segqueue vm = []" by (simp add: vm_def)
  have sz0: "sz \<noteq> 0" using sp(1) by auto
  show ?thesis
    using name sz0
    by (simp add: vmem_init_def wp vmem_add_def vmem_contains_def ini upd c Let_def)
       (rule runs_to_mono [OF add], simp add: vm2_def vm_def)
qed

section \<open>Plain allocation\<close>

lemma vmem_xalloc_default_align:
  assumes "vm_quantum (vs_arena s a) = q" and "q \<noteq> 0"
  shows "vmem_xalloc env a sz 0 phase nocross minaddr maxaddr vmflag s =
         vmem_xalloc env a sz q phase nocross minaddr maxaddr vmflag s"
  using assms
  by (simp add: vmem_xalloc_def kbind_def kthen_def arena_lock_def spinlock_acquire_raise_def irql_raise_def
      spinlock_acquire_def kget_def kmodify_def kassert_def kreturn_def kfail_def kguard_def freelist_for_size_def Let_def
      split: sum.splits prod.splits)

text \<open>With the quantum as alignment and no bounds, any free segment that is large enough fits.\<close>

lemma plain_fit:
  assumes ok: "arena_ok (vs_seg s) {} (vs_arena s a)" and p: "p \<in> free_segments a s" "sz \<le> sg_size (vs_seg s p)"
  shows "fits (vs_seg s p) sz (vm_quantum (vs_arena s a)) 0 VMEM_ADDR_MIN VMEM_ADDR_MAX (lo (vs_seg s p))"
proof -
  have q: "p \<in> set (vm_segqueue (vs_arena s a))" using p by (simp add: of_type_def)
  have "unat VMEM_ADDR_MAX = 2 ^ 64 - 1" 
    by (simp add: VMEM_ADDR_MAX_def unsigned_minus_1_eq_mask mask_eq_exp_minus_1)
  moreover have "unat (vm_quantum (vs_arena s a)) dvd lo (vs_seg s p)"
    using arena_okD(7) [OF ok q] by (simp add: grained_def lo_def)
  ultimately show ?thesis
    using arena_nonempty(2) [OF ok q] p(2)
    by (auto simp: fits_def VMEM_ADDR_MIN_def lo_def hi_def word_le_nat_alt)
qed

lemma plain_no_wrap:
  assumes ok: "arena_ok sg {} vm"
  shows "no_wrap sg vm (vm_quantum vm) VMEM_ADDR_MIN"
  unfolding no_wrap_def
proof
  fix p assume "p \<in> of_type SEGMENT_FREE sg {} vm"
  then have q: "p \<in> set (vm_segqueue vm)" by (simp add: of_type_def)
  have "unat (vm_quantum vm) \<le> unat (sg_size (sg p))"
    using arena_okD(7) [OF ok q] arena_size_ge2 [OF ok q] by (intro dvd_imp_le) (auto simp: grained_def)
  then show "max (lo (sg p)) (unat VMEM_ADDR_MIN) + unat (vm_quantum vm) \<le> 2 ^ 64"
    using arena_nonempty(2) [OF ok q] by (simp add: VMEM_ADDR_MIN_def hi_def lo_def)
qed

lemma vmem_alloc_correct:
  assumes inv: "vmem_inv a s" and ready: "ready a s" and fuel: "0 < ve_fuel env"
    and refill: "refill_ok env a vmflag s"
    and sz: "0 < unat sz" "unat (vm_quantum (vs_arena s a)) dvd unat sz"
    and p: "p \<in> free_segments a s" "sz \<le> sg_size (vs_seg s p)"
  shows "runs_to (vmem_alloc env a sz vmflag) s (\<lambda>addr t. alloc_post a sz s addr t \<and>
     (\<exists>new. refilled env s new (vs_world t) \<and> segments a t = mset new + segments a s))"
proof -
  let ?q = "vm_quantum (vs_arena s a)"
  have ok: "arena_ok (vs_seg s) {} (vs_arena s a)" using inv by (simp add: vmem_inv_def)
  have q0: "?q \<noteq> 0" using arena_okD(9) [OF ok] by auto
  have req: "request_ok (vs_arena s a) sz ?q 0"
    using sz q0 arena_okD(8) [OF ok] by (simp add: request_ok_def)
  have "runs_to (vmem_xalloc env a sz ?q 0 0 VMEM_ADDR_MIN VMEM_ADDR_MAX vmflag) s (\<lambda>addr t. alloc_post a sz s addr t \<and>
     (\<exists>new. refilled env s new (vs_world t) \<and> segments a t = mset new + segments a s))"
    by (rule runs_to_mono [OF vmem_xalloc_correct [OF inv ready fuel refill req plain_no_wrap [OF ok] p(1)
          plain_fit [OF ok p]]]) simp
  then show ?thesis
    using vmem_xalloc_default_align [OF refl q0, of env sz 0 0 VMEM_ADDR_MIN VMEM_ADDR_MAX vmflag]
    by (simp add: runs_to_def vmem_alloc_def)
qed

section \<open>No two allocations overlap\<close>

lemma allocs_disjoint:
  assumes inv: "vmem_inv a s" and b: "(b1, n1) \<in> allocs a s" "(b2, n2) \<in> allocs a s" "(b1, n1) \<noteq> (b2, n2)"
  shows "{unat b1..<unat b1 + unat n1} \<inter> {unat b2..<unat b2 + unat n2} = {}"
proof -
  have ok: "arena_ok (vs_seg s) {} (vs_arena s a)" using inv by (simp add: vmem_inv_def)
  obtain p r where p: "p \<in> of_type SEGMENT_ALLOCATED (vs_seg s) {} (vs_arena s a)" "sg_base (vs_seg s p) = b1" "sg_size (vs_seg s p) = n1"
    and r: "r \<in> of_type SEGMENT_ALLOCATED (vs_seg s) {} (vs_arena s a)" "sg_base (vs_seg s r) = b2" "sg_size (vs_seg s r) = n2"
    using b(1,2) by (auto simp: allocations_def)
  have "seg_range (vs_seg s p) \<inter> seg_range (vs_seg s r) = {}"
    using p r b(3) by (intro arena_disjoint [OF ok]) (auto simp: of_type_def)
  with p r show ?thesis by (simp add: seg_range_def lo_def hi_def)
qed

lemma alloc_not_free:
  assumes inv: "vmem_inv a s" and b: "(b, n) \<in> allocs a s"
  shows "{unat b..<unat b + unat n} \<inter> free_addrs a s = {}" and "0 < unat n"
proof -
  have ok: "arena_ok (vs_seg s) {} (vs_arena s a)" using inv by (simp add: vmem_inv_def)
  obtain p where p: "p \<in> of_type SEGMENT_ALLOCATED (vs_seg s) {} (vs_arena s a)" "sg_base (vs_seg s p) = b" "sg_size (vs_seg s p) = n"
    using b by (auto simp: allocations_def)
  have "seg_range (vs_seg s p) \<inter> seg_range (vs_seg s r) = {}" if "r \<in> free_segments a s" for r
    using p that by (intro arena_disjoint [OF ok]) (auto simp: of_type_def)
  then show "{unat b..<unat b + unat n} \<inter> free_addrs a s = {}"
  proof -
    have "{unat b..<unat b + unat n} = seg_range (vs_seg s p)" using p by (simp add: seg_range_def lo_def hi_def)
    with \<open>\<And>r. r \<in> free_segments a s \<Longrightarrow> seg_range (vs_seg s p) \<inter> seg_range (vs_seg s r) = {}\<close>
    show ?thesis by (simp add: free_space_def Int_UN_distrib)
  qed
  show "0 < unat n" using arena_size_ge2 [OF ok, of p] p by (simp add: of_type_def)
qed

lemma vmem_alloc_free_roundtrip:
  assumes inv: "vmem_inv a s" and ready: "ready a s" and fuel: "0 < ve_fuel env"
    and refill: "refill_ok env a vmflag s" and own: "vm_free (vs_arena s a) = None"
    and sz: "0 < unat sz" "unat (vm_quantum (vs_arena s a)) dvd unat sz"
    and p: "p \<in> free_segments a s" "sz \<le> sg_size (vs_seg s p)"
  shows "runs_to (kbind (vmem_alloc env a sz vmflag) (\<lambda>addr. vmem_free env a addr sz)) s
    (\<lambda>_ t. vmem_inv a t \<and> ready a t \<and> allocs a t = allocs a s \<and> free_addrs a t = free_addrs a s \<and>
       st_free (vm_stat (vs_arena t a)) = st_free (vm_stat (vs_arena s a)) \<and>
       st_in_use (vm_stat (vs_arena t a)) = st_in_use (vm_stat (vs_arena s a)))"
  unfolding runs_to_kbind
proof (rule runs_to_mono [OF vmem_alloc_correct [OF inv ready fuel refill sz p]], goal_cases)
  case (1 addr t)
  note post = conjunct1 [OF 1, unfolded alloc_post_def]
  have own': "vm_free (vs_arena t a) = None"
    using post own same_configD(3) [of "vs_arena s a" "vs_arena t a"] by simp
  have al: "(addr, sz) \<in> allocs a t" using post by simp
  have fresh: "(addr, sz) \<notin> allocs a s"
  proof
    assume "(addr, sz) \<in> allocs a s"
    then have "{unat addr..<unat addr + unat sz} \<inter> free_addrs a s = {}" by (rule alloc_not_free [OF inv])
    moreover have "unat addr \<in> {unat addr..<unat addr + unat sz}" using sz(1) by simp
    ultimately show False using post by blast
  qed
  have "runs_to (vmem_xfree env a addr sz) t (\<lambda>_ u. free_post a addr sz t u \<and>
     free_addrs a u = free_addrs a t \<union> {unat addr..<unat addr + unat sz})"
    using post al own' by (intro vmem_xfree_correct) simp_all
  then show ?case
    unfolding vmem_free_def
    by (rule runs_to_mono) (use post fresh in \<open>auto simp: free_post_def\<close>)
qed

end
