(* ===== verification/Vmem_Props.thy ===== *)
theory Vmem_Props
  imports Vmem_Span
begin

text \<open>
  The properties of the resource allocator, with an instance of each on a small arena: sixteen
  pages at \<open>0x100000\<close>, set up by \<open>vmem_init\<close> from a pool of 128 segments as \<open>vmem_bootstrap\<close>
  leaves it.
\<close>

section \<open>A small arena\<close>

definition demo_pool :: "unit vst" where
  "demo_pool = \<lparr>
     vs_seg = (\<lambda>_. \<lparr>sg_type = SEGMENT_ALLOCATED, sg_imported = False, sg_base = 0, sg_size = 0\<rparr>),
     vs_free_segs = map (\<lambda>i. 0x8000 + of_nat i * sizeof_VmemSegment) [0..<128],
     vs_nfreesegs = 128, vs_glock = False,
     vs_arena = (\<lambda>_. \<lparr>vm_name = [], vm_base = 0, vm_size = 0, vm_quantum = 0, vm_alloc = None, vm_free = None,
        vm_source = None, vm_qcache_max = 0, vm_vmflag = 0, vm_lock = False, vm_segqueue = [], vm_freelist = [],
        vm_hashtable = [], vm_spanlist = [],
        vm_stat = \<lparr>st_in_use = 0, st_import = 0, st_total = 0, st_alloc = 0, st_free = 0\<rparr>\<rparr>),
     vs_irql = 0, vs_world = ()\<rparr>"

definition demo_env :: "unit vmem_env" where
  "demo_env = \<lparr>ve_page = (\<lambda>w. Inl OutOfFuel), ve_alloc = (\<lambda>_ _ _ _. kfail Undefined),
               ve_free = (\<lambda>_ _ _ _. kfail Undefined), ve_fuel = 1\<rparr>"

definition demo_init :: "(unit vst, int) km" where
  "demo_init = vmem_init 0 ''demo'' 0x100000 0x10000 0x1000 None None None 0 0"

definition demo_arena :: "unit vst" where
  "demo_arena = (case demo_init demo_pool of Inr (_, s) \<Rightarrow> s | Inl _ \<Rightarrow> demo_pool)"

lemma demo_pool_ok: "pool_ok demo_pool" "length (vs_free_segs demo_pool) = 128"
proof -
  have "inj_on (\<lambda>i. 0x8000 + of_nat i * sizeof_VmemSegment) {0..<128}"
  proof (rule inj_onI)
    fix i j :: nat assume ij: "i \<in> {0..<128}" "j \<in> {0..<128}"
      and "0x8000 + of_nat i * sizeof_VmemSegment = 0x8000 + of_nat j * sizeof_VmemSegment"
    then have "(of_nat (i * 56) :: u64) = of_nat (j * 56)" by (simp add: sizeof_VmemSegment_def)
    then have "unat (of_nat (i * 56) :: u64) = unat (of_nat (j * 56) :: u64)" by simp
    moreover have "unat (of_nat (n * 56) :: u64) = n * 56" if "n < 128" for n
      using that unat_of_nat [where 'a = 64, of "n * 56"] by simp
    ultimately show "i = j" using ij by simp
  qed
  then show "pool_ok demo_pool"
    by (simp add: pool_ok_def quiet_def demo_pool_def pool_excess_def distinct_map IRQL_DISPATCH_def)
  show "length (vs_free_segs demo_pool) = 128" by (simp add: demo_pool_def)
qed

lemma demo_init_runs: "runs_to demo_init demo_pool (\<lambda>r t. t = demo_arena)"
proof -
  have "runs_to demo_init demo_pool (\<lambda>_ _. True)"
    unfolding demo_init_def
    by (rule runs_to_mono [OF vmem_init_correct]) (simp_all add: demo_pool_ok P2CHECK_def)
  then show ?thesis by (auto simp: runs_to_def demo_arena_def)
qed

lemma demo_arena_facts:
  "vmem_inv 0 demo_arena" "ready 0 demo_arena" "allocs 0 demo_arena = {}"
  "free_addrs 0 demo_arena = {0x100000..<0x110000}"
  "\<exists>r. free_segments 0 demo_arena = {r} \<and> sg_base (vs_seg demo_arena r) = 0x100000 \<and> sg_size (vs_seg demo_arena r) = 0x10000"
  "length (vs_free_segs demo_arena) = 126" "vm_quantum (vs_arena demo_arena 0) = 0x1000"
  "vm_free (vs_arena demo_arena 0) = None"
proof -
  have "runs_to demo_init demo_pool (\<lambda>r t. vmem_inv 0 t \<and> ready 0 t \<and> allocs 0 t = {} \<and>
       free_addrs 0 t = {0x100000..<0x110000} \<and>
       (\<exists>r. free_segments 0 t = {r} \<and> sg_base (vs_seg t r) = 0x100000 \<and> sg_size (vs_seg t r) = 0x10000) \<and>
       length (vs_free_segs t) = 126 \<and> vm_quantum (vs_arena t 0) = 0x1000 \<and> vm_free (vs_arena t 0) = None)"
    unfolding demo_init_def
    by (rule runs_to_mono [OF vmem_init_correct]) (simp_all add: demo_pool_ok P2CHECK_def)
  then show "vmem_inv 0 demo_arena" "ready 0 demo_arena" "allocs 0 demo_arena = {}"
    "free_addrs 0 demo_arena = {0x100000..<0x110000}"
    "\<exists>r. free_segments 0 demo_arena = {r} \<and> sg_base (vs_seg demo_arena r) = 0x100000 \<and> sg_size (vs_seg demo_arena r) = 0x10000"
    "length (vs_free_segs demo_arena) = 126" "vm_quantum (vs_arena demo_arena 0) = 0x1000"
    "vm_free (vs_arena demo_arena 0) = None"
    using demo_init_runs by (auto simp: runs_to_def)
qed

lemma demo_refill: "refill_ok demo_env 0 VM_BOOTSTRAP demo_arena"
  by (simp add: refill_ok_def demo_arena_facts VM_BOOTSTRAP_def)

lemma demo_room: "\<exists>p \<in> free_segments 0 demo_arena. 0x2000 \<le> sg_size (vs_seg demo_arena p)"
  using demo_arena_facts(5) by auto

lemma demo_alloc: "runs_to (vmem_alloc demo_env 0 0x2000 VM_BOOTSTRAP) demo_arena (alloc_post 0 0x2000 demo_arena)"
proof -
  obtain p where p: "p \<in> free_segments 0 demo_arena" "0x2000 \<le> sg_size (vs_seg demo_arena p)" using demo_room by blast
  show ?thesis
    by (rule runs_to_mono [OF vmem_alloc_correct])
      (use demo_arena_facts(1,2,7) demo_refill p in \<open>simp_all add: demo_env_def\<close>)
qed

section \<open>Allocation\<close>

text \<open>C1: \<open>vmem_alloc\<close> on an arena that satisfies the invariant and has a free segment large
  enough returns; the range it returns was free, it is recorded as allocated and no longer
  free, nothing else of the arena's contents changes, the invariant still holds, the lock and the
  interrupt level are as before, the statistics account for the range, and no segment descriptor
  of the pool or of the arena is lost. Other arenas, and descriptors of other arenas, are not
  touched.\<close>

theorem vmem_alloc_takes_free_range:
  assumes "vmem_inv a s" and "ready a s" and "0 < ve_fuel env" and "refill_ok env a vmflag s"
    and "0 < unat sz" and "unat (vm_quantum (vs_arena s a)) dvd unat sz"
    and "\<exists>p \<in> free_segments a s. sz \<le> sg_size (vs_seg s p)"
  shows "runs_to (vmem_alloc env a sz vmflag) s (\<lambda>addr t.
     vmem_inv a t \<and> ready a t \<and> vs_irql t = vs_irql s \<and>
     {unat addr..<unat addr + unat sz} \<subseteq> free_addrs a s \<and>
     allocs a t = insert (addr, sz) (allocs a s) \<and>
     free_addrs a t = free_addrs a s - {unat addr..<unat addr + unat sz} \<and>
     st_in_use (vm_stat (vs_arena t a)) = st_in_use (vm_stat (vs_arena s a)) + sz \<and>
     st_free (vm_stat (vs_arena t a)) = st_free (vm_stat (vs_arena s a)) - sz \<and>
     segments a s \<subseteq># segments a t \<and>
     (\<forall>b. b \<noteq> a \<longrightarrow> vs_arena t b = vs_arena s b) \<and>
     (\<forall>p. p \<notin># segments a t \<longrightarrow> vs_seg t p = vs_seg s p))"
proof -
  obtain p where p: "p \<in> free_segments a s" "sz \<le> sg_size (vs_seg s p)" using assms(7) by blast
  show ?thesis
    by (rule runs_to_mono [OF vmem_alloc_correct [OF assms(1-6) p]]) (simp add: alloc_post_def)
qed

theorem vmem_alloc_takes_free_range_witness:
  "runs_to (vmem_alloc demo_env 0 0x2000 VM_BOOTSTRAP) demo_arena (\<lambda>addr t.
     {unat addr..<unat addr + 0x2000} \<subseteq> {0x100000..<0x110000} \<and>
     allocs 0 t = {(addr, 0x2000)} \<and> free_addrs 0 t = {0x100000..<0x110000} - {unat addr..<unat addr + 0x2000})"
  by (rule runs_to_mono [OF vmem_alloc_takes_free_range])
     (simp_all add: demo_arena_facts demo_refill demo_room demo_env_def [THEN arg_cong, of ve_fuel])



text \<open>C3: \<open>seg_fit\<close> decides exactly whether a segment has room for a request, and when it has,
  it returns the lowest possible address, provided that rounding the start up to the alignment
  does not wrap around.\<close>

theorem seg_fit_lowest:
  assumes "hi g < 2 ^ 64" and "0 < sz" and "sz \<le> sg_size g" and "k < 64"
    and "max (lo g) (unat minaddr) + 2 ^ k \<le> 2 ^ 64"
  shows "runs_to (seg_fit g sz (2 ^ k) phase 0 minaddr maxaddr) s (\<lambda>r t. t = s \<and>
     (case r of
        Some st \<Rightarrow> fits g sz (2 ^ k) phase minaddr maxaddr (unat st) \<and>
          (\<forall>x. fits g sz (2 ^ k) phase minaddr maxaddr x \<longrightarrow> unat st \<le> x)
      | None \<Rightarrow> \<forall>x. \<not> fits g sz (2 ^ k) phase minaddr maxaddr x))"
  using assms by (rule seg_fit_spec)

theorem seg_fit_lowest_witness:
  "runs_to (seg_fit \<lparr>sg_type = SEGMENT_FREE, sg_imported = False, sg_base = 0x1100, sg_size = 0x4000\<rparr>
       0x1000 (2 ^ 12) 0x200 0 0 VMEM_ADDR_MAX) () (\<lambda>r t. r = Some 0x1200) \<and>
   runs_to (seg_fit \<lparr>sg_type = SEGMENT_FREE, sg_imported = False, sg_base = 0x1100, sg_size = 0x4000\<rparr>
       0x1000 (2 ^ 12) 0x200 0 0 VMEM_ADDR_MAX) () (\<lambda>r t. t = () \<and>
     (case r of
        Some st \<Rightarrow> fits \<lparr>sg_type = SEGMENT_FREE, sg_imported = False, sg_base = 0x1100, sg_size = 0x4000\<rparr>
            0x1000 (2 ^ 12) 0x200 0 VMEM_ADDR_MAX (unat st) \<and>
          (\<forall>x. fits \<lparr>sg_type = SEGMENT_FREE, sg_imported = False, sg_base = 0x1100, sg_size = 0x4000\<rparr>
            0x1000 (2 ^ 12) 0x200 0 VMEM_ADDR_MAX x \<longrightarrow> unat st \<le> x)
      | None \<Rightarrow> \<forall>x. \<not> fits \<lparr>sg_type = SEGMENT_FREE, sg_imported = False, sg_base = 0x1100, sg_size = 0x4000\<rparr>
            0x1000 (2 ^ 12) 0x200 0 VMEM_ADDR_MAX x))"
proof
  show "runs_to (seg_fit \<lparr>sg_type = SEGMENT_FREE, sg_imported = False, sg_base = 0x1100, sg_size = 0x4000\<rparr>
       0x1000 (2 ^ 12) 0x200 0 0 VMEM_ADDR_MAX) () (\<lambda>r t. r = Some 0x1200)"
    by (simp add: seg_fit_def VMEM_ALIGNUP_def MAX_u64_def MIN_u64_def VMEM_ADDR_MAX_def wp Let_def)
qed (rule seg_fit_lowest; simp add: lo_def hi_def)

text \<open>C4: where the rounding does wrap around, \<open>seg_fit\<close> accepts a segment that cannot hold
  the request and returns an address outside of it: the correction for a start below the segment
  adds the alignment once and does not look again.\<close>

theorem seg_fit_wraps_outside:
  "\<exists>g sz align. P2CHECK align \<and> sz \<le> sg_size g \<and> hi g < 2 ^ 64 \<and>
     (\<forall>x. \<not> fits g sz align 0 0 VMEM_ADDR_MAX x) \<and>
     (\<exists>st. seg_fit g sz align 0 0 0 VMEM_ADDR_MAX s = Inr (Some st, s) \<and> unat st \<notin> seg_range g)"
proof (intro exI conjI)
  let ?g = "\<lparr>sg_type = SEGMENT_FREE, sg_imported = False, sg_base = 0xFFFFFFFFFFFF1000, sg_size = 0x3000\<rparr>"
  show "seg_fit ?g 0x1000 0x10000 0 0 0 VMEM_ADDR_MAX s = Inr (Some 0x10000, s)"
    by (rule seg_fit_wrapped)
  show "\<forall>x. \<not> fits ?g 0x1000 0x10000 0 0 VMEM_ADDR_MAX x"
  proof (intro allI notI)
    fix x assume f: "fits ?g 0x1000 0x10000 0 0 VMEM_ADDR_MAX x"
    define q where "q = x div 65536"
    have "x = 65536 * q" "18446744073709490176 \<le> x" "x \<le> 18446744073709498368"
      using f by (auto simp: fits_def lo_def hi_def q_def)
    then show False by (cases "q \<le> 281474976710655") linarith+
  qed
qed (simp_all add: P2CHECK_def hi_def lo_def seg_range_def)

section \<open>Freeing\<close>

text \<open>C5: \<open>vmem_free\<close> of an allocated range, in an arena that does not import, returns; the range
  is free again, every other allocation stays, free neighbours have been coalesced (the invariant
  forbids two adjacent free segments), and no descriptor is lost.\<close>

theorem vmem_free_returns_range:
  assumes "vmem_inv a s" and "ready a s" and "(addr, sz) \<in> allocs a s" and "vm_free (vs_arena s a) = None"
  shows "runs_to (vmem_free env a addr sz) s (\<lambda>_ t.
     vmem_inv a t \<and> ready a t \<and> vs_irql t = vs_irql s \<and>
     allocs a t = allocs a s - {(addr, sz)} \<and>
     free_addrs a t = free_addrs a s \<union> {unat addr..<unat addr + unat sz} \<and>
     st_in_use (vm_stat (vs_arena t a)) = st_in_use (vm_stat (vs_arena s a)) - sz \<and>
     st_free (vm_stat (vs_arena t a)) = st_free (vm_stat (vs_arena s a)) + sz \<and>
     segments a t = segments a s \<and>
     (\<forall>b. b \<noteq> a \<longrightarrow> vs_arena t b = vs_arena s b) \<and>
     (\<forall>p. p \<notin># segments a t \<longrightarrow> vs_seg t p = vs_seg s p))"
  unfolding vmem_free_def
  by (rule runs_to_mono [OF vmem_xfree_correct [OF assms]]) (simp add: free_post_def)

theorem vmem_free_returns_range_witness:
  "runs_to (kbind (vmem_alloc demo_env 0 0x2000 VM_BOOTSTRAP) (\<lambda>addr. vmem_free demo_env 0 addr 0x2000)) demo_arena
     (\<lambda>_ t. allocs 0 t = {} \<and> vmem_inv 0 t)"
proof -
  show ?thesis
    unfolding runs_to_kbind
  proof (rule runs_to_mono [OF demo_alloc], goal_cases)
    case (1 addr t)
    note post = 1 [unfolded alloc_post_def]
    have "vm_free (vs_arena t 0) = None"
      using post same_configD(3) [of "vs_arena demo_arena 0" "vs_arena t 0"] demo_arena_facts(8) by simp
    then show ?case
      using post demo_arena_facts(3) by (intro runs_to_mono [OF vmem_free_returns_range]) auto
  qed
qed



section \<open>Consistency\<close>



text \<open>C8: \<open>vmem_init\<close> of an arena with a span of its own establishes the invariant: nothing is
  allocated and the whole span is free. It counts the span twice, once itself and once through
  \<open>vmem_add\<close>: the free and total statistics are twice the size.\<close>

theorem vmem_init_establishes:
  assumes "pool_ok s" and "2 \<le> length (vs_free_segs s)" and "length nm < 64"
    and "P2CHECK quantum" and "quantum \<ge> 2"
    and "0 < unat sz" and "unat base + unat sz < 2 ^ 64"
    and "unat quantum dvd unat base" and "unat quantum dvd unat sz"
  shows "runs_to (vmem_init a nm base sz quantum afunc ffunc None qcache_max vmflag) s
    (\<lambda>r t. r = 0 \<and> vmem_inv a t \<and> ready a t \<and> allocs a t = {} \<and>
       free_addrs a t = {unat base..<unat base + unat sz} \<and>
       st_in_use (vm_stat (vs_arena t a)) = 0 \<and> st_free (vm_stat (vs_arena t a)) = 2 * sz \<and>
       st_total (vm_stat (vs_arena t a)) = st_total (vm_stat (vs_arena s a)) + 2 * sz)"
  by (rule runs_to_mono [OF vmem_init_correct [OF assms]]) simp

theorem vmem_init_establishes_witness:
  "runs_to (vmem_init 3 ''kernel-va'' 0x100000 0x10000 0x1000 None None None 0 0) demo_pool
     (\<lambda>r t. free_addrs 3 t = {0x100000..<0x110000} \<and> st_free (vm_stat (vs_arena t 3)) = 0x20000)"
  by (rule runs_to_mono [OF vmem_init_establishes]) (simp_all add: demo_pool_ok P2CHECK_def)

end
