(* ===== verification/Sys_Queue.thy ===== *)
theory Sys_Queue
  imports Prelude
begin

text \<open>
  The intrusive lists of \<^verbatim>\<open>include/sys/queue.h\<close>, at the level of pointers: \<open>TAILQ\<close>, \<open>LIST\<close>
  and \<open>SLIST\<close> are macros over link fields inside the elements, and every component of the
  kernel keeps its objects on them. The theory models the links, relates a head and its links
  to the list of elements it stands for, and shows that each macro does on the pointers what
  the corresponding list function does on that list. The other components then work on lists.

  Elements and heads are identified by their addresses (types \<open>'e\<close> and \<open>'h\<close>). A field of type
  pointer-to-pointer holds the address of a \<open>next\<close> field: that of a head or of an element.
\<close>

datatype ('h, 'e) nextloc = HeadFirst 'h | NextOf 'e

section \<open>Tail queues\<close>

record ('h, 'e) tailq =
  tqh_first :: "'h \<Rightarrow> 'e option"
  tqh_last :: "'h \<Rightarrow> ('h, 'e) nextloc"
  tqe_next :: "'e \<Rightarrow> 'e option"
  tqe_prev :: "'e \<Rightarrow> ('h, 'e) nextloc"

text \<open>Reading and writing through a pointer to a \<open>next\<close> field.\<close>

fun tq_deref :: "('h, 'e) tailq \<Rightarrow> ('h, 'e) nextloc \<Rightarrow> 'e option" where
  "tq_deref s (HeadFirst h) = tqh_first s h"
| "tq_deref s (NextOf e) = tqe_next s e"

fun tq_store :: "('h, 'e) nextloc \<Rightarrow> 'e option \<Rightarrow> ('h, 'e) tailq \<Rightarrow> ('h, 'e) tailq" where
  "tq_store (HeadFirst h) v s = s\<lparr>tqh_first := (tqh_first s)(h := v)\<rparr>"
| "tq_store (NextOf e) v s = s\<lparr>tqe_next := (tqe_next s)(e := v)\<rparr>"

definition TAILQ_INIT :: "'h \<Rightarrow> ('h, 'e) tailq \<Rightarrow> ('h, 'e) tailq" where
  "TAILQ_INIT h s =
     (let s = s\<lparr>tqh_first := (tqh_first s)(h := None)\<rparr>
      in s\<lparr>tqh_last := (tqh_last s)(h := HeadFirst h)\<rparr>)"

definition TAILQ_INSERT_HEAD :: "'h \<Rightarrow> 'e \<Rightarrow> ('h, 'e) tailq \<Rightarrow> ('h, 'e) tailq" where
  "TAILQ_INSERT_HEAD h e s =
     (let s = s\<lparr>tqe_next := (tqe_next s)(e := tqh_first s h)\<rparr>;
          s = (case tqe_next s e of
                 Some f \<Rightarrow> s\<lparr>tqe_prev := (tqe_prev s)(f := NextOf e)\<rparr>
               | None \<Rightarrow> s\<lparr>tqh_last := (tqh_last s)(h := NextOf e)\<rparr>);
          s = s\<lparr>tqh_first := (tqh_first s)(h := Some e)\<rparr>
      in s\<lparr>tqe_prev := (tqe_prev s)(e := HeadFirst h)\<rparr>)"

definition TAILQ_INSERT_TAIL :: "'h \<Rightarrow> 'e \<Rightarrow> ('h, 'e) tailq \<Rightarrow> ('h, 'e) tailq" where
  "TAILQ_INSERT_TAIL h e s =
     (let s = s\<lparr>tqe_next := (tqe_next s)(e := None)\<rparr>;
          s = s\<lparr>tqe_prev := (tqe_prev s)(e := tqh_last s h)\<rparr>;
          s = tq_store (tqh_last s h) (Some e) s
      in s\<lparr>tqh_last := (tqh_last s)(h := NextOf e)\<rparr>)"

definition TAILQ_INSERT_AFTER :: "'h \<Rightarrow> 'e \<Rightarrow> 'e \<Rightarrow> ('h, 'e) tailq \<Rightarrow> ('h, 'e) tailq" where
  "TAILQ_INSERT_AFTER h listelm e s =
     (let s = s\<lparr>tqe_next := (tqe_next s)(e := tqe_next s listelm)\<rparr>;
          s = (case tqe_next s e of
                 Some f \<Rightarrow> s\<lparr>tqe_prev := (tqe_prev s)(f := NextOf e)\<rparr>
               | None \<Rightarrow> s\<lparr>tqh_last := (tqh_last s)(h := NextOf e)\<rparr>);
          s = s\<lparr>tqe_next := (tqe_next s)(listelm := Some e)\<rparr>
      in s\<lparr>tqe_prev := (tqe_prev s)(e := NextOf listelm)\<rparr>)"

definition TAILQ_REMOVE :: "'h \<Rightarrow> 'e \<Rightarrow> ('h, 'e) tailq \<Rightarrow> ('h, 'e) tailq" where
  "TAILQ_REMOVE h e s =
     (let s = (case tqe_next s e of
                 Some f \<Rightarrow> s\<lparr>tqe_prev := (tqe_prev s)(f := tqe_prev s e)\<rparr>
               | None \<Rightarrow> s\<lparr>tqh_last := (tqh_last s)(h := tqe_prev s e)\<rparr>)
      in tq_store (tqe_prev s e) (tqe_next s e) s)"

definition TAILQ_EMPTY :: "'h \<Rightarrow> ('h, 'e) tailq \<Rightarrow> bool" where
  "TAILQ_EMPTY h s \<longleftrightarrow> tqh_first s h = None"

definition TAILQ_FIRST :: "'h \<Rightarrow> ('h, 'e) tailq \<Rightarrow> 'e option" where
  "TAILQ_FIRST h s = tqh_first s h"

definition TAILQ_NEXT :: "'e \<Rightarrow> ('h, 'e) tailq \<Rightarrow> 'e option" where
  "TAILQ_NEXT e s = tqe_next s e"

text \<open>
  \<open>TAILQ_LAST\<close> and \<open>TAILQ_PREV\<close> cast the address of a \<open>next\<close> field to a head: an entry and a
  head have the same layout, so the second word found there is the \<open>tqe_prev\<close> of an entry or
  the \<open>tqh_last\<close> of a head.
\<close>

fun tq_second_word :: "('h, 'e) tailq \<Rightarrow> ('h, 'e) nextloc \<Rightarrow> ('h, 'e) nextloc" where
  "tq_second_word s (HeadFirst h) = tqh_last s h"
| "tq_second_word s (NextOf e) = tqe_prev s e"

definition TAILQ_LAST :: "'h \<Rightarrow> ('h, 'e) tailq \<Rightarrow> 'e option" where
  "TAILQ_LAST h s = tq_deref s (tq_second_word s (tqh_last s h))"

definition TAILQ_PREV :: "'e \<Rightarrow> ('h, 'e) tailq \<Rightarrow> 'e option" where
  "TAILQ_PREV e s = tq_deref s (tq_second_word s (tqe_prev s e))"

subsection \<open>The list a tail queue stands for\<close>

fun tq_end :: "('h, 'e) nextloc \<Rightarrow> 'e list \<Rightarrow> ('h, 'e) nextloc" where
  "tq_end l [] = l"
| "tq_end l (x # xs) = tq_end (NextOf x) xs"

fun tq_links :: "('h, 'e) tailq \<Rightarrow> ('h, 'e) nextloc \<Rightarrow> 'e list \<Rightarrow> bool" where
  "tq_links s l [] = True"
| "tq_links s l (x # xs) \<longleftrightarrow> tq_deref s l = Some x \<and> tqe_prev s x = l \<and> tq_links s (NextOf x) xs"

definition tq_list :: "('h, 'e) tailq \<Rightarrow> 'h \<Rightarrow> 'e list \<Rightarrow> bool" where
  "tq_list s h xs \<longleftrightarrow> distinct xs \<and> tq_links s (HeadFirst h) xs \<and>
     tq_deref s (tq_end (HeadFirst h) xs) = None \<and> tqh_last s h = tq_end (HeadFirst h) xs"

lemma tq_links_append [simp]:
  "tq_links s l (xs @ ys) \<longleftrightarrow> tq_links s l xs \<and> tq_links s (tq_end l xs) ys"
  by (induction xs arbitrary: l) auto

lemma tq_end_append [simp]: "tq_end l (xs @ ys) = tq_end (tq_end l xs) ys"
  by (induction xs arbitrary: l) auto

lemma tq_end_cases: "tq_end l xs = (if xs = [] then l else NextOf (last xs))"
  by (induction xs arbitrary: l) auto

lemma tq_links_cong:
  assumes "\<And>k. k \<in> insert l (NextOf ` set (butlast xs)) \<Longrightarrow> tq_deref t k = tq_deref s k"
    and "\<And>x. x \<in> set xs \<Longrightarrow> tqe_prev t x = tqe_prev s x"
  shows "tq_links t l xs = tq_links s l xs"
  using assms
proof (induction xs arbitrary: l)
  case Nil
  then show ?case by simp
next
  case (Cons x xs)
  show ?case
  proof (cases xs)
    case Nil
    then show ?thesis using Cons.prems by simp
  next
    case (Cons y ys)
    then have "tq_links t (NextOf x) xs = tq_links s (NextOf x) xs"
      using Cons.prems by (intro Cons.IH) auto
    then show ?thesis using Cons.prems by simp
  qed
qed

lemma tq_deref_store [simp]:
  "tq_deref (tq_store l v s) k = (if k = l then v else tq_deref s k)"
  by (cases l; cases k) auto

lemma tq_store_fields [simp]:
  "tqe_prev (tq_store l v s) = tqe_prev s" "tqh_last (tq_store l v s) = tqh_last s"
  by (cases l; simp)+

lemma tq_deref_updates [simp]:
  "tq_deref (s\<lparr>tqe_prev := p\<rparr>) k = tq_deref s k"
  "tq_deref (s\<lparr>tqh_last := l\<rparr>) k = tq_deref s k"
  "tq_deref (s\<lparr>tqe_next := (tqe_next t)(e := v)\<rparr>) k =
     (if k = NextOf e then v else tq_deref (s\<lparr>tqe_next := tqe_next t\<rparr>) k)"
  "tq_deref (s\<lparr>tqh_first := (tqh_first t)(h := v)\<rparr>) k =
     (if k = HeadFirst h then v else tq_deref (s\<lparr>tqh_first := tqh_first t\<rparr>) k)"
  "tq_deref (s\<lparr>tqe_next := tqe_next s\<rparr>) k = tq_deref s k"
  "tq_deref (s\<lparr>tqh_first := tqh_first s\<rparr>) k = tq_deref s k"
  by (cases k; simp)+

lemma distinct_butlast_last: "distinct xs \<Longrightarrow> xs \<noteq> [] \<Longrightarrow> last xs \<notin> set (butlast xs)"
  by (induction xs) (auto dest: in_set_butlastD)

text \<open>A segment of links is not disturbed by writes to other fields.\<close>

lemma tq_links_frame:
  assumes "tq_links s l xs"
    and "\<And>k. k \<notin> D \<Longrightarrow> tq_deref t k = tq_deref s k" and "\<And>x. x \<notin> P \<Longrightarrow> tqe_prev t x = tqe_prev s x"
    and "xs \<noteq> [] \<Longrightarrow> l \<notin> D" and "\<And>x. x \<in> set (butlast xs) \<Longrightarrow> NextOf x \<notin> D" and "set xs \<inter> P = {}"
  shows "tq_links t l xs"
proof (cases "xs = []")
  case False
  then show ?thesis
    using assms by (subst tq_links_cong [where s = s]) auto
qed simp

lemma tq_end_notin_butlast:
  "distinct xs \<Longrightarrow> x \<in> set (butlast xs) \<Longrightarrow> NextOf x \<noteq> tq_end (HeadFirst h) xs"
  using distinct_butlast_last [of xs] by (cases "xs = []") (auto simp: tq_end_cases)

lemma tq_end_eq_head [simp]:
  "tq_end (HeadFirst h) xs = HeadFirst h \<longleftrightarrow> xs = []"
  "HeadFirst h = tq_end (HeadFirst h) xs \<longleftrightarrow> xs = []"
  by (simp_all add: tq_end_cases)

lemma tq_end_eq_next: "tq_end (HeadFirst h) xs = NextOf y \<Longrightarrow> y \<in> set xs"
  by (auto simp: tq_end_cases split: if_splits)

subsection \<open>Each macro on the list\<close>

lemma TAILQ_INIT_list: "tq_list (TAILQ_INIT h s) h []"
  by (simp add: tq_list_def TAILQ_INIT_def)

lemma TAILQ_EMPTY_list: "tq_list s h xs \<Longrightarrow> TAILQ_EMPTY h s \<longleftrightarrow> xs = []"
  by (cases xs) (auto simp: tq_list_def TAILQ_EMPTY_def)

lemma TAILQ_FIRST_list:
  "tq_list s h xs \<Longrightarrow> TAILQ_FIRST h s = (case xs of [] \<Rightarrow> None | x # _ \<Rightarrow> Some x)"
  by (cases xs) (auto simp: tq_list_def TAILQ_FIRST_def)

lemma TAILQ_INSERT_TAIL_list:
  assumes "tq_list s h xs" and "e \<notin> set xs"
  shows "tq_list (TAILQ_INSERT_TAIL h e s) h (xs @ [e])"
proof -
  let ?t = "TAILQ_INSERT_TAIL h e s" and ?l = "tq_end (HeadFirst h) xs"
  have "?l \<noteq> NextOf e" using assms(2) tq_end_eq_next by fastforce
  note [simp] = this this [symmetric]
  have d: "tq_deref ?t k = (if k = ?l then Some e else if k = NextOf e then None else tq_deref s k)" for k
    using assms(1) by (auto simp: TAILQ_INSERT_TAIL_def Let_def tq_list_def)
  note d1 = d [of "HeadFirst h", simplified] d [of "NextOf x" for x, simplified]
  have p: "tqe_prev ?t = (tqe_prev s)(e := ?l)" and l: "tqh_last ?t h = NextOf e"
    using assms(1) by (auto simp: TAILQ_INSERT_TAIL_def Let_def tq_list_def)
  have "tq_links ?t (HeadFirst h) xs"
    using assms
    by (intro tq_links_frame [where s = s and t = ?t and D = "{?l, NextOf e}" and P = "{e}"])
       (auto simp: d p tq_list_def dest: tq_end_notin_butlast in_set_butlastD)
  then show ?thesis using assms by (simp add: tq_list_def d d1 p l)
qed

lemma TAILQ_INSERT_HEAD_list:
  assumes "tq_list s h xs" and "e \<notin> set xs"
  shows "tq_list (TAILQ_INSERT_HEAD h e s) h (e # xs)"
proof -
  let ?t = "TAILQ_INSERT_HEAD h e s"
  have d: "tq_deref ?t k = (if k = HeadFirst h then Some e else if k = NextOf e then tqh_first s h else tq_deref s k)" for k
    by (cases k) (auto simp: TAILQ_INSERT_HEAD_def Let_def split: option.splits)
  note d1 = d [of "HeadFirst h", simplified] d [of "NextOf x" for x, simplified]
  have p: "tqe_prev ?t x = (if x = e then HeadFirst h else if Some x = tqh_first s h then NextOf e else tqe_prev s x)" for x
    by (auto simp: TAILQ_INSERT_HEAD_def Let_def split: option.splits)
  have l: "tqh_last ?t h = (if tqh_first s h = None then NextOf e else tqh_last s h)"
    by (auto simp: TAILQ_INSERT_HEAD_def Let_def split: option.splits)
  show ?thesis
  proof (cases xs)
    case Nil
    then show ?thesis
      using assms by (simp add: tq_list_def d1 p l)
  next
    case (Cons f ys)
    have "tq_links ?t (NextOf f) ys"
      using assms Cons
      by (intro tq_links_frame [where s = s and t = ?t and D = "{HeadFirst h, NextOf e}" and P = "{e, f}"])
         (auto simp: d p tq_list_def dest: in_set_butlastD)
    then show ?thesis
      using assms Cons by (auto simp: tq_list_def d d1 p l tq_end_cases)
  qed
qed

lemma TAILQ_INSERT_AFTER_list:
  assumes "tq_list s h (xs @ q # ys)" and "e \<notin> set (xs @ q # ys)"
  shows "tq_list (TAILQ_INSERT_AFTER h q e s) h (xs @ q # e # ys)"
proof -
  let ?t = "TAILQ_INSERT_AFTER h q e s"
  have "e \<noteq> q" using assms(2) by auto
  have d: "tq_deref ?t k = (if k = NextOf q then Some e else if k = NextOf e then tqe_next s q else tq_deref s k)" for k
    using \<open>e \<noteq> q\<close> by (cases k) (auto simp: TAILQ_INSERT_AFTER_def Let_def split: option.splits)
  note d1 = d [of "HeadFirst h", simplified] d [of "NextOf x" for x, simplified]
  have p: "tqe_prev ?t x = (if x = e then NextOf q else if Some x = tqe_next s q then NextOf e else tqe_prev s x)" for x
    using \<open>e \<noteq> q\<close> by (auto simp: TAILQ_INSERT_AFTER_def Let_def split: option.splits)
  have l: "tqh_last ?t h = (if tqe_next s q = None then NextOf e else tqh_last s h)"
    using \<open>e \<noteq> q\<close> by (auto simp: TAILQ_INSERT_AFTER_def Let_def split: option.splits)
  have nq: "tqe_next s q = (case ys of [] \<Rightarrow> None | f # _ \<Rightarrow> Some f)"
    using assms(1) by (cases ys) (auto simp: tq_list_def)
  have "tq_links ?t (HeadFirst h) (xs @ [q])"
    using assms
    by (intro tq_links_frame [where s = s and t = ?t and D = "{NextOf q, NextOf e}" and P = "insert e (set ys)"])
       (auto simp: d p nq tq_list_def butlast_append split: list.splits if_splits dest: in_set_butlastD)
  moreover have "tq_links ?t (NextOf f) zs" if "ys = f # zs" for f zs
    using assms that
    by (intro tq_links_frame [where s = s and t = ?t and D = "{NextOf q, NextOf e}" and P = "{e, f}"])
       (auto simp: d p nq tq_list_def dest: in_set_butlastD)
  ultimately show ?thesis
    using assms by (cases ys) (auto simp: tq_list_def d d1 p l nq tq_end_cases)
qed

lemma TAILQ_REMOVE_list:
  assumes "tq_list s h (xs @ e # ys)"
  shows "tq_list (TAILQ_REMOVE h e s) h (xs @ ys)"
proof -
  let ?t = "TAILQ_REMOVE h e s" and ?l = "tq_end (HeadFirst h) xs"
  have pe: "tqe_prev s e = ?l" and dist: "distinct (xs @ e # ys)"
    using assms by (auto simp: tq_list_def)
  have ne: "tqe_next s e = (case ys of [] \<Rightarrow> None | f # _ \<Rightarrow> Some f)"
    using assms by (cases ys) (auto simp: tq_list_def)
  have "?l \<noteq> NextOf e" using dist tq_end_eq_next by fastforce
  have d: "tq_deref ?t k = (if k = ?l then tqe_next s e else tq_deref s k)" for k
    by (auto simp: TAILQ_REMOVE_def Let_def pe ne split: option.splits list.splits)
  note d1 = d [of "HeadFirst h", simplified] d [of "NextOf x" for x, simplified]
  have p: "tqe_prev ?t x = (if Some x = tqe_next s e then ?l else tqe_prev s x)" for x
    using dist by (auto simp: TAILQ_REMOVE_def Let_def pe split: option.splits)
  have l: "tqh_last ?t h = (if tqe_next s e = None then ?l else tqh_last s h)"
    by (auto simp: TAILQ_REMOVE_def Let_def pe split: option.splits)
  have "tq_links ?t (HeadFirst h) xs"
    using assms dist
    by (intro tq_links_frame [where s = s and t = ?t and D = "{?l}" and P = "set ys"])
       (auto simp: d p ne tq_list_def split: list.splits dest: tq_end_notin_butlast)
  moreover have "tq_links ?t (NextOf f) zs" if "ys = f # zs" for f zs
    using assms dist that
    by (intro tq_links_frame [where s = s and t = ?t and D = "{?l}" and P = "{f}"])
       (auto simp: d p ne tq_list_def dest: in_set_butlastD tq_end_eq_next dest!: sym [of "NextOf _"])
  ultimately show ?thesis
    using assms dist by (cases ys) (auto simp: tq_list_def d d1 p l ne tq_end_cases)
qed

lemma TAILQ_NEXT_list:
  "tq_list s h xs \<Longrightarrow> e \<in> set xs \<Longrightarrow> TAILQ_NEXT e s = list_next e xs"
proof -
  assume a: "tq_list s h xs" "e \<in> set xs"
  then obtain ys zs where xs: "xs = ys @ e # zs" by (meson split_list)
  show ?thesis
    using a xs by (cases zs) (auto simp: tq_list_def TAILQ_NEXT_def list_next_last)
qed

lemma TAILQ_PREV_list:
  assumes "tq_list s h xs" and "e \<in> set xs"
  shows "TAILQ_PREV e s = list_prev e xs"
proof -
  obtain ys zs where xs: "xs = ys @ e # zs" using assms(2) by (meson split_list)
  show ?thesis
  proof (cases ys rule: rev_cases)
    case Nil
    then show ?thesis
      using assms xs list_prev_first [of e zs] by (auto simp: tq_list_def TAILQ_PREV_def)
  next
    case (snoc us u)
    then show ?thesis
      using assms xs list_prev_append [of us u e zs] by (auto simp: tq_list_def TAILQ_PREV_def)
  qed
qed

lemma TAILQ_LAST_list:
  "tq_list s h xs \<Longrightarrow> TAILQ_LAST h s = (if xs = [] then None else Some (last xs))"
proof (cases xs rule: rev_cases)
  case (snoc us u)
  then show "tq_list s h xs \<Longrightarrow> ?thesis" by (auto simp: tq_list_def TAILQ_LAST_def)
qed (simp add: tq_list_def TAILQ_LAST_def)


subsection \<open>Other queues are left alone\<close>

text \<open>
  What an operation on head \<open>h\<close> may write: the head itself and the links of the elements \<open>E\<close>.
  A queue with another head and other elements stands for the same list afterwards.
\<close>

definition tq_touches :: "'h \<Rightarrow> 'e set \<Rightarrow> ('h, 'e) tailq \<Rightarrow> ('h, 'e) tailq \<Rightarrow> bool" where
  "tq_touches h E s t \<longleftrightarrow>
     (\<forall>k. k \<noteq> HeadFirst h \<longrightarrow> k \<notin> NextOf ` E \<longrightarrow> tq_deref t k = tq_deref s k) \<and>
     (\<forall>x. x \<notin> E \<longrightarrow> tqe_prev t x = tqe_prev s x) \<and> (\<forall>g. g \<noteq> h \<longrightarrow> tqh_last t g = tqh_last s g)"

lemma tq_list_other:
  assumes "tq_touches h E s t" and "tq_list s g ys" and "g \<noteq> h" and "set ys \<inter> E = {}"
  shows "tq_list t g ys"
proof -
  have "tq_links t (HeadFirst g) ys"
    using assms
    by (intro tq_links_frame [where s = s and t = t and D = "insert (HeadFirst h) (NextOf ` E)" and P = E])
       (auto simp: tq_touches_def tq_list_def dest: in_set_butlastD)
  moreover have "tq_deref t (tq_end (HeadFirst g) ys) = tq_deref s (tq_end (HeadFirst g) ys)"
  proof -
    have "tq_end (HeadFirst g) ys \<noteq> HeadFirst h \<and> tq_end (HeadFirst g) ys \<notin> NextOf ` E"
      using assms(3,4) by (cases "ys = []") (auto simp: tq_end_cases dest: last_in_set)
    then show ?thesis using assms(1) unfolding tq_touches_def by blast
  qed
  ultimately show ?thesis using assms by (simp add: tq_list_def tq_touches_def)
qed

lemma tq_links_first: "tq_links s l xs \<Longrightarrow> tq_deref s (tq_end l xs) = None \<Longrightarrow> tq_deref s l = Some x \<Longrightarrow> x \<in> set xs"
  by (cases xs) auto

lemma TAILQ_INSERT_HEAD_touches:
  "tq_list s h xs \<Longrightarrow> tq_touches h (insert e (set xs)) s (TAILQ_INSERT_HEAD h e s)"
  using tq_links_first [of s "HeadFirst h" xs]
  by (auto simp: tq_touches_def tq_list_def TAILQ_INSERT_HEAD_def Let_def split: option.splits)

lemma TAILQ_INSERT_TAIL_touches:
  "tq_list s h xs \<Longrightarrow> tq_touches h (insert e (set xs)) s (TAILQ_INSERT_TAIL h e s)"
  by (auto simp: tq_touches_def tq_list_def TAILQ_INSERT_TAIL_def Let_def tq_end_cases)

lemma tq_list_next_in: "tq_list s h xs \<Longrightarrow> q \<in> set xs \<Longrightarrow> tqe_next s q = Some f \<Longrightarrow> f \<in> set xs"
proof -
  assume a: "tq_list s h xs" "q \<in> set xs" "tqe_next s q = Some f"
  then obtain ys zs where "xs = ys @ q # zs" by (meson split_list)
  then show ?thesis using a by (cases zs) (auto simp: tq_list_def)
qed

lemma tq_list_prev_in: "tq_list s h xs \<Longrightarrow> e \<in> set xs \<Longrightarrow> tqe_prev s e \<in> insert (HeadFirst h) (NextOf ` set xs)"
proof -
  assume a: "tq_list s h xs" "e \<in> set xs"
  then obtain ys zs where "xs = ys @ e # zs" by (meson split_list)
  then show ?thesis using a by (auto simp: tq_list_def tq_end_cases)
qed

lemma TAILQ_INSERT_AFTER_touches:
  "tq_list s h xs \<Longrightarrow> q \<in> set xs \<Longrightarrow> e \<notin> set xs \<Longrightarrow>
     tq_touches h (insert e (set xs)) s (TAILQ_INSERT_AFTER h q e s)"
  using tq_list_next_in [of s h xs q]
  by (auto simp: tq_touches_def TAILQ_INSERT_AFTER_def Let_def split: option.splits)

lemma TAILQ_REMOVE_touches:
  "tq_list s h xs \<Longrightarrow> e \<in> set xs \<Longrightarrow> tq_touches h (set xs) s (TAILQ_REMOVE h e s)"
  using tq_list_next_in [of s h xs e] tq_list_prev_in [of s h xs e]
  by (auto simp: tq_touches_def TAILQ_REMOVE_def Let_def split: option.splits)

section \<open>Lists\<close>

text \<open>
  A \<open>LIST\<close> has the links of a tail queue without the pointer to the end: \<open>forget_last\<close> drops
  it, and each \<open>LIST\<close> macro is the image of the \<open>TAILQ\<close> macro.
\<close>

record ('h, 'e) linked =
  lh_first :: "'h \<Rightarrow> 'e option"
  le_next :: "'e \<Rightarrow> 'e option"
  le_prev :: "'e \<Rightarrow> ('h, 'e) nextloc"

fun le_store :: "('h, 'e) nextloc \<Rightarrow> 'e option \<Rightarrow> ('h, 'e) linked \<Rightarrow> ('h, 'e) linked" where
  "le_store (HeadFirst h) v s = s\<lparr>lh_first := (lh_first s)(h := v)\<rparr>"
| "le_store (NextOf e) v s = s\<lparr>le_next := (le_next s)(e := v)\<rparr>"

definition LIST_INIT :: "'h \<Rightarrow> ('h, 'e) linked \<Rightarrow> ('h, 'e) linked" where
  "LIST_INIT h s = s\<lparr>lh_first := (lh_first s)(h := None)\<rparr>"

definition LIST_INSERT_AFTER :: "'e \<Rightarrow> 'e \<Rightarrow> ('h, 'e) linked \<Rightarrow> ('h, 'e) linked" where
  "LIST_INSERT_AFTER listelm e s =
     (let s = s\<lparr>le_next := (le_next s)(e := le_next s listelm)\<rparr>;
          s = (case le_next s e of
                 Some f \<Rightarrow> s\<lparr>le_prev := (le_prev s)(f := NextOf e)\<rparr>
               | None \<Rightarrow> s);
          s = s\<lparr>le_next := (le_next s)(listelm := Some e)\<rparr>
      in s\<lparr>le_prev := (le_prev s)(e := NextOf listelm)\<rparr>)"

definition LIST_INSERT_HEAD :: "'h \<Rightarrow> 'e \<Rightarrow> ('h, 'e) linked \<Rightarrow> ('h, 'e) linked" where
  "LIST_INSERT_HEAD h e s =
     (let s = s\<lparr>le_next := (le_next s)(e := lh_first s h)\<rparr>;
          s = (case le_next s e of
                 Some f \<Rightarrow> s\<lparr>le_prev := (le_prev s)(f := NextOf e)\<rparr>
               | None \<Rightarrow> s);
          s = s\<lparr>lh_first := (lh_first s)(h := Some e)\<rparr>
      in s\<lparr>le_prev := (le_prev s)(e := HeadFirst h)\<rparr>)"

definition LIST_REMOVE :: "'e \<Rightarrow> ('h, 'e) linked \<Rightarrow> ('h, 'e) linked" where
  "LIST_REMOVE e s =
     (let s = (case le_next s e of
                 Some f \<Rightarrow> s\<lparr>le_prev := (le_prev s)(f := le_prev s e)\<rparr>
               | None \<Rightarrow> s)
      in le_store (le_prev s e) (le_next s e) s)"

definition LIST_EMPTY :: "'h \<Rightarrow> ('h, 'e) linked \<Rightarrow> bool" where
  "LIST_EMPTY h s \<longleftrightarrow> lh_first s h = None"

definition LIST_FIRST :: "'h \<Rightarrow> ('h, 'e) linked \<Rightarrow> 'e option" where
  "LIST_FIRST h s = lh_first s h"

definition LIST_NEXT :: "'e \<Rightarrow> ('h, 'e) linked \<Rightarrow> 'e option" where
  "LIST_NEXT e s = le_next s e"

definition forget_last :: "('h, 'e) tailq \<Rightarrow> ('h, 'e) linked" where
  "forget_last s = \<lparr>lh_first = tqh_first s, le_next = tqe_next s, le_prev = tqe_prev s\<rparr>"

definition ll_list :: "('h, 'e) linked \<Rightarrow> 'h \<Rightarrow> 'e list \<Rightarrow> bool" where
  "ll_list s h xs \<longleftrightarrow> (\<exists>t. forget_last t = s \<and> tq_list t h xs)"

lemma forget_last_store [simp]: "forget_last (tq_store l v s) = le_store l v (forget_last s)"
  by (cases l) (simp_all add: forget_last_def)

lemma forget_last_macros:
  "forget_last (TAILQ_INIT h t) = LIST_INIT h (forget_last t)"
  "forget_last (TAILQ_INSERT_HEAD h e t) = LIST_INSERT_HEAD h e (forget_last t)"
  "forget_last (TAILQ_INSERT_AFTER h q e t) = LIST_INSERT_AFTER q e (forget_last t)"
  "TAILQ_EMPTY h t = LIST_EMPTY h (forget_last t)"
  "TAILQ_FIRST h t = LIST_FIRST h (forget_last t)"
  "TAILQ_NEXT e t = LIST_NEXT e (forget_last t)"
  by (auto simp: TAILQ_INIT_def LIST_INIT_def TAILQ_INSERT_HEAD_def LIST_INSERT_HEAD_def
      TAILQ_INSERT_AFTER_def LIST_INSERT_AFTER_def Let_def
      TAILQ_EMPTY_def LIST_EMPTY_def TAILQ_FIRST_def LIST_FIRST_def TAILQ_NEXT_def LIST_NEXT_def
      forget_last_def split: option.splits)

lemma forget_last_REMOVE: "forget_last (TAILQ_REMOVE h e t) = LIST_REMOVE e (forget_last t)"
  by (cases "tqe_prev t e")
     (auto simp: TAILQ_REMOVE_def LIST_REMOVE_def Let_def forget_last_def split: option.splits)

lemmas LIST_of_TAILQ = forget_last_macros forget_last_REMOVE

lemma ll_listI: "tq_list t h xs \<Longrightarrow> ll_list (forget_last t) h xs"
  by (auto simp: ll_list_def)

lemma LIST_INIT_list: "ll_list (LIST_INIT h s) h []"
proof -
  obtain t where "s = forget_last t"
    by (metis forget_last_def linked.cases tailq.select_convs(1,3,4))
  then show ?thesis using ll_listI [OF TAILQ_INIT_list [of h t]] by (simp add: LIST_of_TAILQ)
qed

lemma LIST_INSERT_HEAD_list:
  "ll_list s h xs \<Longrightarrow> e \<notin> set xs \<Longrightarrow> ll_list (LIST_INSERT_HEAD h e s) h (e # xs)"
  unfolding ll_list_def using TAILQ_INSERT_HEAD_list LIST_of_TAILQ(2) by metis

lemma LIST_INSERT_AFTER_list:
  "ll_list s h (xs @ q # ys) \<Longrightarrow> e \<notin> set (xs @ q # ys) \<Longrightarrow>
     ll_list (LIST_INSERT_AFTER q e s) h (xs @ q # e # ys)"
  unfolding ll_list_def using TAILQ_INSERT_AFTER_list LIST_of_TAILQ(3) by metis

lemma LIST_REMOVE_list: "ll_list s h (xs @ e # ys) \<Longrightarrow> ll_list (LIST_REMOVE e s) h (xs @ ys)"
  unfolding ll_list_def using TAILQ_REMOVE_list forget_last_REMOVE by metis

lemma LIST_FIRST_list:
  "ll_list s h xs \<Longrightarrow> LIST_FIRST h s = (case xs of [] \<Rightarrow> None | x # _ \<Rightarrow> Some x)"
  unfolding ll_list_def using TAILQ_FIRST_list LIST_of_TAILQ(5) by metis

lemma LIST_NEXT_list: "ll_list s h xs \<Longrightarrow> e \<in> set xs \<Longrightarrow> LIST_NEXT e s = list_next e xs"
  unfolding ll_list_def using TAILQ_NEXT_list LIST_of_TAILQ(6) by metis

text \<open>Two lists over the same links can be completed to tail queues at the same time.\<close>

lemma tq_deref_forget: "forget_last t = forget_last u \<Longrightarrow> tq_deref t = tq_deref u \<and> tqe_prev t = tqe_prev u"
  by (rule conjI, rule ext, case_tac x) (simp_all add: forget_last_def)

lemma tq_links_forget: "forget_last t = forget_last u \<Longrightarrow> tq_links t l xs = tq_links u l xs"
  using tq_deref_forget [of t u] by (intro tq_links_cong) simp_all

lemma ll_list_join:
  assumes "ll_list s h xs" and "ll_list s g ys" and "g \<noteq> h"
  obtains t where "forget_last t = s" and "tq_list t h xs" and "tq_list t g ys"
proof -
  obtain t u where t: "forget_last t = s" "tq_list t h xs" and u: "forget_last u = s" "tq_list u g ys"
    using assms by (auto simp: ll_list_def)
  let ?v = "t\<lparr>tqh_last := (tqh_last t)(g := tqh_last u g)\<rparr>"
  have v: "forget_last ?v = s" using t(1) by (auto simp: forget_last_def)
  have "tq_list ?v h xs" "tq_list ?v g ys"
    using t u v assms(3) tq_links_forget [of ?v t] tq_links_forget [of ?v u] tq_deref_forget [of ?v u]
      tq_deref_forget [of ?v t]
    by (auto simp: tq_list_def)
  with v show ?thesis by (rule that)
qed

lemma LIST_INSERT_HEAD_other:
  assumes "ll_list s h xs" and "ll_list s g ys" and "g \<noteq> h" and "set ys \<inter> insert e (set xs) = {}"
  shows "ll_list (LIST_INSERT_HEAD h e s) g ys"
proof -
  obtain t where t: "forget_last t = s" "tq_list t h xs" "tq_list t g ys"
    using assms ll_list_join by metis
  have "tq_list (TAILQ_INSERT_HEAD h e t) g ys"
    using tq_list_other [OF TAILQ_INSERT_HEAD_touches t(3)] t(2) assms(3,4) by blast
  then show ?thesis using ll_listI t(1) LIST_of_TAILQ(2) by metis
qed

lemma LIST_REMOVE_other:
  assumes "ll_list s h xs" and "ll_list s g ys" and "g \<noteq> h" and "set ys \<inter> set xs = {}" and "e \<in> set xs"
  shows "ll_list (LIST_REMOVE e s) g ys"
proof -
  obtain t where t: "forget_last t = s" "tq_list t h xs" "tq_list t g ys"
    using assms ll_list_join by metis
  have "tq_list (TAILQ_REMOVE h e t) g ys"
    using tq_list_other [OF TAILQ_REMOVE_touches t(3)] t(2) assms(3-5) by blast
  then show ?thesis using ll_listI t(1) forget_last_REMOVE by metis
qed

section \<open>What the clients rely on\<close>

text \<open>
  \<open>LIST_FOREACH\<close> and \<open>TAILQ_FOREACH\<close>: the elements met when the links are followed from a
  first element, for at most \<open>n\<close> steps.
\<close>

fun FOREACH :: "('e \<Rightarrow> 's \<Rightarrow> 'e option) \<Rightarrow> nat \<Rightarrow> 'e option \<Rightarrow> 's \<Rightarrow> 'e list option" where
  "FOREACH nxt n None s = Some []"
| "FOREACH nxt 0 (Some e) s = None"
| "FOREACH nxt (Suc n) (Some e) s = map_option (Cons e) (FOREACH nxt n (nxt e s) s)"

text \<open>
  The contract of a family of list macros: \<open>rel s h xs\<close> says that head \<open>h\<close> stands for \<open>xs\<close> in
  state \<open>s\<close>.
\<close>

locale intrusive_list =
  fixes rel :: "'s \<Rightarrow> 'h \<Rightarrow> 'e list \<Rightarrow> bool"
    and first :: "'h \<Rightarrow> 's \<Rightarrow> 'e option"
    and nxt :: "'e \<Rightarrow> 's \<Rightarrow> 'e option"
    and insert_head :: "'h \<Rightarrow> 'e \<Rightarrow> 's \<Rightarrow> 's"
    and remove :: "'h \<Rightarrow> 'e \<Rightarrow> 's \<Rightarrow> 's"
  assumes rel_distinct: "rel s h xs \<Longrightarrow> distinct xs"
    and first_rel: "rel s h xs \<Longrightarrow> first h s = (case xs of [] \<Rightarrow> None | x # _ \<Rightarrow> Some x)"
    and nxt_rel: "rel s h xs \<Longrightarrow> e \<in> set xs \<Longrightarrow> nxt e s = list_next e xs"
    and insert_rel: "rel s h xs \<Longrightarrow> e \<notin> set xs \<Longrightarrow> rel (insert_head h e s) h (e # xs)"
    and insert_other: "rel s h xs \<Longrightarrow> rel s g ys \<Longrightarrow> g \<noteq> h \<Longrightarrow> set ys \<inter> insert e (set xs) = {} \<Longrightarrow>
          rel (insert_head h e s) g ys"
    and remove_rel: "rel s h (xs @ e # zs) \<Longrightarrow> rel (remove h e s) h (xs @ zs)"
    and remove_other: "rel s h xs \<Longrightarrow> rel s g ys \<Longrightarrow> g \<noteq> h \<Longrightarrow> set ys \<inter> set xs = {} \<Longrightarrow> e \<in> set xs \<Longrightarrow>
          rel (remove h e s) g ys"
begin

lemma foreach_suffix:
  "rel s h (xs @ ys) \<Longrightarrow>
     FOREACH nxt (length ys) (case ys of [] \<Rightarrow> None | y # _ \<Rightarrow> Some y) s = Some ys"
proof (induction ys arbitrary: xs)
  case Nil
  then show ?case by simp
next
  case (Cons y ys)
  have d: "distinct (xs @ y # ys)" using Cons.prems rel_distinct by blast
  have n: "nxt y s = (case ys of [] \<Rightarrow> None | z # _ \<Rightarrow> Some z)"
    using nxt_rel [OF Cons.prems, of y] d by (cases ys) (simp_all add: list_next_last)
  have "rel s h ((xs @ [y]) @ ys)" using Cons.prems by simp
  from Cons.IH [OF this] n show ?case by simp
qed

lemma foreach_all: "rel s h xs \<Longrightarrow> FOREACH nxt (length xs) (first h s) s = Some xs"
  using foreach_suffix [of s h "[]" xs] first_rel by simp

lemma remove1_rel: "rel s h xs \<Longrightarrow> e \<in> set xs \<Longrightarrow> rel (remove h e s) h (remove1 e xs)"
proof -
  assume a: "rel s h xs" "e \<in> set xs"
  then obtain ys zs where xs: "xs = ys @ e # zs" "e \<notin> set ys" by (meson split_list_first)
  with a show ?thesis using remove_rel [of s h ys e zs] by (simp add: remove1_append)
qed

lemma move_between:
  assumes "rel s h xs" and "rel s g ys" and "g \<noteq> h" and "set ys \<inter> set xs = {}" and "e \<in> set xs"
  defines "t \<equiv> insert_head g e (remove h e s)"
  shows "rel t h (remove1 e xs) \<and> rel t g (e # ys)"
proof -
  have a: "rel (remove h e s) h (remove1 e xs)" "rel (remove h e s) g ys"
    using assms remove1_rel remove_other by blast+
  have "e \<notin> set (remove1 e xs)" using assms(1) rel_distinct by simp
  moreover have "e \<notin> set ys" using assms by blast
  moreover have "set (remove1 e xs) \<inter> insert e (set ys) = {}"
    using assms(4) calculation set_remove1_subset [of e xs] by auto
  ultimately show ?thesis
    unfolding t_def using a assms(3) insert_rel insert_other by metis
qed

end

interpretation tailq_macros: intrusive_list tq_list TAILQ_FIRST TAILQ_NEXT TAILQ_INSERT_HEAD TAILQ_REMOVE
proof unfold_locales
  fix s :: "('h, 'e) tailq" and h g xs ys e
  assume "tq_list s h xs" "tq_list s g ys" "g \<noteq> h" "set ys \<inter> insert e (set xs) = {}"
  then show "tq_list (TAILQ_INSERT_HEAD h e s) g ys"
    using tq_list_other TAILQ_INSERT_HEAD_touches by metis
next
  fix s :: "('h, 'e) tailq" and h g xs ys e
  assume "tq_list s h xs" "tq_list s g ys" "g \<noteq> h" "set ys \<inter> set xs = {}" "e \<in> set xs"
  then show "tq_list (TAILQ_REMOVE h e s) g ys"
    using tq_list_other TAILQ_REMOVE_touches by metis
qed (simp_all add: TAILQ_FIRST_list TAILQ_NEXT_list TAILQ_INSERT_HEAD_list TAILQ_REMOVE_list, simp add: tq_list_def)

interpretation list_macros: intrusive_list ll_list LIST_FIRST LIST_NEXT LIST_INSERT_HEAD "\<lambda>h. LIST_REMOVE"
proof unfold_locales
  fix s :: "('h, 'e) linked" and h xs
  assume "ll_list s h xs"
  then show "distinct xs" by (auto simp: ll_list_def tq_list_def)
qed (simp_all add: LIST_FIRST_list LIST_NEXT_list LIST_INSERT_HEAD_list LIST_REMOVE_list
     LIST_INSERT_HEAD_other LIST_REMOVE_other)

section \<open>Singly linked lists\<close>

record ('h, 'e) slinked =
  slh_first :: "'h \<Rightarrow> 'e option"
  sle_next :: "'e \<Rightarrow> 'e option"

definition SLIST_INIT :: "'h \<Rightarrow> ('h, 'e) slinked \<Rightarrow> ('h, 'e) slinked" where
  "SLIST_INIT h s = s\<lparr>slh_first := (slh_first s)(h := None)\<rparr>"

definition SLIST_INSERT_HEAD :: "'h \<Rightarrow> 'e \<Rightarrow> ('h, 'e) slinked \<Rightarrow> ('h, 'e) slinked" where
  "SLIST_INSERT_HEAD h e s =
     (let s = s\<lparr>sle_next := (sle_next s)(e := slh_first s h)\<rparr>
      in s\<lparr>slh_first := (slh_first s)(h := Some e)\<rparr>)"

definition SLIST_REMOVE_HEAD :: "'h \<Rightarrow> ('h, 'e) slinked \<Rightarrow> kerror + ('h, 'e) slinked" where
  "SLIST_REMOVE_HEAD h s =
     (case slh_first s h of
        None \<Rightarrow> Inl NullDeref
      | Some f \<Rightarrow> Inr (s\<lparr>slh_first := (slh_first s)(h := sle_next s f)\<rparr>))"

text \<open>The search loop of \<open>SLIST_REMOVE\<close>, for at most \<open>n\<close> steps.\<close>

fun slist_before :: "nat \<Rightarrow> 'e option \<Rightarrow> 'e \<Rightarrow> ('h, 'e) slinked \<Rightarrow> kerror + 'e" where
  "slist_before n None e s = Inl NullDeref"
| "slist_before 0 (Some c) e s = Inl OutOfFuel"
| "slist_before (Suc n) (Some c) e s =
     (if sle_next s c = Some e then Inr c else slist_before n (sle_next s c) e s)"

definition SLIST_REMOVE :: "nat \<Rightarrow> 'h \<Rightarrow> 'e \<Rightarrow> ('h, 'e) slinked \<Rightarrow> kerror + ('h, 'e) slinked" where
  "SLIST_REMOVE n h e s =
     (if slh_first s h = Some e then SLIST_REMOVE_HEAD h s
      else case slist_before n (slh_first s h) e s of
             Inl err \<Rightarrow> Inl err
           | Inr c \<Rightarrow> Inr (s\<lparr>sle_next := (sle_next s)(c := sle_next s e)\<rparr>))"

definition SLIST_EMPTY :: "'h \<Rightarrow> ('h, 'e) slinked \<Rightarrow> bool" where
  "SLIST_EMPTY h s \<longleftrightarrow> slh_first s h = None"

definition SLIST_FIRST :: "'h \<Rightarrow> ('h, 'e) slinked \<Rightarrow> 'e option" where
  "SLIST_FIRST h s = slh_first s h"

fun sl_links :: "('h, 'e) slinked \<Rightarrow> 'e option \<Rightarrow> 'e list \<Rightarrow> bool" where
  "sl_links s p [] \<longleftrightarrow> p = None"
| "sl_links s p (x # xs) \<longleftrightarrow> p = Some x \<and> sl_links s (sle_next s x) xs"

definition sl_list :: "('h, 'e) slinked \<Rightarrow> 'h \<Rightarrow> 'e list \<Rightarrow> bool" where
  "sl_list s h xs \<longleftrightarrow> distinct xs \<and> sl_links s (slh_first s h) xs"

lemma sl_links_cong: "(\<And>x. x \<in> set xs \<Longrightarrow> sle_next t x = sle_next s x) \<Longrightarrow> sl_links t p xs = sl_links s p xs"
  by (induction xs arbitrary: p) auto

lemma SLIST_INSERT_HEAD_list:
  "sl_list s h xs \<Longrightarrow> e \<notin> set xs \<Longrightarrow> sl_list (SLIST_INSERT_HEAD h e s) h (e # xs)"
  by (auto simp: sl_list_def SLIST_INSERT_HEAD_def Let_def cong: sl_links_cong)
     (subst sl_links_cong [where s = s]; auto)

lemma SLIST_REMOVE_HEAD_list:
  "sl_list s h (x # xs) \<Longrightarrow> \<exists>t. SLIST_REMOVE_HEAD h s = Inr t \<and> sl_list t h xs"
  by (auto simp: sl_list_def SLIST_REMOVE_HEAD_def) (subst sl_links_cong [where s = s]; auto)

lemma sl_links_append:
  "sl_links s p (xs @ y # ys) \<Longrightarrow> sl_links s (Some y) (y # ys) \<and> (xs \<noteq> [] \<longrightarrow> sle_next s (last xs) = Some y)"
  by (induction xs arbitrary: p) auto

lemma slist_before_found:
  "sl_links s p (xs @ e # ys) \<Longrightarrow> xs \<noteq> [] \<Longrightarrow> distinct (xs @ e # ys) \<Longrightarrow> length xs \<le> n \<Longrightarrow>
     slist_before n p e s = Inr (last xs)"
proof (induction xs arbitrary: p n)
  case (Cons x xs)
  then obtain m where "n = Suc m" by (cases n) auto
  with Cons show ?case by (cases xs) auto
qed simp

lemma sl_links_cut:
  "sl_links s p (xs @ e # ys) \<Longrightarrow> xs \<noteq> [] \<Longrightarrow> distinct (xs @ e # ys) \<Longrightarrow>
     sl_links (s\<lparr>sle_next := (sle_next s)(last xs := sle_next s e)\<rparr>) p (xs @ ys)"
proof (induction xs arbitrary: p)
  case (Cons x xs)
  show ?case
  proof (cases xs)
    case Nil
    then show ?thesis using Cons.prems by (auto, subst sl_links_cong [where s = s]) auto
  next
    case (Cons y zs)
    then have "x \<noteq> last xs" using Cons.prems by auto
    then show ?thesis using Cons.IH Cons.prems Cons by auto
  qed
qed simp

lemma SLIST_REMOVE_list:
  assumes "sl_list s h (xs @ e # ys)" and "length xs \<le> n"
  shows "\<exists>t. SLIST_REMOVE n h e s = Inr t \<and> sl_list t h (xs @ ys)"
proof (cases xs)
  case Nil
  then show ?thesis
    using assms SLIST_REMOVE_HEAD_list [of s h e ys] by (auto simp: SLIST_REMOVE_def sl_list_def)
next
  case (Cons x zs)
  then have "slh_first s h \<noteq> Some e" using assms by (auto simp: sl_list_def)
  then show ?thesis
    using assms slist_before_found [of s "slh_first s h" xs e ys n] Cons
      sl_links_cut [of s "slh_first s h" xs e ys]
    by (auto simp: SLIST_REMOVE_def sl_list_def)
qed

end
