(* ===== verification/Pm.thy ===== *)
theory Pm
  imports Ndk_Lock
begin

text \<open>
  The physical memory manager, \<^verbatim>\<open>vm/pm.c\<close>, and the data of \<^verbatim>\<open>include/ndk/vm.h\<close> it works on.

  A region starts with its \<open>region_t\<close> header, in the direct map at \<open>P2V(base)\<close>, followed by one
  \<open>page_t\<close> per page frame. Headers and page descriptors are named by their addresses; the queues
  are lists of these addresses. \<open>mm_mem\<close> is the rest of memory, as 64-bit words at virtual
  addresses of the direct map.
\<close>

section \<open>Data\<close>

record page =
  pg_pfn :: u64
  pg_usage :: int
  pg_order :: int

record region =
  rg_base :: u64
  rg_pagecnt :: u64

record features =
  ft_pge :: bool
  ft_nx :: bool
  ft_gbpages :: bool

record mm =
  mm_region :: "u64 \<Rightarrow> region"
  mm_page :: "u64 \<Rightarrow> page"
  mm_regionlist :: "u64 list"
  mm_buddy_freelist :: "u64 list list"
  mm_buddy_lock :: bool
  mm_total :: u64
  mm_used :: u64
  mm_hhdm :: u64
  mm_mem :: "u64 \<Rightarrow> u64"
  mm_features :: features

definition kPageUseFree :: int where "kPageUseFree = 1"

definition kPageUseInternal :: int where "kPageUseInternal = 2"

definition kPageUseVm :: int where "kPageUseVm = 3"

definition kPageUseWired :: int where "kPageUseWired = 4"

definition BUDDY_ORDERS :: nat where "BUDDY_ORDERS = 10"

text \<open>Sizes of the two structs: two pointers, an address and a count; a frame number, the usage
  and the order in 16 bytes, and two pointers.\<close>

definition sizeof_region :: u64 where "sizeof_region = 32"

definition sizeof_page :: u64 where "sizeof_page = 32"

text \<open>\<open>&region->pages[i]\<close>\<close>

definition region_page :: "u64 \<Rightarrow> u64 \<Rightarrow> u64" where
  "region_page region i = region + sizeof_region + sizeof_page * i"

definition PG2P :: "mm \<Rightarrow> u64 \<Rightarrow> u64" where
  "PG2P m page = push_bit 12 (pg_pfn (mm_page m page))"

definition PG2V :: "mm \<Rightarrow> u64 \<Rightarrow> u64" where
  "PG2V m page = P2V (mm_hhdm m) (PG2P m page)"

section \<open>Operations\<close>

definition page_upd :: "u64 \<Rightarrow> (page \<Rightarrow> page) \<Rightarrow> mm \<Rightarrow> mm" where
  "page_upd p f m = m\<lparr>mm_page := (mm_page m)(p := f (mm_page m p))\<rparr>"

definition pm_init :: "(mm, unit) km" where
  "pm_init = kmodify (\<lambda>m. m\<lparr>mm_buddy_freelist := replicate BUDDY_ORDERS []\<rparr>)"

definition region_used :: "u64 \<Rightarrow> u64" where
  "region_used len = PAGE_ALIGN_UP (sizeof_region + sizeof_page * len div PAGE_SIZE)"

definition pm_add_region :: "u64 \<Rightarrow> u64 \<Rightarrow> (mm, unit) km" where
  "pm_add_region base len =
     (let used = region_used len
      in if len - used < PAGE_SIZE * 2 then kreturn ()
         else
           kthen (spinlock_acquire mm_buddy_lock mm_buddy_lock_update)
           (kbind (kget (\<lambda>m. P2V (mm_hhdm m) base)) (\<lambda>region.
            let pagecnt = len div PAGE_SIZE in
            kthen (kmodify (\<lambda>m. m\<lparr>mm_region := (mm_region m)(region := \<lparr>rg_base = base, rg_pagecnt = pagecnt\<rparr>)\<rparr>))
            (kthen (kmodify (\<lambda>m. m\<lparr>mm_regionlist := mm_regionlist m @ [region]\<rparr>))
            (kthen (kmodify (\<lambda>m. m\<lparr>mm_total := mm_total m + pagecnt\<rparr>))
            (kthen (kfor [0..<unat pagecnt] (\<lambda>i.
               kmodify (page_upd (region_page region (of_nat i)) (\<lambda>pg. pg\<lparr>
                 pg_usage := kPageUseFree,
                 pg_pfn := drop_bit 12 (base + of_nat i * PAGE_SIZE),
                 pg_order := 0\<rparr>))))
            (kthen (kfor [0..<unat (used div PAGE_SIZE)] (\<lambda>i.
               kmodify (page_upd (region_page region (of_nat i)) (\<lambda>pg. pg\<lparr>pg_usage := kPageUseInternal\<rparr>))))
            (kthen (kfor [unat (used div PAGE_SIZE)..<unat pagecnt] (\<lambda>i.
               kbind (kget (\<lambda>m. nat (pg_order (mm_page m (region_page region (of_nat i)))))) (\<lambda>order.
               kmodify (\<lambda>m. m\<lparr>mm_buddy_freelist := (mm_buddy_freelist m)[order :=
                 mm_buddy_freelist m ! order @ [region_page region (of_nat i)]]\<rparr>))))
            (kthen (kmodify (\<lambda>m. m\<lparr>mm_used := mm_used m + used div PAGE_SIZE\<rparr>))
            (spinlock_release mm_buddy_lock_update))))))))))"

definition pm_allocate_n :: "u64 \<Rightarrow> int \<Rightarrow> (mm, u64) km" where
  "pm_allocate_n n usage =
     kthen (kassert (n = 1) ''n == 1'')
     (kthen (spinlock_acquire mm_buddy_lock mm_buddy_lock_update)
     (kbind (kget (\<lambda>m. mm_buddy_freelist m ! 0)) (\<lambda>fl.
      case fl of
        [] \<Rightarrow> kfail (AssertFail ''pg'')
      | pg # rest \<Rightarrow>
          kthen (kmodify (page_upd pg (\<lambda>p. p\<lparr>pg_usage := usage\<rparr>)))
          (kthen (kmodify (\<lambda>m. m\<lparr>mm_buddy_freelist := (mm_buddy_freelist m)[0 := rest]\<rparr>))
          (kthen (kmodify (\<lambda>m. m\<lparr>mm_used := mm_used m + n\<rparr>))
          (kthen (spinlock_release mm_buddy_lock_update)
          (kreturn pg)))))))"

definition pm_allocate :: "int \<Rightarrow> (mm, u64) km" where
  "pm_allocate usage = pm_allocate_n 1 usage"

text \<open>\<open>memset (v, 0, PAGE_SIZE)\<close> on the words of memory.\<close>

definition zero_page :: "u64 \<Rightarrow> (u64 \<Rightarrow> u64) \<Rightarrow> u64 \<Rightarrow> u64" where
  "zero_page v mem = (\<lambda>x. if x - v < PAGE_SIZE then 0 else mem x)"

text \<open>
  \<open>pm_allocate_n\<close> never returns null, so the null check of \<open>pm_allocate_n_zeroed\<close> does nothing;
  with one page there is one page to clear.
\<close>

definition pm_allocate_n_zeroed :: "u64 \<Rightarrow> int \<Rightarrow> (mm, u64) km" where
  "pm_allocate_n_zeroed n usage =
     kbind (pm_allocate_n n usage) (\<lambda>pages.
     kthen (kfor [0..<unat n] (\<lambda>i.
        kbind (kget (\<lambda>m. PG2V m (pages + sizeof_page * of_nat i))) (\<lambda>v.
        kmodify (\<lambda>m. m\<lparr>mm_mem := zero_page v (mm_mem m)\<rparr>))))
     (kreturn pages))"

definition pm_allocate_zeroed :: "int \<Rightarrow> (mm, u64) km" where
  "pm_allocate_zeroed usage = pm_allocate_n_zeroed 1 usage"

definition pm_free_n :: "u64 \<Rightarrow> u64 \<Rightarrow> (mm, unit) km" where
  "pm_free_n pages n =
     kthen (kassert (n = 1) ''n == 1'')
     (kthen (spinlock_acquire mm_buddy_lock mm_buddy_lock_update)
     (kthen (kfor [0..<unat n] (\<lambda>i.
        kmodify (page_upd (pages + sizeof_page * of_nat i) (\<lambda>p. p\<lparr>pg_usage := kPageUseFree\<rparr>))))
     (kthen (kmodify (\<lambda>m. m\<lparr>mm_buddy_freelist := (mm_buddy_freelist m)[0 := mm_buddy_freelist m ! 0 @ [pages]]\<rparr>))
     (kthen (kmodify (\<lambda>m. m\<lparr>mm_used := mm_used m - n\<rparr>))
     (spinlock_release mm_buddy_lock_update)))))"

definition pm_free :: "u64 \<Rightarrow> (mm, unit) km" where
  "pm_free page = pm_free_n page 1"

definition pm_lookup_with_region :: "mm \<Rightarrow> u64 \<Rightarrow> u64 \<Rightarrow> u64" where
  "pm_lookup_with_region m paddr region =
     region_page region ((paddr - rg_base (mm_region m region)) div PAGE_SIZE)"

definition pm_lookup_region :: "mm \<Rightarrow> u64 \<Rightarrow> u64 option" where
  "pm_lookup_region m paddr =
     find (\<lambda>region.
        paddr \<ge> rg_base (mm_region m region) \<and>
        paddr < rg_base (mm_region m region) + rg_pagecnt (mm_region m region) * PAGE_SIZE)
       (mm_regionlist m)"

definition pm_lookup :: "mm \<Rightarrow> u64 \<Rightarrow> u64 option" where
  "pm_lookup m paddr =
     (case pm_lookup_region m paddr of
        None \<Rightarrow> None
      | Some region \<Rightarrow> Some (pm_lookup_with_region m paddr region))"

section \<open>The invariant\<close>

text \<open>
  A region is a whole number of page frames below the end of the address space. Its header and
  its descriptors fill the first \<open>region_meta\<close> frames; the pages it manages are the others. Each
  descriptor carries its frame number.
\<close>

definition region_meta :: "region \<Rightarrow> nat" where
  "region_meta rg = (32 + 32 * unat (rg_pagecnt rg) + 4095) div 4096"

definition region_pages :: "mm \<Rightarrow> u64 \<Rightarrow> u64 set" where
  "region_pages m r =
     (\<lambda>i. region_page r (of_nat i)) ` {region_meta (mm_region m r)..<unat (rg_pagecnt (mm_region m r))}"

definition region_end :: "region \<Rightarrow> nat" where
  "region_end rg = unat (rg_base rg) + unat (rg_pagecnt rg) * 4096"

definition region_ok :: "mm \<Rightarrow> u64 \<Rightarrow> bool" where
  "region_ok m r \<longleftrightarrow>
     unat (rg_base (mm_region m r)) mod 4096 = 0 \<and> region_end (mm_region m r) \<le> 2 ^ 52 \<and>
     unat (mm_hhdm m) + region_end (mm_region m r) < 2 ^ 64 \<and>
     r = P2V (mm_hhdm m) (rg_base (mm_region m r)) \<and>
     region_meta (mm_region m r) \<le> unat (rg_pagecnt (mm_region m r)) \<and>
     (\<forall>i < unat (rg_pagecnt (mm_region m r)).
        pg_pfn (mm_page m (region_page r (of_nat i))) =
          drop_bit 12 (rg_base (mm_region m r) + of_nat i * PAGE_SIZE))"

definition pm_inv :: "mm \<Rightarrow> bool" where
  "pm_inv m \<longleftrightarrow>
     distinct (mm_regionlist m) \<and> (\<forall>r \<in> set (mm_regionlist m). region_ok m r) \<and>
     (\<forall>r \<in> set (mm_regionlist m). \<forall>r' \<in> set (mm_regionlist m). r \<noteq> r' \<longrightarrow>
        region_end (mm_region m r) \<le> unat (rg_base (mm_region m r')) \<or>
        region_end (mm_region m r') \<le> unat (rg_base (mm_region m r))) \<and>
     length (mm_buddy_freelist m) = BUDDY_ORDERS \<and>
     distinct (mm_buddy_freelist m ! 0) \<and>
     (\<forall>p \<in> set (mm_buddy_freelist m ! 0).
        (\<exists>r \<in> set (mm_regionlist m). p \<in> region_pages m r) \<and> pg_usage (mm_page m p) = kPageUseFree) \<and>
     mm_used m + of_nat (length (mm_buddy_freelist m ! 0)) = mm_total m"

section \<open>Pages and their addresses\<close>

lemma pm_invD:
  assumes "pm_inv m"
  shows "distinct (mm_regionlist m)" and "\<And>r. r \<in> set (mm_regionlist m) \<Longrightarrow> region_ok m r"
    and "\<And>r r'. r \<in> set (mm_regionlist m) \<Longrightarrow> r' \<in> set (mm_regionlist m) \<Longrightarrow> r \<noteq> r' \<Longrightarrow>
        region_end (mm_region m r) \<le> unat (rg_base (mm_region m r')) \<or>
        region_end (mm_region m r') \<le> unat (rg_base (mm_region m r))"
    and "length (mm_buddy_freelist m) = BUDDY_ORDERS" and "distinct (mm_buddy_freelist m ! 0)"
    and "\<And>p. p \<in> set (mm_buddy_freelist m ! 0) \<Longrightarrow> \<exists>r \<in> set (mm_regionlist m). p \<in> region_pages m r"
    and "\<And>p. p \<in> set (mm_buddy_freelist m ! 0) \<Longrightarrow> pg_usage (mm_page m p) = kPageUseFree"
    and "mm_used m + of_nat (length (mm_buddy_freelist m ! 0)) = mm_total m"
  using assms unfolding pm_inv_def by blast+

lemma unat_frame:
  fixes base :: u64
  assumes "unat base + n * 4096 \<le> 2 ^ 52" and "i < n"
  shows "unat (base + of_nat i * PAGE_SIZE) = unat base + i * 4096"
proof -
  have "i * 4096 < n * 4096" using assms(2) by simp
  then have lt: "unat base + i * 4096 < 2 ^ 52" using assms(1) by linarith
  have "of_nat i * PAGE_SIZE = of_nat (i * 4096)" by (simp add: PAGE_SIZE_def)
  moreover have "unat (of_nat (i * 4096) :: u64) = i * 4096"
    using lt unat_of_nat [where 'a = 64, of "i * 4096"] by simp
  ultimately show ?thesis
    using lt unat_add_lem [of base "of_nat (i * 4096)"] by simp
qed

lemma frame_address:
  fixes base :: u64
  assumes "unat base mod 4096 = 0" and "unat base + n * 4096 \<le> 2 ^ 52" and "i < n"
  shows "push_bit 12 (drop_bit 12 (base + of_nat i * PAGE_SIZE)) = base + of_nat i * PAGE_SIZE"
proof -
  let ?a = "base + of_nat i * PAGE_SIZE"
  have "unat ?a mod 2 ^ 12 = 0" using unat_frame [OF assms(2,3)] assms(1) by (simp add: mod_add_eq [symmetric])
  then have "take_bit 12 ?a = 0" by (simp add: word_unat_eq_iff unat_take_bit_u64)
  moreover have "push_bit 12 (drop_bit 12 ?a) + take_bit 12 ?a = ?a"
    by (simp add: bits_ident)
  ultimately show ?thesis by simp
qed

lemma PG2P_region:
  assumes "region_ok m r" and "i < unat (rg_pagecnt (mm_region m r))"
  shows "PG2P m (region_page r (of_nat i)) = rg_base (mm_region m r) + of_nat i * PAGE_SIZE"
    and "unat (PG2P m (region_page r (of_nat i))) = unat (rg_base (mm_region m r)) + i * 4096"
proof -
  note r = assms(1) [unfolded region_ok_def region_end_def]
  show "PG2P m (region_page r (of_nat i)) = rg_base (mm_region m r) + of_nat i * PAGE_SIZE"
    using r assms(2) frame_address [of "rg_base (mm_region m r)" "unat (rg_pagecnt (mm_region m r))" i]
    by (simp add: PG2P_def)
  then show "unat (PG2P m (region_page r (of_nat i))) = unat (rg_base (mm_region m r)) + i * 4096"
    using r assms(2) unat_frame [of "rg_base (mm_region m r)" "unat (rg_pagecnt (mm_region m r))" i] by simp
qed

text \<open>A physical address belongs to at most one region.\<close>

definition in_region :: "mm \<Rightarrow> nat \<Rightarrow> u64 \<Rightarrow> bool" where
  "in_region m x r \<longleftrightarrow> unat (rg_base (mm_region m r)) \<le> x \<and> x < region_end (mm_region m r)"

lemma in_region_unique:
  "pm_inv m \<Longrightarrow> r \<in> set (mm_regionlist m) \<Longrightarrow> r' \<in> set (mm_regionlist m) \<Longrightarrow>
   in_region m x r \<Longrightarrow> in_region m x r' \<Longrightarrow> r = r'"
  using pm_invD(3) [of m r r'] by (auto simp: in_region_def)

lemma in_region_words:
  assumes "region_ok m r"
  shows "(paddr \<ge> rg_base (mm_region m r) \<and>
          paddr < rg_base (mm_region m r) + rg_pagecnt (mm_region m r) * PAGE_SIZE) \<longleftrightarrow> in_region m (unat paddr) r"
proof -
  note r = assms [unfolded region_ok_def region_end_def]
  let ?rg = "mm_region m r"
  have "unat (rg_pagecnt ?rg * PAGE_SIZE) = unat (rg_pagecnt ?rg) * 4096"
    using r unat_mult_lem [of "rg_pagecnt ?rg" PAGE_SIZE] by (simp add: PAGE_SIZE_def)
  then have "unat (rg_base ?rg + rg_pagecnt ?rg * PAGE_SIZE) = region_end ?rg"
    using r unat_add_lem [of "rg_base ?rg" "rg_pagecnt ?rg * PAGE_SIZE"] by (simp add: region_end_def)
  then show ?thesis by (simp add: in_region_def word_le_nat_alt word_less_nat_alt)
qed

lemma pm_lookup_page:
  assumes inv: "pm_inv m" and r: "r \<in> set (mm_regionlist m)" and i: "i < unat (rg_pagecnt (mm_region m r))"
    and x: "x < 4096"
  shows "pm_lookup m (PG2P m (region_page r (of_nat i)) + of_nat x) = Some (region_page r (of_nat i))"
proof -
  have ok: "region_ok m r" using pm_invD(2) [OF inv r] .
  let ?rg = "mm_region m r" and ?a = "PG2P m (region_page r (of_nat i)) + of_nat x"
  note bounds = ok [unfolded region_ok_def region_end_def]
  have "i * 4096 + 4096 \<le> unat (rg_pagecnt ?rg) * 4096" using i by simp
  then have lt: "unat (rg_base ?rg) + i * 4096 + x < 2 ^ 52" using bounds x by linarith
  have ua: "unat ?a = unat (rg_base ?rg) + i * 4096 + x"
    using PG2P_region(2) [OF ok i] lt x unat_of_nat [where 'a = 64, of x]
      unat_add_lem [of "PG2P m (region_page r (of_nat i))" "of_nat x"] by simp
  have inr: "in_region m (unat ?a) r"
    using \<open>i * 4096 + 4096 \<le> unat (rg_pagecnt ?rg) * 4096\<close> x by (simp add: in_region_def ua region_end_def)
  let ?P = "\<lambda>region. ?a \<ge> rg_base (mm_region m region) \<and>
        ?a < rg_base (mm_region m region) + rg_pagecnt (mm_region m region) * PAGE_SIZE"
  have P: "?P r' \<longleftrightarrow> r' = r" if "r' \<in> set (mm_regionlist m)" for r'
    using in_region_words [OF pm_invD(2) [OF inv that], of ?a] in_region_words [OF ok, of ?a]
      in_region_unique [OF inv that r, of "unat ?a"] inr by blast
  have "find ?P (mm_regionlist m) = find (\<lambda>r'. r' = r) (mm_regionlist m)"
    using P by (intro find_cong) auto
  moreover have "find (\<lambda>r'. r' = r) l = Some r" if "r \<in> set l" for l
    using that by (induction l) auto
  ultimately have "find ?P (mm_regionlist m) = Some r" using r by simp
  moreover have "(?a - rg_base ?rg) div PAGE_SIZE = of_nat i"
  proof -
    have "unat (?a - rg_base ?rg) = i * 4096 + x" using ua by (simp add: unat_sub word_le_nat_alt)
    then have "unat ((?a - rg_base ?rg) div PAGE_SIZE) = i" using x by (simp add: unat_div PAGE_SIZE_def)
    moreover have "unat (of_nat i :: u64) = i" using lt unat_of_nat [where 'a = 64, of i] by simp
    ultimately show ?thesis by (simp add: word_unat_eq_iff)
  qed
  ultimately show ?thesis by (simp add: pm_lookup_def pm_lookup_region_def pm_lookup_with_region_def)
qed

text \<open>The descriptors of all regions, and that different descriptors stand for different frames.\<close>

definition all_pages :: "mm \<Rightarrow> u64 set" where
  "all_pages m = (\<Union>r \<in> set (mm_regionlist m). region_pages m r)"

lemma all_pagesE:
  assumes "p \<in> all_pages m"
  obtains r i where "r \<in> set (mm_regionlist m)" and "i < unat (rg_pagecnt (mm_region m r))"
    and "p = region_page r (of_nat i)" and "region_meta (mm_region m r) \<le> i"
proof -
  obtain r where r: "r \<in> set (mm_regionlist m)" "p \<in> region_pages m r" using assms by (auto simp: all_pages_def)
  from r(2) obtain i where "i \<in> {region_meta (mm_region m r)..<unat (rg_pagecnt (mm_region m r))}" "p = region_page r (of_nat i)"
    unfolding region_pages_def by (rule imageE)
  with r(1) show thesis by (intro that [of r i]) simp_all
qed

lemma pm_lookup_PG2P:
  assumes "pm_inv m" and "q \<in> all_pages m"
  shows "pm_lookup m (PG2P m q) = Some q"
  using assms(2)
proof (rule all_pagesE)
  fix r i
  assume r: "r \<in> set (mm_regionlist m)" and i: "i < unat (rg_pagecnt (mm_region m r))"
    and q: "q = region_page r (of_nat i)"
  from pm_lookup_page [OF assms(1) r i, of 0]
  show ?thesis unfolding q of_nat_0 add_0_right by simp
qed

lemma PG2P_inj:
  assumes "pm_inv m" and "p \<in> all_pages m" and "p' \<in> all_pages m" and "PG2P m p = PG2P m p'"
  shows "p = p'"
proof -
  have "Some p = pm_lookup m (PG2P m p')"
    using pm_lookup_PG2P [OF assms(1,2)] by (simp only: assms(4))
  also have "\<dots> = Some p'" by (rule pm_lookup_PG2P [OF assms(1,3)])
  finally show ?thesis by (rule option.inject [THEN iffD1])
qed

lemma pm_free_in_all: "pm_inv m \<Longrightarrow> p \<in> set (mm_buddy_freelist m ! 0) \<Longrightarrow> p \<in> all_pages m"
  using pm_invD(6) [of m p] by (auto simp: all_pages_def)

section \<open>Allocation\<close>

text \<open>What the operations keep of the memory manager: all but the usage of pages, the free lists,
  the counter and memory.\<close>

definition pm_same :: "mm \<Rightarrow> mm \<Rightarrow> bool" where
  "pm_same m t \<longleftrightarrow> mm_region t = mm_region m \<and> mm_regionlist t = mm_regionlist m \<and>
     mm_hhdm t = mm_hhdm m \<and> mm_total t = mm_total m \<and> mm_buddy_lock t = mm_buddy_lock m \<and>
     mm_features t = mm_features m \<and> (\<forall>p. pg_pfn (mm_page t p) = pg_pfn (mm_page m p))"

lemma pm_same_refl [simp]: "pm_same m m"
  by (simp add: pm_same_def)

lemma pm_same_trans: "pm_same m t \<Longrightarrow> pm_same t u \<Longrightarrow> pm_same m u"
  by (simp add: pm_same_def)

lemma pm_same_pages:
  assumes "pm_same m t"
  shows "all_pages t = all_pages m" and "PG2P t p = PG2P m p" and "PG2V t p = PG2V m p"
    and "region_ok t r = region_ok m r" and "region_pages t r = region_pages m r"
  using assms by (simp_all add: pm_same_def all_pages_def region_pages_def PG2P_def PG2V_def region_ok_def)

lemma pm_inv_step:
  assumes inv: "pm_inv m" and same: "pm_same m t"
    and fl: "length (mm_buddy_freelist t) = BUDDY_ORDERS" "distinct (mm_buddy_freelist t ! 0)"
      "set (mm_buddy_freelist t ! 0) \<subseteq> all_pages m"
      "\<And>p. p \<in> set (mm_buddy_freelist t ! 0) \<Longrightarrow> pg_usage (mm_page t p) = kPageUseFree"
      "mm_used t + of_nat (length (mm_buddy_freelist t ! 0)) = mm_total m"
  shows "pm_inv t"
  using pm_invD(1-3) [OF inv] fl same pm_same_pages(4,5) [OF same]
  unfolding pm_inv_def by (auto simp: pm_same_def all_pages_def)

definition pm_alloc_post :: "int \<Rightarrow> mm \<Rightarrow> u64 \<Rightarrow> mm \<Rightarrow> bool" where
  "pm_alloc_post usage m p t \<longleftrightarrow>
     pm_inv t \<and> pm_same m t \<and> mm_buddy_freelist m ! 0 = p # mm_buddy_freelist t ! 0 \<and>
     pg_usage (mm_page t p) = usage \<and> mm_used t = mm_used m + 1 \<and>
     (\<forall>q. q \<noteq> p \<longrightarrow> mm_page t q = mm_page m q)"

lemma pm_allocate_correct:
  assumes inv: "pm_inv m" and lock: "\<not> mm_buddy_lock m" and ne: "mm_buddy_freelist m ! 0 \<noteq> []"
  shows "runs_to (pm_allocate usage) m (\<lambda>p t. pm_alloc_post usage m p t \<and> mm_mem t = mm_mem m)"
proof -
  obtain p rest where fl: "mm_buddy_freelist m ! 0 = p # rest" using ne by (cases "mm_buddy_freelist m ! 0") auto
  let ?t = "m\<lparr>mm_page := (mm_page m)(p := (mm_page m p)\<lparr>pg_usage := usage\<rparr>),
             mm_buddy_freelist := (mm_buddy_freelist m)[0 := rest], mm_used := mm_used m + 1\<rparr>"
  have l: "0 < length (mm_buddy_freelist m)" using pm_invD(4) [OF inv] by (simp add: BUDDY_ORDERS_def)
  have "pm_inv ?t"
    using inv pm_invD [OF inv] l fl pm_free_in_all [OF inv]
    by (intro pm_inv_step [OF inv]) (auto simp: pm_same_def ac_simps)
  then have "pm_alloc_post usage m p ?t"
    using fl l by (simp add: pm_alloc_post_def pm_same_def)
  moreover have "runs_to (pm_allocate usage) m (\<lambda>r t. r = p \<and> t = ?t)"
    using lock fl by (cases m) (simp add: pm_allocate_def pm_allocate_n_def wp page_upd_def)
  ultimately show ?thesis by (elim runs_to_mono) simp
qed

lemma pm_allocate_zeroed_correct:
  assumes inv: "pm_inv m" and lock: "\<not> mm_buddy_lock m" and ne: "mm_buddy_freelist m ! 0 \<noteq> []"
  shows "runs_to (pm_allocate_zeroed usage) m (\<lambda>p t. pm_alloc_post usage m p t \<and>
     mm_mem t = zero_page (PG2V m p) (mm_mem m))"
proof -
  have "runs_to (pm_allocate_n 1 usage) m (\<lambda>p t. pm_alloc_post usage m p t \<and> mm_mem t = mm_mem m)"
    using pm_allocate_correct [OF assms] by (simp add: pm_allocate_def)
  then show ?thesis
    unfolding pm_allocate_zeroed_def pm_allocate_n_zeroed_def runs_to_kbind
  proof (rule runs_to_mono, elim conjE, goal_cases)
    case (1 p t)
    then have inv': "pm_inv t" and v: "PG2V t p = PG2V m p" "mm_mem t = mm_mem m"
      using pm_same_pages(3) by (auto simp: pm_alloc_post_def)
    let ?u = "t\<lparr>mm_mem := zero_page (PG2V m p) (mm_mem m)\<rparr>"
    have "pm_inv ?u" using inv' by (simp add: pm_inv_def region_ok_def region_pages_def)
    then have "pm_alloc_post usage m p ?u"
      using 1 by (simp add: pm_alloc_post_def pm_same_def)
    then show ?case using v by (simp add: wp sizeof_page_def)
  qed
qed

text \<open>With no free page the allocation stops at its assertion.\<close>

lemma pm_allocate_empty:
  "\<not> mm_buddy_lock m \<Longrightarrow> mm_buddy_freelist m ! 0 = [] \<Longrightarrow> pm_allocate usage m = Inl (AssertFail ''pg'')"
  by (simp add: pm_allocate_def pm_allocate_n_def spinlock_acquire_def km_defs)

section \<open>Freeing\<close>

lemma pm_free_correct:
  assumes inv: "pm_inv m" and lock: "\<not> mm_buddy_lock m"
    and p: "p \<in> all_pages m" "p \<notin> set (mm_buddy_freelist m ! 0)"
  shows "runs_to (pm_free p) m (\<lambda>_ t. pm_inv t \<and> pm_same m t \<and> mm_mem t = mm_mem m \<and>
     mm_buddy_freelist t ! 0 = mm_buddy_freelist m ! 0 @ [p] \<and> mm_used t = mm_used m - 1)"
proof -
  let ?t = "m\<lparr>mm_page := (mm_page m)(p := (mm_page m p)\<lparr>pg_usage := kPageUseFree\<rparr>),
             mm_buddy_freelist := (mm_buddy_freelist m)[0 := mm_buddy_freelist m ! 0 @ [p]], mm_used := mm_used m - 1\<rparr>"
  have l: "0 < length (mm_buddy_freelist m)" using pm_invD(4) [OF inv] by (simp add: BUDDY_ORDERS_def)
  have "pm_inv ?t"
    using inv pm_invD [OF inv] l p pm_free_in_all [OF inv]
    by (intro pm_inv_step [OF inv]) (auto simp: pm_same_def)
  moreover have "runs_to (pm_free p) m (\<lambda>r t. t = ?t)"
    using lock by (cases m) (simp add: pm_free_def pm_free_n_def wp page_upd_def sizeof_page_def)
  ultimately show ?thesis using l by (elim runs_to_mono) (simp add: pm_same_def)
qed

section \<open>Adding a region\<close>

text \<open>The descriptors of a region are different addresses inside its first frames.\<close>

lemma unat_region_page:
  assumes "unat r + 32 + 32 * n < 2 ^ 64" and "i \<le> n"
  shows "unat (region_page r (of_nat i)) = unat r + 32 + 32 * i"
proof -
  have "unat (of_nat (32 + 32 * i) :: u64) = 32 + 32 * i"
    using assms unat_of_nat [where 'a = 64, of "32 + 32 * i"] by simp
  moreover have "region_page r (of_nat i) = r + of_nat (32 + 32 * i)"
    by (simp add: region_page_def sizeof_region_def sizeof_page_def)
  ultimately show ?thesis using assms unat_add_lem [of r "of_nat (32 + 32 * i)"] by simp
qed

lemma region_meta_bytes: "region_meta rg * 4096 \<ge> 32 + 32 * unat (rg_pagecnt rg)"
  unfolding region_meta_def by linarith

lemma region_ok_unat:
  assumes "region_ok m r"
  shows "unat r = unat (mm_hhdm m) + unat (rg_base (mm_region m r))"
    and "i < unat (rg_pagecnt (mm_region m r)) \<Longrightarrow>
      unat (region_page r (of_nat i)) = unat r + 32 + 32 * i"
    and "32 + 32 * unat (rg_pagecnt (mm_region m r)) \<le> 4096 * unat (rg_pagecnt (mm_region m r))"
proof -
  note r = assms [unfolded region_ok_def region_end_def]
  let ?rg = "mm_region m r"
  show u: "unat r = unat (mm_hhdm m) + unat (rg_base ?rg)"
  proof -
    have "unat (rg_base ?rg) + unat (mm_hhdm m) < 2 ^ 64" using r by linarith
    then have "unat (rg_base ?rg + mm_hhdm m) = unat (rg_base ?rg) + unat (mm_hhdm m)"
      using unat_add_lem [of "rg_base ?rg" "mm_hhdm m"] by simp
    moreover have "r = rg_base ?rg + mm_hhdm m" using r by (simp add: P2V_def)
    ultimately show ?thesis by simp
  qed
  show fits: "32 + 32 * unat (rg_pagecnt ?rg) \<le> 4096 * unat (rg_pagecnt ?rg)"
  proof -
    have "region_meta ?rg \<le> unat (rg_pagecnt ?rg)" using r by simp
    then show ?thesis using region_meta_bytes [of ?rg] by linarith
  qed
  show "unat (region_page r (of_nat i)) = unat r + 32 + 32 * i" if "i < unat (rg_pagecnt ?rg)"
  proof (rule unat_region_page)
    show "unat r + 32 + 32 * unat (rg_pagecnt ?rg) < 2 ^ 64" using r u fits by linarith
    show "i \<le> unat (rg_pagecnt ?rg)" using that by simp
  qed
qed

lemma region_page_inj:
  assumes "unat r + 32 + 32 * n < 2 ^ 64" and "i \<le> n" and "j \<le> n"
    and "region_page r (of_nat i) = region_page r (of_nat j)"
  shows "i = j"
proof -
  have "unat r + 32 + 32 * i = unat r + 32 + 32 * j"
    unfolding unat_region_page [OF assms(1,2), symmetric] unat_region_page [OF assms(1,3), symmetric]
    by (rule arg_cong [OF assms(4)])
  then show ?thesis by linarith
qed

text \<open>A loop over descriptors, and what it leaves in each.\<close>

definition upd_pages :: "(nat \<Rightarrow> u64) \<Rightarrow> (nat \<Rightarrow> page \<Rightarrow> page) \<Rightarrow> nat list \<Rightarrow> (u64 \<Rightarrow> page) \<Rightarrow> u64 \<Rightarrow> page" where
  "upd_pages g f is = fold (\<lambda>i mp. mp(g i := f i (mp (g i)))) is"

lemma runs_to_upd_pages:
  "runs_to (kfor is (\<lambda>i. kmodify (page_upd (g i) (f i)))) m Q \<longleftrightarrow>
     Q () (m\<lparr>mm_page := upd_pages g f is (mm_page m)\<rparr>)"
  by (induction "is" arbitrary: m) (simp_all add: wp upd_pages_def page_upd_def)

lemma upd_pages_out: "p \<notin> g ` set is \<Longrightarrow> upd_pages g f is mp p = mp p"
  by (induction "is" arbitrary: mp) (auto simp: upd_pages_def)

lemma upd_pages_in:
  "inj_on g (set is) \<Longrightarrow> distinct is \<Longrightarrow> i \<in> set is \<Longrightarrow> upd_pages g f is mp (g i) = f i (mp (g i))"
proof (induction "is" arbitrary: mp)
  case (Cons j js)
  show ?case
  proof (cases "i = j")
    case True
    with Cons.prems have "g i \<notin> g ` set js" by (auto simp: inj_on_def)
    with True show ?thesis using upd_pages_out [of "g i" g js f] by (simp add: upd_pages_def)
  next
    case False
    with Cons.prems have "g i \<noteq> g j" "i \<in> set js" by (auto simp: inj_on_def)
    with Cons show ?thesis by (simp add: upd_pages_def)
  qed
qed simp

lemma runs_to_fill_freelist:
  assumes "\<And>i. i \<in> set is \<Longrightarrow> pg_order (mm_page m (g i)) = 0" and "0 < length (mm_buddy_freelist m)"
  shows "runs_to (kfor is (\<lambda>i.
            kbind (kget (\<lambda>m. nat (pg_order (mm_page m (g i))))) (\<lambda>order.
            kmodify (\<lambda>m. m\<lparr>mm_buddy_freelist := (mm_buddy_freelist m)[order :=
              mm_buddy_freelist m ! order @ [g i]]\<rparr>)))) m Q \<longleftrightarrow>
     Q () (m\<lparr>mm_buddy_freelist := (mm_buddy_freelist m)[0 := mm_buddy_freelist m ! 0 @ map g is]\<rparr>)"
  using assms
proof (induction "is" arbitrary: m)
  case Nil
  then show ?case by (simp add: wp list_update_id)
next
  case (Cons i js)
  then show ?case by (simp add: wp)
qed

text \<open>The state \<open>pm_add_region\<close> leaves when the region is large enough.\<close>

definition added_region :: "u64 \<Rightarrow> u64 \<Rightarrow> mm \<Rightarrow> mm" where
  "added_region base len m =
     (let used = region_used len; r = P2V (mm_hhdm m) base; n = unat (len div PAGE_SIZE);
          u = unat (used div PAGE_SIZE); g = (\<lambda>i. region_page r (of_nat i))
      in m\<lparr>mm_region := (mm_region m)(r := \<lparr>rg_base = base, rg_pagecnt = len div PAGE_SIZE\<rparr>),
           mm_regionlist := mm_regionlist m @ [r],
           mm_total := mm_total m + len div PAGE_SIZE,
           mm_page := upd_pages g (\<lambda>i pg. pg\<lparr>pg_usage := kPageUseInternal\<rparr>) [0..<u]
             (upd_pages g (\<lambda>i pg. pg\<lparr>pg_usage := kPageUseFree,
                pg_pfn := drop_bit 12 (base + of_nat i * PAGE_SIZE), pg_order := 0\<rparr>) [0..<n] (mm_page m)),
           mm_buddy_freelist := (mm_buddy_freelist m)[0 := mm_buddy_freelist m ! 0 @ map g [u..<n]],
           mm_used := mm_used m + used div PAGE_SIZE\<rparr>)"

text \<open>The frames the header and the descriptors take, in bytes and without wrap-around.\<close>

lemma region_used_nat:
  assumes "unat len < 2 ^ 53"
  shows "unat (region_used len) = (32 + 32 * unat len div 4096 + 4095) div 4096 * 4096"
    and "unat (region_used len div PAGE_SIZE) = (32 + 32 * unat len div 4096 + 4095) div 4096"
proof -
  have lt: "unat len div 128 < 2 ^ 53" using assms div_le_dividend [of "unat len" 128] by linarith
  have "unat (sizeof_page * len) = 32 * unat len"
    using assms unat_mult_lem [of sizeof_page len] by (simp add: sizeof_page_def)
  then have d: "unat (sizeof_page * len div PAGE_SIZE) = 32 * unat len div 4096"
    by (simp add: unat_div PAGE_SIZE_def)
  then have "unat (sizeof_region + sizeof_page * len div PAGE_SIZE) = 32 + 32 * unat len div 4096"
    using lt unat_add_lem [of sizeof_region "sizeof_page * len div PAGE_SIZE"]
    by (simp add: sizeof_region_def)
  then show u: "unat (region_used len) = (32 + 32 * unat len div 4096 + 4095) div 4096 * 4096"
    using lt unat_ALIGN_UP [of 12 "sizeof_region + sizeof_page * len div PAGE_SIZE"]
    by (simp add: region_used_def PAGE_ALIGN_UP_def PAGE_SIZE_def)
  show "unat (region_used len div PAGE_SIZE) = (32 + 32 * unat len div 4096 + 4095) div 4096"
    by (simp add: unat_div PAGE_SIZE_def u)
qed

text \<open>What a region must satisfy to be added: whole frames in the direct map, room for its own
  descriptors and two pages more, and no overlap with the regions that are there.\<close>

definition room_for :: "mm \<Rightarrow> u64 \<Rightarrow> u64 \<Rightarrow> bool" where
  "room_for m base len \<longleftrightarrow>
     unat base mod 4096 = 0 \<and> unat base + unat len \<le> 2 ^ 52 \<and>
     unat (mm_hhdm m) + unat base + unat len < 2 ^ 64 \<and>
     unat (region_used len) + 8192 \<le> unat len \<and>
     (\<forall>r \<in> set (mm_regionlist m). region_end (mm_region m r) \<le> unat base \<or>
        unat base + unat len \<le> unat (rg_base (mm_region m r)))"

lemma room_forD:
  assumes "room_for m base len"
  defines "n \<equiv> unat (len div PAGE_SIZE)" and "u \<equiv> unat (region_used len div PAGE_SIZE)"
  shows "n = unat len div 4096" and "u + 2 \<le> n" and "32 + 32 * n \<le> u * 4096"
    and "unat (P2V (mm_hhdm m) base) = unat (mm_hhdm m) + unat base"
    and "unat (P2V (mm_hhdm m) base) + 32 + 32 * n < 2 ^ 64"
    and "region_used len \<le> len" and "\<not> len - region_used len < PAGE_SIZE * 2"
proof -
  have a: "unat base mod 4096 = 0" "unat base + unat len \<le> 2 ^ 52"
    "unat (mm_hhdm m) + unat base + unat len < 2 ^ 64" "unat (region_used len) + 8192 \<le> unat len"
    using assms(1) unfolding room_for_def by blast+
  have lt: "unat len < 2 ^ 53" using a(2) by simp
  note used = region_used_nat [OF lt]
  show n: "n = unat len div 4096" by (simp add: n_def unat_div PAGE_SIZE_def)
  have u: "unat (region_used len) = u * 4096" by (simp only: used u_def)
  show un: "u + 2 \<le> n" using a u n by linarith
  have "32 * n \<le> 32 * unat len div 4096" using n by linarith
  then show meta: "32 + 32 * n \<le> u * 4096" using used(2) unfolding u_def by linarith
  show p: "unat (P2V (mm_hhdm m) base) = unat (mm_hhdm m) + unat base"
    using a unat_add_lem [of base "mm_hhdm m"] by (simp add: P2V_def)
  show "unat (P2V (mm_hhdm m) base) + 32 + 32 * n < 2 ^ 64"
    using a p u meta by linarith
  show le: "region_used len \<le> len" using a by (simp add: word_le_nat_alt)
  have "unat (len - region_used len) \<ge> 8192" using a le by (simp add: unat_sub)
  then show "\<not> len - region_used len < PAGE_SIZE * 2" by (simp add: word_less_nat_alt PAGE_SIZE_def)
qed

lemma room_for_inj:
  assumes "room_for m base len"
  shows "inj_on (\<lambda>i. region_page (P2V (mm_hhdm m) base) (of_nat i)) {0..<unat (len div PAGE_SIZE)}"
  using region_page_inj [OF room_forD(5) [OF assms]] by (intro inj_onI) auto

text \<open>The descriptors of the new region after the loops.\<close>

lemma added_region_page:
  assumes room: "room_for m base len" and i: "i < unat (len div PAGE_SIZE)"
  defines "pg \<equiv> mm_page (added_region base len m) (region_page (P2V (mm_hhdm m) base) (of_nat i))"
  shows "pg_pfn pg = drop_bit 12 (base + of_nat i * PAGE_SIZE)" and "pg_order pg = 0"
    and "unat (region_used len div PAGE_SIZE) \<le> i \<Longrightarrow> pg_usage pg = kPageUseFree"
proof -
  let ?g = "\<lambda>i. region_page (P2V (mm_hhdm m) base) (of_nat i)"
  let ?u = "unat (region_used len div PAGE_SIZE)" and ?n = "unat (len div PAGE_SIZE)"
  let ?f = "\<lambda>i pg. pg\<lparr>pg_usage := kPageUseFree, pg_pfn := drop_bit 12 (base + of_nat i * PAGE_SIZE), pg_order := 0\<rparr>"
  define mp where "mp = upd_pages ?g ?f [0..<?n] (mm_page m)"
  have inj: "inj_on ?g {0..<?n}" using room by (rule room_for_inj)
  have un: "?u \<le> ?n" using room_forD(2) [OF room] by simp
  have mp: "mp (?g i) = ?f i (mm_page m (?g i))"
    unfolding mp_def using inj i by (intro upd_pages_in) auto
  have pg: "pg = upd_pages ?g (\<lambda>i pg. pg\<lparr>pg_usage := kPageUseInternal\<rparr>) [0..<?u] mp (?g i)"
    by (simp add: pg_def added_region_def Let_def mp_def)
  have inner: "i < ?u \<Longrightarrow> pg = (mp (?g i))\<lparr>pg_usage := kPageUseInternal\<rparr>"
    unfolding pg using inj un by (intro upd_pages_in) (auto intro: inj_on_subset)
  have outer: "pg = mp (?g i)" if "\<not> i < ?u"
  proof -
    have "?g i \<notin> ?g ` {0..<?u}" using inj_on_image_mem_iff [OF inj, of i "{0..<?u}"] i un that by auto
    then show ?thesis unfolding pg by (intro upd_pages_out) simp
  qed
  show "pg_pfn pg = drop_bit 12 (base + of_nat i * PAGE_SIZE)" "pg_order pg = 0"
    using inner outer mp by (cases "i < ?u"; simp)+
  show "?u \<le> i \<Longrightarrow> pg_usage pg = kPageUseFree" using outer mp by simp
qed

lemma added_region_other_page:
  assumes room: "room_for m base len" and p: "\<And>i. i < unat (len div PAGE_SIZE) \<Longrightarrow> p \<noteq> region_page (P2V (mm_hhdm m) base) (of_nat i)"
  shows "mm_page (added_region base len m) p = mm_page m p"
proof -
  have un: "unat (region_used len div PAGE_SIZE) \<le> unat (len div PAGE_SIZE)" using room_forD(2) [OF room] by simp
  have "p \<notin> (\<lambda>i. region_page (P2V (mm_hhdm m) base) (of_nat i)) ` {0..<k}" if "k \<le> unat (len div PAGE_SIZE)" for k
    using p that by (meson atLeastLessThan_iff imageE order_less_le_trans)
  from this [OF un] this [OF order_refl] show ?thesis
    by (simp add: added_region_def Let_def upd_pages_out)
qed

lemma pm_add_region_runs:
  assumes room: "room_for m base len" and lock: "\<not> mm_buddy_lock m" and fl: "0 < length (mm_buddy_freelist m)"
  shows "runs_to (pm_add_region base len) m (\<lambda>_ t. t = added_region base len m)"
proof -
  let ?g = "\<lambda>i. region_page (P2V (mm_hhdm m) base) (of_nat i)"
  let ?u = "unat (region_used len div PAGE_SIZE)" and ?n = "unat (len div PAGE_SIZE)"
  have order: "pg_order (upd_pages ?g (\<lambda>i pg. pg\<lparr>pg_usage := kPageUseInternal\<rparr>) [0..<?u]
     (upd_pages ?g (\<lambda>i pg. pg\<lparr>pg_usage := kPageUseFree,
        pg_pfn := drop_bit 12 (base + of_nat i * PAGE_SIZE), pg_order := 0\<rparr>) [0..<?n] (mm_page m)) (?g i)) = 0"
    if "i \<in> set [?u..<?n]" for i
    using added_region_page(2) [OF room, of i] that by (simp add: added_region_def Let_def)
  show ?thesis
    unfolding pm_add_region_def Let_def
  proof (simp add: room_forD(7) [OF room] lock wp runs_to_upd_pages,
      subst runs_to_fill_freelist [where g = ?g], goal_cases)
    case (1 i)
    then show ?case using order by simp
  next
    case 2
    then show ?case using fl by simp
  next
    case 3
    then show ?case using lock by (cases m) (simp add: wp added_region_def Let_def)
  qed
qed

text \<open>The new descriptors are apart from all others.\<close>

lemma room_for_apart:
  assumes inv: "pm_inv m" and room: "room_for m base len" and r: "r \<in> set (mm_regionlist m)"
    and i: "i < unat (rg_pagecnt (mm_region m r))" and j: "j < unat (len div PAGE_SIZE)"
  shows "region_page r (of_nat i) \<noteq> region_page (P2V (mm_hhdm m) base) (of_nat j)"
proof -
  let ?rg = "mm_region m r" and ?r = "P2V (mm_hhdm m) base"
  note old = region_ok_unat [OF pm_invD(2) [OF inv r]]
  have "unat (region_page r (of_nat i)) = unat (mm_hhdm m) + unat (rg_base ?rg) + 32 + 32 * i"
    using old(1) old(2) [OF i] by simp
  moreover have "32 + 32 * i < 4096 * unat (rg_pagecnt ?rg)" using old(3) i by linarith
  moreover have "unat (region_page ?r (of_nat j)) = unat (mm_hhdm m) + unat base + 32 + 32 * j"
    using unat_region_page [OF room_forD(5) [OF room], of j] room_forD(4) [OF room] j by simp
  moreover have "32 + 32 * j < unat len"
    using room_forD(1,2,3) [OF room] j by linarith
  moreover have "region_end ?rg \<le> unat base \<or> unat base + unat len \<le> unat (rg_base ?rg)"
    using room r unfolding room_for_def by blast
  ultimately have "unat (region_page r (of_nat i)) \<noteq> unat (region_page ?r (of_nat j))"
    unfolding region_end_def by linarith
  then show ?thesis by metis
qed

lemma room_for_new:
  assumes inv: "pm_inv m" and room: "room_for m base len"
  shows "P2V (mm_hhdm m) base \<notin> set (mm_regionlist m)"
proof
  assume r: "P2V (mm_hhdm m) base \<in> set (mm_regionlist m)"
  let ?rg = "mm_region m (P2V (mm_hhdm m) base)"
  have "0 < unat (rg_pagecnt ?rg)" using region_ok_unat(3) [OF pm_invD(2) [OF inv r]] by linarith
  from room_for_apart [OF inv room r this, of 0] room_forD(2) [OF room] show False by simp
qed

lemma added_region_simps:
  fixes m base len
  defines "r \<equiv> P2V (mm_hhdm m) base" and "t \<equiv> added_region base len m"
  shows "mm_region t = (mm_region m)(r := \<lparr>rg_base = base, rg_pagecnt = len div PAGE_SIZE\<rparr>)"
    and "mm_regionlist t = mm_regionlist m @ [r]" and "mm_hhdm t = mm_hhdm m"
    and "mm_total t = mm_total m + len div PAGE_SIZE"
    and "mm_used t = mm_used m + region_used len div PAGE_SIZE"
    and "mm_buddy_lock t = mm_buddy_lock m" and "mm_mem t = mm_mem m" and "mm_features t = mm_features m"
    and "length (mm_buddy_freelist t) = length (mm_buddy_freelist m)"
    and "0 < length (mm_buddy_freelist m) \<Longrightarrow> mm_buddy_freelist t ! 0 = mm_buddy_freelist m ! 0 @
       map (\<lambda>i. region_page r (of_nat i)) [unat (region_used len div PAGE_SIZE)..<unat (len div PAGE_SIZE)]"
  by (simp_all add: r_def t_def added_region_def Let_def)

lemma added_region_ok:
  assumes inv: "pm_inv m" and room: "room_for m base len" and r: "r \<in> set (mm_regionlist (added_region base len m))"
  shows "region_ok (added_region base len m) r"
proof (cases "r = P2V (mm_hhdm m) base")
  case True
  let ?rg = "\<lparr>rg_base = base, rg_pagecnt = len div PAGE_SIZE\<rparr>"
  have a: "unat base mod 4096 = 0" "unat base + unat len \<le> 2 ^ 52"
    "unat (mm_hhdm m) + unat base + unat len < 2 ^ 64"
    using room unfolding room_for_def by blast+
  have "unat (len div PAGE_SIZE) * 4096 \<le> unat len" using room_forD(1) [OF room] by simp
  then have e: "region_end ?rg \<le> 2 ^ 52" "unat (mm_hhdm m) + region_end ?rg < 2 ^ 64"
    using a by (simp_all add: region_end_def)
  have "region_meta ?rg \<le> unat (rg_pagecnt ?rg)"
    using room_forD(2,3) [OF room] unfolding region_meta_def by simp
  with a e show ?thesis
    using True added_region_page(1) [OF room] by (simp add: region_ok_def added_region_simps)
next
  case False
  with r have r': "r \<in> set (mm_regionlist m)" by (simp add: added_region_simps)
  have "mm_page (added_region base len m) (region_page r (of_nat i)) = mm_page m (region_page r (of_nat i))"
    if "i < unat (rg_pagecnt (mm_region m r))" for i
    using room_for_apart [OF inv room r' that] by (intro added_region_other_page [OF room]) blast
  then show ?thesis
    using False pm_invD(2) [OF inv r'] by (simp add: region_ok_def added_region_simps)
qed

lemma added_region_pages:
  assumes inv: "pm_inv m" and room: "room_for m base len"
  defines "r \<equiv> P2V (mm_hhdm m) base" and "t \<equiv> added_region base len m"
  shows "r' \<in> set (mm_regionlist m) \<Longrightarrow> region_pages t r' = region_pages m r'"
    and "p \<in> all_pages m \<Longrightarrow> mm_page t p = mm_page m p"
    and "p \<in> all_pages m \<Longrightarrow> j < unat (len div PAGE_SIZE) \<Longrightarrow> p \<noteq> region_page r (of_nat j)"
    and "unat (region_used len div PAGE_SIZE) \<le> i \<Longrightarrow> i < unat (len div PAGE_SIZE) \<Longrightarrow>
      region_page r (of_nat i) \<in> region_pages t r"
proof -
  show "region_pages t r' = region_pages m r'" if "r' \<in> set (mm_regionlist m)" for r'
    using that room_for_new [OF inv room] by (auto simp: t_def region_pages_def added_region_simps)
  show apart: "p \<noteq> region_page r (of_nat j)" if "p \<in> all_pages m" "j < unat (len div PAGE_SIZE)" for p j
    using that(1)
  proof (rule all_pagesE)
    fix q i
    assume "q \<in> set (mm_regionlist m)" "i < unat (rg_pagecnt (mm_region m q))" "p = region_page q (of_nat i)"
    then show ?thesis using room_for_apart [OF inv room _ _ that(2)] by (simp add: r_def)
  qed
  show "mm_page t p = mm_page m p" if "p \<in> all_pages m" for p
    unfolding t_def using apart [OF that, unfolded r_def] by (intro added_region_other_page [OF room]) blast
  show "region_page r (of_nat i) \<in> region_pages t r"
    if "unat (region_used len div PAGE_SIZE) \<le> i" "i < unat (len div PAGE_SIZE)" for i
  proof -
    have "region_meta \<lparr>rg_base = base, rg_pagecnt = len div PAGE_SIZE\<rparr> \<le> i"
      using room_forD(3) [OF room] that(1) unfolding region_meta_def by simp
    then show ?thesis using that(2) by (simp add: region_pages_def t_def r_def added_region_simps)
  qed
qed

lemma added_region_freelist:
  assumes inv: "pm_inv m" and room: "room_for m base len"
  defines "t \<equiv> added_region base len m"
  shows "distinct (mm_buddy_freelist t ! 0)"
    and "p \<in> set (mm_buddy_freelist t ! 0) \<Longrightarrow> \<exists>r \<in> set (mm_regionlist t). p \<in> region_pages t r"
    and "p \<in> set (mm_buddy_freelist t ! 0) \<Longrightarrow> pg_usage (mm_page t p) = kPageUseFree"
    and "mm_used t + of_nat (length (mm_buddy_freelist t ! 0)) = mm_total t"
proof -
  let ?r = "P2V (mm_hhdm m) base"
  let ?u = "unat (region_used len div PAGE_SIZE)" and ?n = "unat (len div PAGE_SIZE)"
  let ?new = "map (\<lambda>i. region_page ?r (of_nat i)) [?u..<?n]"
  have l: "0 < length (mm_buddy_freelist m)" using pm_invD(4) [OF inv] by (simp add: BUDDY_ORDERS_def)
  have fl: "mm_buddy_freelist t ! 0 = mm_buddy_freelist m ! 0 @ ?new"
    using added_region_simps(10) [OF l] by (simp add: t_def)
  note pages = added_region_pages [OF inv room, folded t_def]
  have "inj_on (\<lambda>i. region_page ?r (of_nat i)) {?u..<?n}"
    using room_for_inj [OF room] by (rule inj_on_subset) auto
  then have "distinct ?new" by (simp add: distinct_map)
  moreover have "set (mm_buddy_freelist m ! 0) \<inter> set ?new = {}"
    using pages(3) pm_free_in_all [OF inv] by fastforce
  ultimately show "distinct (mm_buddy_freelist t ! 0)"
    using pm_invD(5) [OF inv] by (simp add: fl)
  show "\<exists>r \<in> set (mm_regionlist t). p \<in> region_pages t r" if "p \<in> set (mm_buddy_freelist t ! 0)" for p
  proof (cases "p \<in> set (mm_buddy_freelist m ! 0)")
    case True
    then obtain r where "r \<in> set (mm_regionlist m)" "p \<in> region_pages m r" using pm_invD(6) [OF inv True] by blast
    then show ?thesis using pages(1) by (auto simp: t_def added_region_simps)
  next
    case False
    then have "p \<in> region_pages t ?r" using that pages(4) by (auto simp: fl)
    then show ?thesis by (auto simp: t_def added_region_simps)
  qed
  show "pg_usage (mm_page t p) = kPageUseFree" if "p \<in> set (mm_buddy_freelist t ! 0)" for p
  proof (cases "p \<in> set (mm_buddy_freelist m ! 0)")
    case True
    then show ?thesis using pages(2) [OF pm_free_in_all [OF inv True]] pm_invD(7) [OF inv True] by simp
  next
    case False
    then have "p \<in> set ?new" using that by (simp add: fl)
    then show ?thesis using added_region_page(3) [OF room] unfolding t_def by auto
  qed
  have "(of_nat (?n - ?u) :: u64) = len div PAGE_SIZE - region_used len div PAGE_SIZE"
    using room_forD(2) [OF room] by (simp add: of_nat_diff)
  then show "mm_used t + of_nat (length (mm_buddy_freelist t ! 0)) = mm_total t"
    using pm_invD(8) [OF inv] by (simp add: fl) (simp add: t_def added_region_simps)
qed

lemma added_region_inv:
  assumes inv: "pm_inv m" and room: "room_for m base len"
  shows "pm_inv (added_region base len m)"
proof -
  let ?t = "added_region base len m" and ?r = "P2V (mm_hhdm m) base"
  have n: "?r \<notin> set (mm_regionlist m)" using inv room by (rule room_for_new)
  have e: "region_end \<lparr>rg_base = base, rg_pagecnt = len div PAGE_SIZE\<rparr> \<le> unat base + unat len"
    using room_forD(1) [OF room] by (simp add: region_end_def)
  have "region_end (mm_region m r) \<le> unat base \<or> unat base + unat len \<le> unat (rg_base (mm_region m r))"
    if "r \<in> set (mm_regionlist m)" for r
    using room that unfolding room_for_def by blast
  then have apart: "region_end (mm_region ?t r) \<le> unat (rg_base (mm_region ?t r')) \<or>
        region_end (mm_region ?t r') \<le> unat (rg_base (mm_region ?t r))"
    if "r \<in> set (mm_regionlist ?t)" "r' \<in> set (mm_regionlist ?t)" "r \<noteq> r'" for r r'
    using that pm_invD(3) [OF inv, of r r'] e n by (fastforce simp: added_region_simps)
  show ?thesis
    unfolding pm_inv_def
    using pm_invD(1,4) [OF inv] n apart added_region_ok [OF inv room] added_region_freelist [OF inv room]
    by (auto simp: added_region_simps(2,9))
qed

end
