(* ===== verification/Pm_Props.thy ===== *)
theory Pm_Props
  imports Pm
begin

text \<open>
  Properties of the physical memory manager: adding a region, allocating and freeing pages, finding
  the descriptor of an address, and that no page it hands out contains its own bookkeeping.
\<close>

section \<open>A machine with one region of sixteen frames\<close>

definition demo_mm :: mm where
  "demo_mm = \<lparr>mm_region = (\<lambda>_. \<lparr>rg_base = 0, rg_pagecnt = 0\<rparr>),
     mm_page = (\<lambda>_. \<lparr>pg_pfn = 0, pg_usage = 0, pg_order = 0\<rparr>),
     mm_regionlist = [], mm_buddy_freelist = replicate BUDDY_ORDERS [], mm_buddy_lock = False,
     mm_total = 0, mm_used = 0, mm_hhdm = 0xFFFF800000000000, mm_mem = (\<lambda>_. 7),
     mm_features = \<lparr>ft_pge = True, ft_nx = True, ft_gbpages = False\<rparr>\<rparr>"

definition demo_mm16 :: mm where
  "demo_mm16 = added_region 0x100000 0x10000 demo_mm"

lemma demo_mm_inv: "pm_inv demo_mm"
  by (simp add: pm_inv_def demo_mm_def BUDDY_ORDERS_def)

lemma demo_mm_room: "room_for demo_mm 0x100000 0x10000"
  by (simp add: room_for_def demo_mm_def region_used_nat)

lemma demo_mm16_facts:
  shows "pm_inv demo_mm16" and "\<not> mm_buddy_lock demo_mm16"
    and "mm_buddy_freelist demo_mm16 ! 0 = map (\<lambda>i. region_page 0xFFFF800000100000 (of_nat i)) [1..<16]"
    and "mm_regionlist demo_mm16 = [0xFFFF800000100000]"
    and "mm_region demo_mm16 0xFFFF800000100000 = \<lparr>rg_base = 0x100000, rg_pagecnt = 16\<rparr>"
proof -
  show "pm_inv demo_mm16" unfolding demo_mm16_def by (rule added_region_inv [OF demo_mm_inv demo_mm_room])
  show "\<not> mm_buddy_lock demo_mm16" by (simp add: demo_mm16_def added_region_simps demo_mm_def)
  have u: "unat (region_used 0x10000 div PAGE_SIZE) = 1" by (simp add: region_used_nat(2))
  have n: "unat ((0x10000::u64) div PAGE_SIZE) = 16" by (simp add: unat_div PAGE_SIZE_def)
  have l: "0 < length (mm_buddy_freelist demo_mm)" "mm_buddy_freelist demo_mm ! 0 = []"
    "P2V (mm_hhdm demo_mm) 0x100000 = 0xFFFF800000100000" "mm_regionlist demo_mm = []"
    by (simp_all add: demo_mm_def BUDDY_ORDERS_def P2V_def)
  show "mm_buddy_freelist demo_mm16 ! 0 = map (\<lambda>i. region_page 0xFFFF800000100000 (of_nat i)) [1..<16]"
    unfolding demo_mm16_def using added_region_simps(10) [OF l(1)] by (simp only: l u n append_Nil)
  show "mm_regionlist demo_mm16 = [0xFFFF800000100000]" by (simp add: demo_mm16_def added_region_simps l)
  show "mm_region demo_mm16 0xFFFF800000100000 = \<lparr>rg_base = 0x100000, rg_pagecnt = 16\<rparr>"
    by (simp add: demo_mm16_def added_region_simps l PAGE_SIZE_def)
qed

lemma demo_mm16_page: "region_page 0xFFFF800000100000 5 \<in> all_pages demo_mm16"
proof -
  have "region_page 0xFFFF800000100000 (of_nat 5) \<in> region_pages demo_mm16 0xFFFF800000100000"
    unfolding region_pages_def by (rule imageI) (simp add: demo_mm16_facts region_meta_def)
  then show ?thesis by (simp add: all_pages_def demo_mm16_facts)
qed

section \<open>Regions\<close>

text \<open>C9: \<open>pm_add_region\<close> of a page-aligned range with room for its descriptors keeps the invariant of
  the memory manager, appends the region, and adds exactly its frames behind the descriptors, in
  ascending order, to the order-0 free list; totals grow accordingly and the lock is free again.\<close>

theorem pm_add_region_manages_frames:
  assumes "pm_inv m" and "room_for m base len" and "\<not> mm_buddy_lock m"
  shows "runs_to (pm_add_region base len) m (\<lambda>_ t.
     pm_inv t \<and> \<not> mm_buddy_lock t \<and>
     mm_regionlist t = mm_regionlist m @ [P2V (mm_hhdm m) base] \<and>
     mm_total t = mm_total m + len div PAGE_SIZE \<and>
     mm_used t = mm_used m + region_used len div PAGE_SIZE \<and>
     map (PG2P t) (mm_buddy_freelist t ! 0) = map (PG2P t) (mm_buddy_freelist m ! 0) @
       map (\<lambda>i. base + of_nat i * PAGE_SIZE) [unat (region_used len div PAGE_SIZE)..<unat (len div PAGE_SIZE)])"
proof -
  have l: "0 < length (mm_buddy_freelist m)" using pm_invD(4) [OF assms(1)] by (simp add: BUDDY_ORDERS_def)
  let ?t = "added_region base len m" and ?r = "P2V (mm_hhdm m) base"
  have inv: "pm_inv ?t" using assms(1,2) by (rule added_region_inv)
  have "region_ok ?t ?r" using pm_invD(2) [OF inv] by (simp add: added_region_simps)
  then have "PG2P ?t (region_page ?r (of_nat i)) = base + of_nat i * PAGE_SIZE" if "i < unat (len div PAGE_SIZE)" for i
    using PG2P_region(1) [of ?t ?r i] that by (simp add: added_region_simps)
  then show ?thesis
    by (intro runs_to_mono [OF pm_add_region_runs [OF assms(2,3) l]])
      (simp add: inv added_region_simps(2,4,5,6) added_region_simps(10) [OF l] assms(3))
qed

theorem pm_add_region_manages_frames_witness:
  "runs_to (pm_add_region 0x100000 0x10000) demo_mm (\<lambda>_ t. pm_inv t \<and> mm_total t = 16 \<and> mm_used t = 1)"
proof -
  have "region_used 0x10000 div PAGE_SIZE = 1"
    by (simp add: word_unat_eq_iff region_used_nat(2))
  then show ?thesis
    by (intro runs_to_mono [OF pm_add_region_manages_frames [OF demo_mm_inv demo_mm_room]])
      (simp_all add: demo_mm_def PAGE_SIZE_def)
qed

text \<open>C13: A range shorter than a page is not refused: the subtraction in the size check wraps around.
  The region is entered with no page at all, and one page more counts as used.\<close>

theorem pm_add_region_accepts_tiny:
  assumes "unat len < 4096" and "\<not> mm_buddy_lock m"
  shows "runs_to (pm_add_region base len) m (\<lambda>_ t.
     mm_regionlist t = mm_regionlist m @ [P2V (mm_hhdm m) base] \<and>
     mm_total t = mm_total m \<and> mm_used t = mm_used m + 1)"
proof -
  have "unat len < 2 ^ 53" using assms(1) by simp
  note used = region_used_nat(1) [OF this]
  have "32 * unat len div 4096 < 32" using assms(1) by linarith
  then have "(32 + 32 * unat len div 4096 + 4095) div 4096 = 1" by linarith
  with used have "unat (region_used len) = 4096" by linarith
  then have u: "region_used len = 0x1000" by (simp add: word_unat_eq_iff)
  have n: "len div PAGE_SIZE = 0" using assms(1) by (simp add: word_unat_eq_iff unat_div PAGE_SIZE_def)
  have "unat (len - 0x1000) \<ge> 2 ^ 64 - 4096"
    using assms(1) by (simp add: unat_sub_if')
  then have "\<not> len - 0x1000 < 0x2000" by (simp add: word_less_nat_alt)
  then show ?thesis
    using assms(2) n by (simp add: pm_add_region_def Let_def u wp PAGE_SIZE_def page_upd_def)
qed

theorem pm_add_region_accepts_tiny_witness:
  "runs_to (pm_add_region 0x5000 0x800) demo_mm (\<lambda>_ t. mm_total t = 0 \<and> mm_used t = 1)"
  by (rule runs_to_mono [OF pm_add_region_accepts_tiny]) (simp_all add: demo_mm_def)

section \<open>Pages\<close>

text \<open>C10: \<open>pm_allocate_zeroed\<close> hands out the page at the head of the free list and clears exactly its
  frame: afterwards the page is used and no longer free, no other managed page names the same frame,
  all other memory is unchanged and the invariant holds.\<close>

theorem pm_allocate_zeroed_exclusive:
  assumes "pm_inv m" and "\<not> mm_buddy_lock m" and "mm_buddy_freelist m ! 0 \<noteq> []"
  shows "runs_to (pm_allocate_zeroed usage) m (\<lambda>p t.
     pm_inv t \<and> \<not> mm_buddy_lock t \<and> p = hd (mm_buddy_freelist m ! 0) \<and>
     mm_buddy_freelist t ! 0 = tl (mm_buddy_freelist m ! 0) \<and> p \<notin> set (mm_buddy_freelist t ! 0) \<and>
     pg_usage (mm_page t p) = usage \<and> mm_used t = mm_used m + 1 \<and>
     (\<forall>q \<in> all_pages t - {p}. PG2P t q \<noteq> PG2P t p) \<and>
     (\<forall>x. mm_mem t x = (if x - PG2V m p < PAGE_SIZE then 0 else mm_mem m x)))"
proof (rule runs_to_mono [OF pm_allocate_zeroed_correct [OF assms]], elim conjE, goal_cases)
  case (1 p t)
  then have post: "pm_inv t" "pm_same m t" "mm_buddy_freelist m ! 0 = p # mm_buddy_freelist t ! 0"
      "pg_usage (mm_page t p) = usage" "mm_used t = mm_used m + 1"
    by (simp_all add: pm_alloc_post_def)
  have p: "p \<in> all_pages t"
    using pm_free_in_all [OF assms(1), of p] post(3) pm_same_pages(1) [OF post(2)] by simp
  have "distinct (p # mm_buddy_freelist t ! 0)" using pm_invD(5) [OF assms(1)] post(3) by simp
  moreover have "PG2P t q \<noteq> PG2P t p" if "q \<in> all_pages t - {p}" for q
    using PG2P_inj [OF post(1) _ p, of q] that by blast
  moreover have "\<not> mm_buddy_lock t" using post(2) assms(2) by (simp add: pm_same_def)
  ultimately show ?case using post 1(2) by (simp add: zero_page_def)
qed

theorem pm_allocate_zeroed_exclusive_witness:
  "runs_to (pm_allocate_zeroed kPageUseVm) demo_mm16 (\<lambda>p t.
     p = region_page 0xFFFF800000100000 1 \<and> pm_inv t \<and> pg_usage (mm_page t p) = kPageUseVm)"
  by (rule runs_to_mono [OF pm_allocate_zeroed_exclusive [OF demo_mm16_facts(1,2)]])
    (simp_all add: demo_mm16_facts upt_rec)

text \<open>C11: Freeing an allocated page and looking it up: the page goes to the tail of the free list, the
  used counter goes down, nothing else of the bookkeeping and no memory changes, and every address
  of its frame still leads \<open>pm_lookup\<close> to its descriptor.\<close>

theorem pm_free_appends:
  assumes "pm_inv m" and "\<not> mm_buddy_lock m" and "p \<in> all_pages m" and "p \<notin> set (mm_buddy_freelist m ! 0)"
    and "x < 4096"
  shows "runs_to (pm_free p) m (\<lambda>_ t. pm_inv t \<and> pm_same m t \<and> mm_mem t = mm_mem m \<and>
     mm_buddy_freelist t ! 0 = mm_buddy_freelist m ! 0 @ [p] \<and> mm_used t = mm_used m - 1 \<and>
     pm_lookup t (PG2P t p + of_nat x) = Some p)"
proof (rule runs_to_mono [OF pm_free_correct [OF assms(1-4)]], elim conjE, goal_cases)
  case (1 u t)
  have "p \<in> all_pages t" using assms(3) pm_same_pages(1) [OF 1(2)] by simp
  then have "pm_lookup t (PG2P t p + of_nat x) = Some p"
    by (rule all_pagesE) (use pm_lookup_page [OF 1(1)] assms(5) in simp)
  with 1 show ?case by simp
qed

theorem pm_free_appends_witness:
  "runs_to (kbind (pm_allocate kPageUseWired) pm_free) demo_mm16 (\<lambda>_ t. pm_inv t \<and>
     mm_buddy_freelist t ! 0 = tl (mm_buddy_freelist demo_mm16 ! 0) @ [region_page 0xFFFF800000100000 1] \<and>
     pm_lookup t (PG2P t (region_page 0xFFFF800000100000 1) + 12) = Some (region_page 0xFFFF800000100000 1))"
proof -
  have "mm_buddy_freelist demo_mm16 ! 0 \<noteq> []" by (simp add: demo_mm16_facts)
  note alloc = pm_allocate_correct [OF demo_mm16_facts(1,2) this]
  have hd: "hd (mm_buddy_freelist demo_mm16 ! 0) = region_page 0xFFFF800000100000 1"
    by (simp add: demo_mm16_facts upt_rec)
  show ?thesis
    unfolding runs_to_kbind
  proof (rule runs_to_mono [OF alloc], elim conjE, goal_cases)
    case (1 p t)
    then have post: "pm_inv t" "pm_same demo_mm16 t" "mm_buddy_freelist demo_mm16 ! 0 = p # mm_buddy_freelist t ! 0"
      by (simp_all add: pm_alloc_post_def)
    have p: "p = region_page 0xFFFF800000100000 1" using hd post(3) by simp
    have "p \<in> all_pages t"
      using pm_free_in_all [OF demo_mm16_facts(1), of p] post(3) pm_same_pages(1) [OF post(2)] by simp
    moreover have "p \<notin> set (mm_buddy_freelist t ! 0)"
      using pm_invD(5) [OF demo_mm16_facts(1)] post(3) by simp
    moreover have "\<not> mm_buddy_lock t" using post(2) demo_mm16_facts(2) by (simp add: pm_same_def)
    ultimately have "runs_to (pm_free p) t (\<lambda>_ u. pm_inv u \<and> pm_same t u \<and> mm_mem u = mm_mem t \<and>
       mm_buddy_freelist u ! 0 = mm_buddy_freelist t ! 0 @ [p] \<and> mm_used u = mm_used t - 1 \<and>
       pm_lookup u (PG2P u p + of_nat 12) = Some p)"
      using post(1) by (intro pm_free_appends) simp_all
    then show ?case by (rule runs_to_mono) (simp add: p post(3))
  qed
qed



end
