(* ===== verification/Amd64_Vm.thy ===== *)
theory Amd64_Vm
  imports Pm
begin

text \<open>
  Page tables, \<^verbatim>\<open>platform/amd64/vm.c\<close>. The state is the memory manager's: tables are page frames it
  hands out, and their entries are 64-bit words of \<open>mm_mem\<close> at direct-map addresses. A map is named
  by the physical address of its top table, \<open>portstate.cr3\<close>. The instructions that load \<open>cr3\<close> and
  flush the translation cache have no counterpart: the model has no such cache.
\<close>

section \<open>Entries and flags\<close>

definition ptePresent :: u64 where "ptePresent = 0x1"

definition pteWrite :: u64 where "pteWrite = 0x2"

definition pteUser :: u64 where "pteUser = 0x4"

definition ptePwt :: u64 where "ptePwt = 0x8"

definition ptePcd :: u64 where "ptePcd = 0x10"

definition ptePat :: u64 where "ptePat = 0x80"

definition ptePagesize :: u64 where "ptePagesize = 0x80"

definition pteGlobal :: u64 where "pteGlobal = 0x100"

definition pteAddress :: u64 where "pteAddress = 0x000FFFFFFFFFF000"

definition pteNoExecute :: u64 where "pteNoExecute = 0x8000000000000000"

definition pteFlagCreateNew :: u32 where "pteFlagCreateNew = 1"

definition pteFlag2MB :: u32 where "pteFlag2MB = 2"

definition pteFlag1GB :: u32 where "pteFlag1GB = 4"

definition kVmRead :: u64 where "kVmRead = 1"

definition kVmWrite :: u64 where "kVmWrite = 2"

definition kVmExecute :: u64 where "kVmExecute = 4"

definition kVmUser :: u64 where "kVmUser = 8"

definition kVmGlobal :: u64 where "kVmGlobal = 16"

definition kVmHuge :: u64 where "kVmHuge = 32"

definition kVmHugeShift :: nat where "kVmHugeShift = 26"

definition kVmHuge2MB :: u64 where "kVmHuge2MB = push_bit kVmHugeShift 21 OR kVmHuge"

definition kVmHuge1GB :: u64 where "kVmHuge1GB = push_bit kVmHugeShift 30 OR kVmHuge"

definition kVmAll :: u64 where "kVmAll = kVmRead OR kVmWrite"

definition kVmUncached :: u64 where "kVmUncached = 0"

definition kVmWriteback :: u64 where "kVmWriteback = 1"

definition kVmWritethrough :: u64 where "kVmWritethrough = 2"

definition kVmWritecombine :: u64 where "kVmWritecombine = 3"

definition INDEX :: "u64 \<Rightarrow> nat \<Rightarrow> u64" where
  "INDEX addr level = drop_bit (12 + 9 * level) addr AND 0x1ff"

section \<open>Operations\<close>

text \<open>One level of \<open>pte_walk\<close>: the table an entry points to, created when it is missing and the
  flags ask for it. The function has this block three times, for the top three levels.\<close>

definition pte_next :: "u64 \<Rightarrow> u64 \<Rightarrow> u32 \<Rightarrow> (mm, u64 option) km" where
  "pte_next table index flags =
     kbind (kget (\<lambda>m. mm_mem m (table + 8 * index))) (\<lambda>entry.
     if entry AND ptePresent \<noteq> 0
     then kbind (kget mm_hhdm) (\<lambda>hhdm. kreturn (Some (P2V hhdm (entry AND pteAddress))))
     else if flags AND pteFlagCreateNew = 0 then kreturn None
     else
       kbind (pm_allocate_zeroed kPageUseVm) (\<lambda>page.
       kthen (kmodify (\<lambda>m. m\<lparr>mm_mem := (mm_mem m)(table + 8 * index :=
          PG2P m page OR ptePresent OR pteUser OR pteWrite)\<rparr>))
       (kbind (kget (\<lambda>m. PG2V m page)) (\<lambda>v. kreturn (Some v)))))"

definition pte_walk :: "u64 \<Rightarrow> u64 \<Rightarrow> u32 \<Rightarrow> (mm, u64 option) km" where
  "pte_walk cr3 addr flags =
     kbind (kget (\<lambda>m. P2V (mm_hhdm m) cr3)) (\<lambda>pml4.
     kbind (pte_next pml4 (INDEX addr 3) flags) (\<lambda>r3.
     case r3 of
       None \<Rightarrow> kreturn None
     | Some pml3 \<Rightarrow>
         if flags AND pteFlag1GB \<noteq> 0 then kreturn (Some (pml3 + 8 * INDEX addr 2))
         else kbind (pte_next pml3 (INDEX addr 2) flags) (\<lambda>r2.
           case r2 of
             None \<Rightarrow> kreturn None
           | Some pml2 \<Rightarrow>
               if flags AND pteFlag2MB \<noteq> 0 then kreturn (Some (pml2 + 8 * INDEX addr 1))
               else kbind (pte_next pml2 (INDEX addr 1) flags) (\<lambda>r1.
                 case r1 of
                   None \<Rightarrow> kreturn None
                 | Some pml1 \<Rightarrow> kreturn (Some (pml1 + 8 * INDEX addr 0))))))"

definition vm_port_unmap :: "u64 \<Rightarrow> u64 \<Rightarrow> u64 \<Rightarrow> (mm, unit) km" where
  "vm_port_unmap cr3 vaddr flags =
     kbind
       (if flags AND kVmHuge \<noteq> 0
        then (let s = drop_bit kVmHugeShift flags
              in if s = 12 then kreturn 0
                 else if s = 21 then kreturn pteFlag2MB
                 else if s = 30 then
                   kbind (kget (\<lambda>m. ft_gbpages (mm_features m))) (\<lambda>gb.
                   kthen (kassert gb ''g_features.gbpages'') (kreturn pteFlag1GB))
                 else kfail (AssertFail ''invalid huge page size''))
        else kreturn 0) (\<lambda>walk_flags.
     kbind (pte_walk cr3 vaddr walk_flags) (\<lambda>pte.
     case pte of
       None \<Rightarrow> kreturn ()
     | Some slot \<Rightarrow> kmodify (\<lambda>m. m\<lparr>mm_mem := (mm_mem m)(slot :=
          mm_mem m slot AND NOT (ptePresent OR pteAddress))\<rparr>)))"

text \<open>The entry \<open>vm_port_map\<close> writes. The case for write-combining falls through into the one for
  write-through.\<close>

definition map_entry :: "features \<Rightarrow> u64 \<Rightarrow> u64 \<Rightarrow> u64 \<Rightarrow> u64" where
  "map_entry f paddr cache flags =
     (if flags AND kVmHuge \<noteq> 0 then ptePagesize else 0) OR
     PAGE_ALIGN_DOWN paddr OR
     (if flags AND kVmUser \<noteq> 0 then pteUser else 0) OR
     (if flags AND kVmWrite \<noteq> 0 then pteWrite else 0) OR
     (if flags AND kVmRead \<noteq> 0 then ptePresent else 0) OR
     (if ft_pge f \<and> flags AND kVmGlobal \<noteq> 0 then pteGlobal else 0) OR
     (if ft_nx f \<and> flags AND kVmExecute = 0 then pteNoExecute else 0) OR
     (if cache = kVmWritecombine then ptePat OR ptePwt OR ptePwt
      else if cache = kVmWritethrough then ptePwt
      else if cache = kVmWriteback then 0
      else if cache = kVmUncached then ptePcd OR ptePwt
      else 0)"

text \<open>
  \<open>vm_port_map\<close> calls itself only to emulate a gigabyte page with 512 pages of two megabytes; the
  inner calls carry the flag of that size (\<open>emulated_flags\<close> below), so they take the other path,
  which is \<open>vm_port_map_one\<close>. There the case of gigabyte pages has the feature.
\<close>

definition vm_port_map_one :: "u64 \<Rightarrow> u64 \<Rightarrow> u64 \<Rightarrow> u64 \<Rightarrow> u64 \<Rightarrow> (mm, unit) km" where
  "vm_port_map_one cr3 paddr vaddr cache flags =
     kbind
       (if flags AND kVmHuge \<noteq> 0
        then (let s = drop_bit kVmHugeShift flags
              in if s = 21 then kthen (kassert (paddr mod MiB 2 = 0) ''(paddr.addr % MiB(2)) == 0'')
                   (kreturn (pteFlagCreateNew OR pteFlag2MB))
                 else if s = 30 then kthen (kassert (paddr mod GiB 1 = 0) ''(paddr.addr % GiB(1)) == 0'')
                   (kreturn (pteFlagCreateNew OR pteFlag1GB))
                 else kfail (AssertFail ''invalid huge page size''))
        else kreturn pteFlagCreateNew) (\<lambda>walk_flags.
     kbind (pte_walk cr3 vaddr walk_flags) (\<lambda>pte.
     case pte of
       None \<Rightarrow> kfail NullDeref
     | Some slot \<Rightarrow> kmodify (\<lambda>m. m\<lparr>mm_mem := (mm_mem m)(slot := map_entry (mm_features m) paddr cache flags)\<rparr>)))"

definition vm_port_map :: "u64 \<Rightarrow> u64 \<Rightarrow> u64 \<Rightarrow> u64 \<Rightarrow> u64 \<Rightarrow> (mm, unit) km" where
  "vm_port_map cr3 paddr vaddr cache flags =
     kbind (kget (\<lambda>m. ft_gbpages (mm_features m))) (\<lambda>gb.
     if flags AND kVmHuge \<noteq> 0 \<and> drop_bit kVmHugeShift flags = 30 \<and> \<not> gb
     then
       kthen (kassert (paddr mod GiB 1 = 0) ''(paddr.addr % GiB(1)) == 0'')
       (kfor [0..<512] (\<lambda>i.
          vm_port_map_one cr3 (paddr + MiB 2 * of_nat i) (vaddr + MiB 2 * of_nat i) cache
            ((flags AND NOT kVmHuge1GB) OR kVmHuge2MB)))
     else vm_port_map_one cr3 paddr vaddr cache flags)"

definition vm_port_translate_paddr :: "u64 \<Rightarrow> u64 \<Rightarrow> (mm, u64) km" where
  "vm_port_translate_paddr cr3 addr =
     kbind (pte_walk cr3 addr 0) (\<lambda>pte.
     case pte of
       None \<Rightarrow> kreturn (- 1)
     | Some slot \<Rightarrow> kget (\<lambda>m. mm_mem m slot AND pteAddress))"

definition vm_port_translate :: "u64 \<Rightarrow> u64 \<Rightarrow> (mm, u64 option) km" where
  "vm_port_translate cr3 addr =
     kbind (vm_port_translate_paddr cr3 addr) (\<lambda>paddr.
     if paddr = - 1 then kreturn None else kget (\<lambda>m. pm_lookup m paddr))"

text \<open>\<open>vm_port_init_map\<close> returns the value it stores in \<open>portstate.cr3\<close>.\<close>

definition vm_port_init_map :: "(mm, u64) km" where
  "vm_port_init_map =
     kbind (pm_allocate_zeroed kPageUseVm) (\<lambda>page.
     kget (\<lambda>m. PG2P m page))"

lemma emulated_flags:
  assumes "flags AND kVmHuge \<noteq> 0" and "drop_bit kVmHugeShift flags = (30::u64)"
  shows "((flags AND NOT kVmHuge1GB) OR kVmHuge2MB) AND kVmHuge \<noteq> 0"
    and "drop_bit kVmHugeShift ((flags AND NOT kVmHuge1GB) OR kVmHuge2MB) = 21"
proof -
  have "((flags AND NOT kVmHuge1GB) OR kVmHuge2MB) AND kVmHuge = kVmHuge"
    by (simp add: kVmHuge2MB_def kVmHuge_def kVmHugeShift_def kVmHuge1GB_def bit.conj_disj_distrib2 bit.conj_disj_distrib)
  then show "((flags AND NOT kVmHuge1GB) OR kVmHuge2MB) AND kVmHuge \<noteq> 0"
    by (simp add: kVmHuge_def)
  show "drop_bit kVmHugeShift ((flags AND NOT kVmHuge1GB) OR kVmHuge2MB) = 21"
    using assms(2) by (simp add: drop_bit_or drop_bit_and kVmHuge1GB_def kVmHuge2MB_def kVmHuge_def kVmHugeShift_def)
qed

end
