(* ===== verification/Amd64_Pt.thy ===== *)
theory Amd64_Pt
  imports Amd64_Vm
begin

text \<open>
  What the processor does with the tables (\<open>hw_walk\<close>), the invariant that the tables of a map are
  different page frames in use, and how a write to an entry and a new table change the translation.
\<close>

section \<open>The processor's walk\<close>

definition is_table :: "u64 \<Rightarrow> bool" where
  "is_table e \<longleftrightarrow> e AND ptePresent \<noteq> 0 \<and> e AND ptePagesize = 0"

definition table_of :: "mm \<Rightarrow> u64 \<Rightarrow> u64" where
  "table_of m e = P2V (mm_hhdm m) (e AND pteAddress)"

text \<open>
  The entry that maps an address, given by its indices from the top table down, and how many levels
  above the last one the walk stopped: 0 for a page of 4 kilobytes, 1 for 2 megabytes, 2 for a
  gigabyte. (In an entry of the top table the page-size bit is reserved; the code never sets it.)
\<close>

fun hw_walk :: "mm \<Rightarrow> u64 \<Rightarrow> u64 list \<Rightarrow> (u64 \<times> nat) option" where
  "hw_walk m t [] = None"
| "hw_walk m t (i # is) =
     (let e = mm_mem m (t + 8 * i)
      in if e AND ptePresent = 0 then None
         else if is = [] \<or> e AND ptePagesize \<noteq> 0 then Some (e, length is)
         else hw_walk m (table_of m e) is)"

definition path_of :: "u64 \<Rightarrow> u64 list" where
  "path_of va = [INDEX va 3, INDEX va 2, INDEX va 1, INDEX va 0]"

text \<open>The table a sequence of indices leads to.\<close>

fun tbl :: "mm \<Rightarrow> u64 \<Rightarrow> u64 list \<Rightarrow> u64 option" where
  "tbl m t [] = Some t"
| "tbl m t (i # is) =
     (let e = mm_mem m (t + 8 * i) in if is_table e then tbl m (table_of m e) is else None)"

definition valid :: "u64 list \<Rightarrow> bool" where
  "valid p \<longleftrightarrow> (\<forall>i \<in> set p. i < 512)"

text \<open>The tables of a map are different frames, none of them free.\<close>

definition pt_ok :: "mm \<Rightarrow> u64 \<Rightarrow> bool" where
  "pt_ok m root \<longleftrightarrow>
     (\<forall>p t. valid p \<longrightarrow> length p \<le> 3 \<longrightarrow> tbl m root p = Some t \<longrightarrow>
        (\<exists>pg \<in> all_pages m - set (mm_buddy_freelist m ! 0). t = PG2V m pg)) \<and>
     (\<forall>p q t. valid p \<longrightarrow> valid q \<longrightarrow> length p \<le> 3 \<longrightarrow> length q \<le> 3 \<longrightarrow>
        tbl m root p = Some t \<longrightarrow> tbl m root q = Some t \<longrightarrow> p = q)"

lemma pt_okD:
  assumes "pt_ok m root"
  shows "valid p \<Longrightarrow> length p \<le> 3 \<Longrightarrow> tbl m root p = Some t \<Longrightarrow>
      \<exists>pg \<in> all_pages m - set (mm_buddy_freelist m ! 0). t = PG2V m pg"
    and "valid p \<Longrightarrow> valid q \<Longrightarrow> length p \<le> 3 \<Longrightarrow> length q \<le> 3 \<Longrightarrow>
        tbl m root p = Some t \<Longrightarrow> tbl m root q = Some t \<Longrightarrow> p = q"
  using assms unfolding pt_ok_def by blast+

lemma pt_ok_sub:
  assumes "pt_ok m root" and "pm_same m m'" and "set (mm_buddy_freelist m' ! 0) \<subseteq> set (mm_buddy_freelist m ! 0)"
    and sub: "\<And>q u. valid q \<Longrightarrow> length q \<le> 3 \<Longrightarrow> tbl m' root q = Some u \<Longrightarrow> tbl m root q = Some u"
  shows "pt_ok m' root"
  unfolding pt_ok_def
proof (intro conjI allI impI)
  fix p t
  assume "valid p" "length p \<le> 3" "tbl m' root p = Some t"
  then have "\<exists>pg \<in> all_pages m - set (mm_buddy_freelist m ! 0). t = PG2V m pg"
    using sub pt_okD(1) [OF assms(1)] by blast
  then show "\<exists>pg \<in> all_pages m' - set (mm_buddy_freelist m' ! 0). t = PG2V m' pg"
    using assms(3) pm_same_pages(1,3) [OF assms(2)] by auto
next
  fix p q t
  assume "valid p" "valid q" "length p \<le> 3" "length q \<le> 3" "tbl m' root p = Some t" "tbl m' root q = Some t"
  then show "p = q" using sub pt_okD(2) [OF assms(1)] by blast
qed

lemma valid_simps [simp]:
  "valid []" "valid (i # p) \<longleftrightarrow> i < 512 \<and> valid p" "valid (p @ q) \<longleftrightarrow> valid p \<and> valid q"
  by (auto simp: valid_def)

lemma valid_take: "valid p \<Longrightarrow> valid (take k p)"
  by (meson in_set_takeD valid_def)

lemma INDEX_lt [simp]: "INDEX va l < 512"
proof -
  have "INDEX va l = take_bit 9 (drop_bit (12 + 9 * l) va)"
    by (simp add: INDEX_def take_bit_eq_mask mask_eq_exp_minus_1)
  then have "unat (INDEX va l) < 2 ^ 9" by (simp add: unat_take_bit_u64)
  then show ?thesis by (simp add: word_less_nat_alt)
qed

lemma path_of_valid [simp]: "valid (path_of va)" "length (path_of va) = 4"
  by (simp_all add: path_of_def)

lemma tbl_append: "tbl m t (p @ q) = (case tbl m t p of None \<Rightarrow> None | Some u \<Rightarrow> tbl m u q)"
  by (induction p arbitrary: t) (simp_all add: Let_def)

lemma hw_walk_append:
  "tbl m t p = Some u \<Longrightarrow> q \<noteq> [] \<Longrightarrow> hw_walk m t (p @ q) = hw_walk m u q"
  by (induction p arbitrary: t) (auto simp: Let_def is_table_def split: if_splits)

text \<open>Both walks only read the slots on their way.\<close>

definition same_slots :: "mm \<Rightarrow> mm \<Rightarrow> u64 \<Rightarrow> u64 list \<Rightarrow> bool" where
  "same_slots m m' t p \<longleftrightarrow> mm_hhdm m' = mm_hhdm m \<and>
     (\<forall>k u. k < length p \<longrightarrow> tbl m t (take k p) = Some u \<longrightarrow> mm_mem m' (u + 8 * p ! k) = mm_mem m (u + 8 * p ! k))"

lemma same_slots_Cons:
  assumes "same_slots m m' t (i # p)"
  shows "mm_mem m' (t + 8 * i) = mm_mem m (t + 8 * i)"
    and "is_table (mm_mem m (t + 8 * i)) \<Longrightarrow> same_slots m m' (table_of m (mm_mem m (t + 8 * i))) p"
proof -
  have all: "\<forall>k u. k < Suc (length p) \<longrightarrow> tbl m t (take k (i # p)) = Some u \<longrightarrow>
      mm_mem m' (u + 8 * (i # p) ! k) = mm_mem m (u + 8 * (i # p) ! k)"
    and h: "mm_hhdm m' = mm_hhdm m"
    using assms by (simp_all add: same_slots_def)
  show "mm_mem m' (t + 8 * i) = mm_mem m (t + 8 * i)" using all [rule_format, of 0 t] by simp
  show "same_slots m m' (table_of m (mm_mem m (t + 8 * i))) p" if "is_table (mm_mem m (t + 8 * i))"
    unfolding same_slots_def using h that all [rule_format, of "Suc _"] by (simp add: Let_def)
qed

lemma same_slots_tbl: "same_slots m m' t p \<Longrightarrow> tbl m' t p = tbl m t p"
proof (induction p arbitrary: t)
  case (Cons i p)
  have "table_of m' e = table_of m e" for e
    using Cons.prems by (simp add: same_slots_def table_of_def)
  then show ?case using same_slots_Cons [OF Cons.prems] Cons.IH by (simp add: Let_def)
qed simp

lemma same_slots_hw: "same_slots m m' t p \<Longrightarrow> hw_walk m' t p = hw_walk m t p"
proof (induction p arbitrary: t)
  case (Cons i p)
  have "table_of m' e = table_of m e" for e
    using Cons.prems by (simp add: same_slots_def table_of_def)
  then show ?case using same_slots_Cons [OF Cons.prems] Cons.IH by (auto simp: Let_def is_table_def)
qed simp

section \<open>Slots\<close>

lemma all_pages_frame:
  assumes "pm_inv m" and "pg \<in> all_pages m"
  shows "unat (PG2P m pg) mod 4096 = 0" and "unat (PG2P m pg) + 4096 \<le> 2 ^ 52"
proof -
  obtain r i where r: "r \<in> set (mm_regionlist m)" and i: "i < unat (rg_pagecnt (mm_region m r))"
    and pg: "pg = region_page r (of_nat i)"
    using all_pagesE [OF assms(2)] by metis
  have ok: "region_ok m r" by (rule pm_invD(2) [OF assms(1) r])
  note p = PG2P_region(2) [OF ok i, folded pg]
  have b: "unat (rg_base (mm_region m r)) mod 4096 = 0" "region_end (mm_region m r) \<le> 2 ^ 52"
    using ok unfolding region_ok_def by blast+
  show "unat (PG2P m pg) mod 4096 = 0" using p b(1) by (simp add: mod_add_eq [symmetric])
  show "unat (PG2P m pg) + 4096 \<le> 2 ^ 52" using p b(2) i unfolding region_end_def by linarith
qed

lemma unat_slot:
  assumes "pm_inv m" and "pg \<in> all_pages m" and "i < 512"
  shows "unat (PG2P m pg + 8 * i) = unat (PG2P m pg) + 8 * unat i"
proof -
  have "unat (8 * i) = 8 * unat i" using assms(3) unat_mult_lem [of 8 i] by (simp add: word_less_nat_alt)
  moreover have "unat i < 512" using assms(3) by (simp add: word_less_nat_alt)
  ultimately show ?thesis
    using all_pages_frame(2) [OF assms(1,2)] unat_add_lem [of "PG2P m pg" "8 * i"] by simp
qed

lemma slot_eq:
  assumes "pm_inv m" and "pg \<in> all_pages m" and "pg' \<in> all_pages m" and "i < 512" and "j < 512"
    and "PG2V m pg + 8 * i = PG2V m pg' + 8 * j"
  shows "pg = pg'" and "i = j"
proof -
  have "(PG2P m pg + 8 * i) + mm_hhdm m = (PG2P m pg' + 8 * j) + mm_hhdm m"
    using assms(6) unfolding PG2V_def P2V_def by (simp only: ac_simps)
  then have "PG2P m pg + 8 * i = PG2P m pg' + 8 * j" by simp
  then have e: "unat (PG2P m pg) + 8 * unat i = unat (PG2P m pg') + 8 * unat j"
    unfolding unat_slot [OF assms(1,2,4), symmetric] unat_slot [OF assms(1,3,5), symmetric] by (rule arg_cong)
  obtain a where a: "unat (PG2P m pg) = 4096 * a" using all_pages_frame(1) [OF assms(1,2)] by (auto elim: dvdE)
  obtain b where b: "unat (PG2P m pg') = 4096 * b" using all_pages_frame(1) [OF assms(1,3)] by (auto elim: dvdE)
  have lt: "unat i < 512" "unat j < 512" using assms(4,5) by (simp_all add: word_less_nat_alt)
  then have "a = b" using e unfolding a b by linarith
  then have "PG2P m pg = PG2P m pg'" using a b by (simp add: word_unat_eq_iff)
  then show "pg = pg'" by (rule PG2P_inj [OF assms(1-3)])
  show "i = j" using e a b \<open>a = b\<close> by (simp add: word_unat_eq_iff)
qed

lemma slot_inj:
  assumes "pm_inv m" and "pt_ok m root" and "valid p" "length p \<le> 3" "tbl m root p = Some t" "i < 512"
    and "valid q" "length q \<le> 3" "tbl m root q = Some u" "j < 512" and "t + 8 * i = u + 8 * j"
  shows "p = q" and "i = j"
proof -
  obtain pg where pg: "pg \<in> all_pages m" "t = PG2V m pg" using pt_okD(1) [OF assms(2-5)] by blast
  obtain pg' where pg': "pg' \<in> all_pages m" "u = PG2V m pg'" using pt_okD(1) [OF assms(2,7-9)] by blast
  have eq: "PG2V m pg + 8 * i = PG2V m pg' + 8 * j" using assms(11) unfolding pg(2) pg'(2) .
  from slot_eq [OF assms(1) pg(1) pg'(1) assms(6,10) eq] show "i = j" and "p = q"
    using pt_okD(2) [OF assms(2,3,7,4,8,5)] assms(9) pg(2) pg'(2) by blast+
qed

section \<open>Writing an entry\<close>

abbreviation set_word :: "u64 \<Rightarrow> u64 \<Rightarrow> mm \<Rightarrow> mm" where
  "set_word x e m \<equiv> m\<lparr>mm_mem := (mm_mem m)(x := e)\<rparr>"

lemma set_word_same [simp]:
  "pm_inv (set_word x e m) = pm_inv m" "pm_same m (set_word x e m)"
  "all_pages (set_word x e m) = all_pages m" "PG2P (set_word x e m) pg = PG2P m pg"
  "PG2V (set_word x e m) pg = PG2V m pg" "table_of (set_word x e m) = table_of m"
  by (simp_all add: pm_inv_def region_ok_def region_pages_def all_pages_def PG2P_def PG2V_def pm_same_def
      table_of_def fun_eq_iff)

text \<open>A slot of a table, and a walk that does not pass through it.\<close>

definition slot_at :: "mm \<Rightarrow> u64 \<Rightarrow> u64 list \<Rightarrow> u64 \<Rightarrow> u64 \<Rightarrow> bool" where
  "slot_at m root p i x \<longleftrightarrow> pm_inv m \<and> pt_ok m root \<and> valid p \<and> length p \<le> 3 \<and> i < 512 \<and>
     (\<exists>t. tbl m root p = Some t \<and> x = t + 8 * i)"

definition through :: "u64 list \<Rightarrow> u64 \<Rightarrow> u64 list \<Rightarrow> bool" where
  "through p i q \<longleftrightarrow> take (Suc (length p)) q = p @ [i]"

lemma throughE:
  assumes "through p i q" obtains r where "q = p @ i # r"
  using assms append_take_drop_id [of "Suc (length p)" q] unfolding through_def
  by (metis append.assoc append_Cons append_Nil)

lemma through_append [simp]: "through p i (p @ i # r)"
  by (simp add: through_def)

lemma not_through_self: "length q \<le> length p \<Longrightarrow> \<not> through p i q"
  by (auto simp: through_def dest: arg_cong [where f = length])

lemma not_through_slots:
  assumes slot: "slot_at m root p i x" and q: "valid q" "length q \<le> 4" "\<not> through p i q"
  shows "same_slots m (set_word x e m) root q"
  unfolding same_slots_def
proof (intro conjI allI impI)
  fix k u
  assume k: "k < length q" and u: "tbl m root (take k q) = Some u"
  obtain t where t: "pm_inv m" "pt_ok m root" "valid p" "length p \<le> 3" "tbl m root p = Some t" "i < 512" "x = t + 8 * i"
    using slot unfolding slot_at_def by blast
  have "u + 8 * q ! k \<noteq> x"
  proof
    assume "u + 8 * q ! k = x"
    then have eq: "t + 8 * i = u + 8 * q ! k" using t(7) by simp
    have qk: "q ! k < 512" using q(1) k by (auto simp: valid_def)
    have len: "length (take k q) \<le> 3" using k q(2) by simp
    from slot_inj [OF t(1-6) valid_take [OF q(1)] len u qk eq]
    have "p = take k q" "i = q ! k" by blast+
    then have "take (Suc (length p)) q = p @ [i]" using k by (simp add: take_Suc_conv_app_nth)
    with q(3) show False by (simp add: through_def)
  qed
  then show "mm_mem (set_word x e m) (u + 8 * q ! k) = mm_mem m (u + 8 * q ! k)" by simp
qed simp

text \<open>What a write to a slot does to the tables and to the translation.\<close>

lemma write_other:
  assumes "slot_at m root p i x" and "valid q" "length q \<le> 4" "\<not> through p i q"
  shows "tbl (set_word x e m) root q = tbl m root q"
    and "hw_walk (set_word x e m) root q = hw_walk m root q"
  using not_through_slots [OF assms] same_slots_tbl same_slots_hw by blast+

lemma write_through:
  assumes slot: "slot_at m root p i x" and n: "length r \<le> 3 - length p"
  shows "tbl (set_word x e m) root (p @ i # r) =
      (if is_table e then tbl (set_word x e m) (table_of m e) r else None)"
    and "hw_walk (set_word x e m) root (p @ i # r) =
      (if e AND ptePresent = 0 then None
       else if r = [] \<or> e AND ptePagesize \<noteq> 0 then Some (e, length r)
       else hw_walk (set_word x e m) (table_of m e) r)"
proof -
  obtain t where t: "valid p" "length p \<le> 3" "tbl m root p = Some t" "x = t + 8 * i"
    using slot unfolding slot_at_def by blast
  have tp: "tbl (set_word x e m) root p = Some t"
    using write_other(1) [OF slot t(1) _ not_through_self] t(2,3) by simp
  show "tbl (set_word x e m) root (p @ i # r) =
      (if is_table e then tbl (set_word x e m) (table_of m e) r else None)"
    by (simp add: tbl_append tp [unfolded t(4)] t(4) Let_def)
  show "hw_walk (set_word x e m) root (p @ i # r) =
      (if e AND ptePresent = 0 then None
       else if r = [] \<or> e AND ptePagesize \<noteq> 0 then Some (e, length r)
       else hw_walk (set_word x e m) (table_of m e) r)"
    by (simp add: hw_walk_append [OF tp [unfolded t(4)]] t(4) Let_def)
qed

text \<open>An entry that is not a pointer to a table keeps the invariant.\<close>

lemma write_leaf_ok:
  assumes slot: "slot_at m root p i x" and leaf: "\<not> is_table e \<or> length p = 3"
  shows "pt_ok (set_word x e m) root"
proof -
  have ok: "pt_ok m root" using slot unfolding slot_at_def by blast
  have sub: "tbl m root q = Some u" if q: "valid q" "length q \<le> 3" "tbl (set_word x e m) root q = Some u" for q u
  proof (cases "through p i q")
    case True
    then obtain r where r: "q = p @ i # r" by (rule throughE)
    then have "length p \<noteq> 3" "length r \<le> 3 - length p" using q(2) by auto
    then show ?thesis using write_through(1) [OF slot, of r e] q(3) leaf r by simp
  next
    case False
    then show ?thesis using write_other(1) [OF slot q(1) _ False] q(2,3) by simp
  qed
  show ?thesis by (rule pt_ok_sub [OF ok]) (simp_all add: sub)
qed

section \<open>A new table\<close>

lemma slot_not_in_page:
  assumes "pm_inv m" and "pg \<in> all_pages m" and "pg' \<in> all_pages m" and "pg \<noteq> pg'" and "i < 512"
  shows "\<not> PG2V m pg' + 8 * i - PG2V m pg < PAGE_SIZE"
proof
  assume lt: "PG2V m pg' + 8 * i - PG2V m pg < PAGE_SIZE"
  let ?d = "PG2V m pg' + 8 * i - PG2V m pg"
  have d: "unat ?d < 4096" using lt by (simp add: word_less_nat_alt PAGE_SIZE_def)
  have "PG2P m pg' + 8 * i = PG2P m pg + ?d" unfolding PG2V_def P2V_def by simp
  moreover have "unat (PG2P m pg + ?d) = unat (PG2P m pg) + unat ?d"
    using d all_pages_frame(2) [OF assms(1,2)] unat_add_lem [of "PG2P m pg" ?d] by simp
  ultimately have e: "unat (PG2P m pg') + 8 * unat i = unat (PG2P m pg) + unat ?d"
    using unat_slot [OF assms(1,3,5)] by metis
  obtain a where a: "unat (PG2P m pg) = 4096 * a" using all_pages_frame(1) [OF assms(1,2)] by (auto elim: dvdE)
  obtain b where b: "unat (PG2P m pg') = 4096 * b" using all_pages_frame(1) [OF assms(1,3)] by (auto elim: dvdE)
  have "unat i < 512" using assms(5) by (simp add: word_less_nat_alt)
  then have "a = b" using e d unfolding a b by linarith
  then have "PG2P m pg = PG2P m pg'" using a b by (simp add: word_unat_eq_iff)
  then show False using PG2P_inj [OF assms(1-3)] assms(4) by blast
qed

lemma slot_in_page:
  assumes "i < 512" shows "PG2V m pg + 8 * i - PG2V m pg < PAGE_SIZE"
proof -
  have "unat (8 * i) = 8 * unat i" using assms unat_mult_lem [of 8 i] by (simp add: word_less_nat_alt)
  then show ?thesis using assms by (simp add: word_less_nat_alt PAGE_SIZE_def)
qed

text \<open>Clearing a page that is no table changes no walk.\<close>

lemma zeroed_same_slots:
  assumes inv: "pm_inv m" and ok: "pt_ok m root" and pg: "pg \<in> set (mm_buddy_freelist m ! 0)"
    and m1: "mm_hhdm m1 = mm_hhdm m" "mm_mem m1 = zero_page (PG2V m pg) (mm_mem m)"
    and q: "valid q" "length q \<le> 4"
  shows "same_slots m m1 root q"
  unfolding same_slots_def
proof (intro conjI allI impI m1(1))
  fix k u
  assume k: "k < length q" and u: "tbl m root (take k q) = Some u"
  have "length (take k q) \<le> 3" using k q(2) by simp
  then obtain pg' where pg': "pg' \<in> all_pages m - set (mm_buddy_freelist m ! 0)" "u = PG2V m pg'"
    using pt_okD(1) [OF ok valid_take [OF q(1)] _ u] by blast
  have "q ! k < 512" using q(1) k by (auto simp: valid_def)
  then have "\<not> u + 8 * q ! k - PG2V m pg < PAGE_SIZE"
    unfolding pg'(2) using pg' pg by (intro slot_not_in_page [OF inv pm_free_in_all [OF inv pg]]) auto
  then show "mm_mem m1 (u + 8 * q ! k) = mm_mem m (u + 8 * q ! k)" by (simp add: m1(2) zero_page_def)
qed

definition table_entry :: "u64 \<Rightarrow> u64" where
  "table_entry paddr = paddr OR ptePresent OR pteUser OR pteWrite"

lemma bit_pteAddress: "bit pteAddress n \<longleftrightarrow> 12 \<le> n \<and> n < 52"
proof -
  have e: "pteAddress = push_bit 12 (mask 40)"
    by (simp add: pteAddress_def mask_eq_exp_minus_1 push_bit_eq_mult)
  show ?thesis unfolding e by (auto simp: bit_push_bit_iff bit_mask_iff)
qed

lemma frame_bits:
  fixes x :: u64
  assumes "unat x mod 4096 = 0" and "unat x < 2 ^ 52" and "bit x n"
  shows "12 \<le> n \<and> n < 52"
proof -
  have "take_bit 12 x = 0" using assms(1) by (simp add: word_unat_eq_iff unat_take_bit_u64)
  then have "\<not> bit x n" if "n < 12"
    using that by (metis bit_0_eq bit_take_bit_iff bot_apply bot_bool_def)
  moreover have "take_bit 52 x = x" using assms(2) by (simp add: word_unat_eq_iff unat_take_bit_u64)
  then have "n < 52" using assms(3) by (metis bit_take_bit_iff)
  ultimately show ?thesis using assms(3) by (meson not_less)
qed

lemma bit_small:
  fixes c :: u64
  assumes "bit c n" and "unat c < 2 ^ k" shows "n < k"
proof -
  have "take_bit k c = c" using assms(2) by (simp add: word_unat_eq_iff unat_take_bit_u64)
  then show ?thesis using assms(1) by (metis bit_take_bit_iff)
qed

text \<open>Combining a frame address with flag bits below it, and taking it apart again.\<close>

lemma frame_or_low:
  fixes x c :: u64
  assumes "unat x mod 4096 = 0" and "unat x < 2 ^ 52" and "unat c < 4096"
  shows "(x OR c) AND pteAddress = x" and "unat d < 4096 \<Longrightarrow> (x OR c) AND d = c AND d"
proof -
  show "(x OR c) AND pteAddress = x"
  proof (rule bit_eqI)
    fix n
    show "bit ((x OR c) AND pteAddress) n = bit x n"
      using frame_bits [OF assms(1,2)] bit_small [of c n 12] assms(3) by (auto simp: bit_and_iff bit_or_iff bit_pteAddress)
  qed
  assume "unat d < 4096"
  then have "bit x n \<Longrightarrow> \<not> bit d n" for n
    using frame_bits [OF assms(1,2), of n] bit_small [of d n 12] by auto
  then have "x AND d = 0" by (intro bit_eqI) (auto simp: bit_and_iff)
  then show "(x OR c) AND d = c AND d" by (simp add: bit.conj_disj_distrib2)
qed

lemma table_entry_facts:
  assumes "unat x mod 4096 = 0" and "unat x + 4096 \<le> 2 ^ 52"
  shows "is_table (table_entry x)" and "table_entry x AND pteAddress = x" and "table_entry x AND ptePresent \<noteq> 0"
proof -
  have e: "table_entry x = x OR 7"
    by (simp add: table_entry_def ptePresent_def pteUser_def pteWrite_def flip: or.assoc)
  have lt: "unat x < 2 ^ 52" using assms(2) by simp
  note low = frame_or_low [OF assms(1) lt, of 7]
  show "table_entry x AND pteAddress = x" using low(1) by (simp add: e)
  show "table_entry x AND ptePresent \<noteq> 0" using low(2) [of 1] by (simp add: e ptePresent_def)
  show "is_table (table_entry x)" using low(2) [of 1] low(2) [of 128] by (simp add: is_table_def e ptePresent_def ptePagesize_def)
qed

text \<open>
  What creating tables may change: pages move from the free list into the tree, at most \<open>k\<close> of them,
  no table disappears, and no address is translated differently.
\<close>

definition pt_step :: "nat \<Rightarrow> u64 \<Rightarrow> mm \<Rightarrow> mm \<Rightarrow> bool" where
  "pt_step k root m m' \<longleftrightarrow> pm_inv m' \<and> pm_same m m' \<and> pt_ok m' root \<and>
     length (mm_buddy_freelist m ! 0) \<le> length (mm_buddy_freelist m' ! 0) + k \<and>
     set (mm_buddy_freelist m' ! 0) \<subseteq> set (mm_buddy_freelist m ! 0) \<and>
     (\<forall>is. valid is \<longrightarrow> length is = 4 \<longrightarrow> hw_walk m' root is = hw_walk m root is) \<and>
     (\<forall>q u. valid q \<longrightarrow> length q \<le> 3 \<longrightarrow> tbl m root q = Some u \<longrightarrow> tbl m' root q = Some u)"

lemma pt_step_refl: "pm_inv m \<Longrightarrow> pt_ok m root \<Longrightarrow> pt_step 0 root m m"
  by (simp add: pt_step_def)

lemma pt_step_trans:
  assumes "pt_step k root m m'" and "pt_step l root m' m''"
  shows "pt_step (k + l) root m m''"
  using assms pm_same_trans unfolding pt_step_def by (auto simp: pm_same_def)

lemma pt_step_mono: "pt_step k root m m' \<Longrightarrow> k \<le> l \<Longrightarrow> pt_step l root m m'"
  by (auto simp: pt_step_def)

lemma zero_table:
  assumes "\<And>j. j < 512 \<Longrightarrow> mm_mem m (t + 8 * j) = 0" and "valid r"
  shows "tbl m t r = (if r = [] then Some t else None)" and "hw_walk m t r = None"
  using assms by (cases r; simp add: is_table_def)+

lemma PG2V_inj:
  "pm_inv m \<Longrightarrow> p \<in> all_pages m \<Longrightarrow> q \<in> all_pages m \<Longrightarrow> PG2V m p = PG2V m q \<Longrightarrow> p = q"
  by (rule PG2P_inj) (simp_all add: PG2V_def P2V_def)

text \<open>A tree with one more table, a page that was no table before, is well formed.\<close>

lemma pt_ok_add:
  assumes inv: "pm_inv m" and ok: "pt_ok m root" and same: "pm_same m m2" and pg: "pg \<in> all_pages m"
    "pg \<notin> set (mm_buddy_freelist m2 ! 0)"
    and tables: "\<And>q u. valid q \<Longrightarrow> length q \<le> 3 \<Longrightarrow> tbl m root q = Some u \<Longrightarrow>
      \<exists>pg' \<in> all_pages m - {pg}. u = PG2V m pg' \<and> pg' \<notin> set (mm_buddy_freelist m ! 0)"
    and free: "set (mm_buddy_freelist m2 ! 0) \<subseteq> set (mm_buddy_freelist m ! 0)"
    and cases: "\<And>q u. valid q \<Longrightarrow> length q \<le> 3 \<Longrightarrow> tbl m2 root q = Some u \<Longrightarrow>
      q = p @ [i] \<and> u = PG2V m pg \<or> tbl m root q = Some u"
  shows "pt_ok m2 root"
proof -
  have pages: "all_pages m2 = all_pages m" "PG2V m2 q = PG2V m q" for q
    using pm_same_pages [OF same] by simp_all
  have ne: "tbl m root q \<noteq> Some (PG2V m pg)" if "valid q" "length q \<le> 3" for q
    using tables [OF that] PG2V_inj [OF inv pg(1)] by blast
  show ?thesis
    unfolding pt_ok_def
  proof (intro conjI allI impI)
    fix q u
    assume q: "valid q" "length q \<le> 3" "tbl m2 root q = Some u"
    show "\<exists>pg \<in> all_pages m2 - set (mm_buddy_freelist m2 ! 0). u = PG2V m2 pg"
    proof (cases "tbl m root q = Some u")
      case True
      then show ?thesis using tables [OF q(1,2)] free by (auto simp: pages)
    next
      case False
      then have "u = PG2V m pg" using cases [OF q] by blast
      then show ?thesis using pg by (auto simp: pages)
    qed
  next
    fix q r u
    assume "valid q" "valid r" "length q \<le> 3" "length r \<le> 3" "tbl m2 root q = Some u" "tbl m2 root r = Some u"
    then show "q = r" using cases [of q u] cases [of r u] ne [of q] ne [of r] pt_okD(2) [OF ok, of q r u] by auto
  qed
qed

text \<open>The state after the page is taken and cleared: the tree is the same, none of its tables is the
  page, and the page is a table without entries.\<close>

lemma zeroed_page:
  assumes slot: "slot_at m root p i x"
    and post: "pm_alloc_post usage m pg m1" "mm_mem m1 = zero_page (PG2V m pg) (mm_mem m)"
  shows "pg \<in> all_pages m" and "pg \<notin> set (mm_buddy_freelist m1 ! 0)"
    and "valid q \<Longrightarrow> length q \<le> 4 \<Longrightarrow> tbl m1 root q = tbl m root q"
    and "valid q \<Longrightarrow> length q \<le> 4 \<Longrightarrow> hw_walk m1 root q = hw_walk m root q"
    and "valid q \<Longrightarrow> length q \<le> 3 \<Longrightarrow> tbl m root q = Some u \<Longrightarrow>
      \<exists>pg' \<in> all_pages m - {pg}. u = PG2V m pg' \<and> pg' \<notin> set (mm_buddy_freelist m ! 0)"
    and "slot_at m1 root p i x" and "table_of m1 (table_entry (PG2P m pg)) = PG2V m pg"
    and "j < 512 \<Longrightarrow> PG2V m pg + 8 * j \<noteq> x"
proof -
  obtain t where t: "pm_inv m" "pt_ok m root" "valid p" "length p \<le> 3" "tbl m root p = Some t" "i < 512" "x = t + 8 * i"
    using slot unfolding slot_at_def by blast
  have m1: "pm_inv m1" "pm_same m m1" "mm_buddy_freelist m ! 0 = pg # mm_buddy_freelist m1 ! 0" "mm_hhdm m1 = mm_hhdm m"
    using post(1) by (simp_all add: pm_alloc_post_def pm_same_def)
  have pg: "pg \<in> set (mm_buddy_freelist m ! 0)" using m1(3) by simp
  show pga: "pg \<in> all_pages m" by (rule pm_free_in_all [OF t(1) pg])
  show "pg \<notin> set (mm_buddy_freelist m1 ! 0)" using pm_invD(5) [OF t(1)] m1(3) by simp
  note same = zeroed_same_slots [OF t(1,2) pg m1(4) post(2)]
  show tbl1: "tbl m1 root q = tbl m root q" and "hw_walk m1 root q = hw_walk m root q"
    if "valid q" "length q \<le> 4" for q
    using same_slots_tbl same_slots_hw same that by blast+
  have ok1: "pt_ok m1 root"
    by (rule pt_ok_sub [OF t(2) m1(2)]) (use m1(3) tbl1 in auto)
  show tables: "\<exists>pg' \<in> all_pages m - {pg}. u = PG2V m pg' \<and> pg' \<notin> set (mm_buddy_freelist m ! 0)"
    if "valid q" "length q \<le> 3" "tbl m root q = Some u" for q u
    using pt_okD(1) [OF t(2) that] pg by blast
  show "slot_at m1 root p i x"
    using t m1(1) ok1 tbl1 unfolding slot_at_def by auto
  show "table_of m1 (table_entry (PG2P m pg)) = PG2V m pg"
    using table_entry_facts [OF all_pages_frame [OF t(1) pga]] by (simp add: table_of_def PG2V_def m1(4))
  obtain pgt where pgt: "pgt \<in> all_pages m - {pg}" "t = PG2V m pgt" using tables [OF t(3-5)] by blast
  show "PG2V m pg + 8 * j \<noteq> x" if j: "j < 512" for j
  proof
    assume eq: "PG2V m pg + 8 * j = x"
    have "x - PG2V m pg < PAGE_SIZE" unfolding eq [symmetric] by (rule slot_in_page [OF j])
    moreover have "\<not> x - PG2V m pg < PAGE_SIZE"
      unfolding t(7) pgt(2) using pgt(1) t(6) by (intro slot_not_in_page [OF t(1) pga]) auto
    ultimately show False by contradiction
  qed
qed

text \<open>The tree after the entry is written: one table more, below the slot.\<close>

lemma new_table_view:
  assumes slot: "slot_at m root p i x"
    and post: "pm_alloc_post usage m pg m1" "mm_mem m1 = zero_page (PG2V m pg) (mm_mem m)"
  defines "m2 \<equiv> set_word x (table_entry (PG2P m pg)) m1"
  shows "valid r \<Longrightarrow> length r \<le> 3 - length p \<Longrightarrow>
      tbl m2 root (p @ i # r) = (if r = [] then Some (PG2V m pg) else None)"
    and "valid r \<Longrightarrow> length r \<le> 3 - length p \<Longrightarrow> r \<noteq> [] \<Longrightarrow> hw_walk m2 root (p @ i # r) = None"
    and "valid q \<Longrightarrow> length q \<le> 4 \<Longrightarrow> \<not> through p i q \<Longrightarrow> tbl m2 root q = tbl m root q"
    and "valid q \<Longrightarrow> length q \<le> 4 \<Longrightarrow> \<not> through p i q \<Longrightarrow> hw_walk m2 root q = hw_walk m root q"
proof -
  note z = zeroed_page [OF assms(1-3)]
  have inv: "pm_inv m" using slot unfolding slot_at_def by blast
  have entry: "is_table (table_entry (PG2P m pg))" "table_entry (PG2P m pg) AND ptePresent \<noteq> 0"
    "table_entry (PG2P m pg) AND ptePagesize = 0"
    using table_entry_facts [OF all_pages_frame [OF inv z(1)]] by (simp_all add: is_table_def)
  have zero: "mm_mem m2 (PG2V m pg + 8 * j) = 0" if j: "j < 512" for j
    using z(8) [OF j] slot_in_page [OF j, of m pg] by (simp add: m2_def post(2) zero_page_def)
  show "tbl m2 root (p @ i # r) = (if r = [] then Some (PG2V m pg) else None)"
    if "valid r" "length r \<le> 3 - length p" for r
    unfolding m2_def write_through(1) [OF z(6) that(2)] using zero_table(1) [OF zero that(1)]
    by (simp add: entry z(7) m2_def)
  show "hw_walk m2 root (p @ i # r) = None" if "valid r" "length r \<le> 3 - length p" "r \<noteq> []" for r
    unfolding m2_def write_through(2) [OF z(6) that(2)]
    using zero_table(2) [OF zero that(1)] that(3) by (simp add: entry z(7) m2_def)
  show "tbl m2 root q = tbl m root q" "hw_walk m2 root q = hw_walk m root q"
    if "valid q" "length q \<le> 4" "\<not> through p i q" for q
    unfolding m2_def using write_other [OF z(6) that] z(3,4) [OF that(1,2)] by simp_all
qed

lemma new_table:
  assumes slot: "slot_at m root p i x" and len: "length p < 3" and absent: "mm_mem m x AND ptePresent = 0"
    and post: "pm_alloc_post usage m pg m1" "mm_mem m1 = zero_page (PG2V m pg) (mm_mem m)"
  defines "m2 \<equiv> set_word x (table_entry (PG2P m pg)) m1"
  shows "pt_step 1 root m m2" and "tbl m2 root (p @ [i]) = Some (PG2V m pg)"
proof -
  obtain t where t: "pm_inv m" "pt_ok m root" "tbl m root p = Some t" "x = t + 8 * i"
    using slot unfolding slot_at_def by blast
  note z = zeroed_page [OF slot post] and view = new_table_view [OF slot post, folded m2_def]
  have m1: "pm_inv m1" "pm_same m m1" "mm_buddy_freelist m ! 0 = pg # mm_buddy_freelist m1 ! 0"
    using post(1) by (simp_all add: pm_alloc_post_def)
  have gone: "tbl m root (p @ i # r) = None" "hw_walk m root (p @ i # r) = None" for r
    using absent t(3,4) by (simp_all add: tbl_append hw_walk_append [OF t(3)] is_table_def Let_def)
  have inv2: "pm_inv m2" and same2: "pm_same m m2" and fl2: "mm_buddy_freelist m2 ! 0 = mm_buddy_freelist m1 ! 0"
    using m1(1) pm_same_trans [OF m1(2), of m2] by (simp_all add: m2_def)
  show "tbl m2 root (p @ [i]) = Some (PG2V m pg)" using view(1) [of "[]"] by simp
  have cases: "q = p @ [i] \<and> u = PG2V m pg \<or> tbl m root q = Some u"
    if q: "valid q" "length q \<le> 3" "tbl m2 root q = Some u" for q u
  proof (cases "through p i q")
    case True
    then obtain r where r: "q = p @ i # r" by (rule throughE)
    then show ?thesis using view(1) [of r] q by (auto split: if_splits)
  next
    case False
    then show ?thesis using view(3) [OF q(1) _ False] q(2,3) by simp
  qed
  have "pt_ok m2 root"
    by (rule pt_ok_add [OF t(1,2) same2 z(1) _ z(5)]) (use cases z(2) m1(3) in \<open>auto simp: fl2\<close>)
  moreover have "hw_walk m2 root is = hw_walk m root is" if v: "valid is" "length is = 4" for "is"
  proof (cases "through p i is")
    case True
    then obtain r where r: "is = p @ i # r" by (rule throughE)
    then have "r \<noteq> []" "length r \<le> 3 - length p" "valid r" using v len by auto
    then show ?thesis using view(2) gone(2) by (simp add: r)
  next
    case False
    then show ?thesis using view(4) v by simp
  qed
  moreover have "tbl m2 root q = Some u" if q: "valid q" "length q \<le> 3" "tbl m root q = Some u" for q u
  proof -
    have "\<not> through p i q" using gone(1) q(3) by (auto elim!: throughE)
    then show ?thesis using view(3) [OF q(1)] q(2,3) by simp
  qed
  ultimately show "pt_step 1 root m m2"
    unfolding pt_step_def using inv2 same2 m1(3) by (auto simp: fl2)
qed

end
