(* ===== verification/Amd64_Map.thy ===== *)
theory Amd64_Map
  imports Amd64_Pt
begin

text \<open>
  The operations of \<^verbatim>\<open>platform/amd64/vm.c\<close> against the processor's walk: mapping changes the
  translation of exactly the page it is asked to map, unmapping removes exactly one, and the
  translation functions agree with the processor as long as no larger page is in the way.
\<close>

section \<open>Walking\<close>

text \<open>Where a walk with some flags ends: the number of indices it uses.\<close>

definition levels :: "u32 \<Rightarrow> nat" where
  "levels flags = (if flags AND pteFlag1GB \<noteq> 0 then 2 else if flags AND pteFlag2MB \<noteq> 0 then 3 else 4)"

text \<open>No page larger than those \<open>n\<close> indices select maps the address.\<close>

definition at_level :: "mm \<Rightarrow> u64 \<Rightarrow> nat \<Rightarrow> u64 list \<Rightarrow> bool" where
  "at_level m root n is \<longleftrightarrow> (\<forall>e l. hw_walk m root is = Some (e, l) \<longrightarrow> l + n \<le> 4)"

lemma at_level_entry:
  assumes "at_level m root n is" and "length is = 4" and "tbl m root (take k is) = Some t" and "k < 3" and "k + 1 < n"
    and "mm_mem m (t + 8 * is ! k) AND ptePresent \<noteq> 0"
  shows "is_table (mm_mem m (t + 8 * is ! k))"
proof (rule ccontr)
  assume "\<not> is_table (mm_mem m (t + 8 * is ! k))"
  then have ps: "mm_mem m (t + 8 * is ! k) AND ptePagesize \<noteq> 0" using assms(6) by (simp add: is_table_def)
  have split: "is = take k is @ is ! k # drop (Suc k) is" using assms(2,4) by (intro id_take_nth_drop) simp
  have "hw_walk m root is = hw_walk m t (is ! k # drop (Suc k) is)"
    by (subst split, rule hw_walk_append [OF assms(3)]) simp
  also have "\<dots> = Some (mm_mem m (t + 8 * is ! k), 3 - k)"
    using assms(2,6) ps by (simp add: Let_def)
  finally have "3 - k + n \<le> 4" using assms(1) by (simp add: at_level_def)
  then show False using assms(4,5) by linarith
qed

lemma tbl_take_Suc:
  assumes "tbl m root (take k is) = Some t" and "k < length is"
  shows "tbl m root (take (Suc k) is) =
     (if is_table (mm_mem m (t + 8 * is ! k)) then Some (table_of m (mm_mem m (t + 8 * is ! k))) else None)"
  using assms by (simp add: take_Suc_conv_app_nth tbl_append Let_def)

lemma pt_step_at_level:
  "pt_step k root m m' \<Longrightarrow> valid is \<Longrightarrow> length is = 4 \<Longrightarrow> at_level m' root n is = at_level m root n is"
  by (simp add: pt_step_def at_level_def)

lemma slot_atI:
  "pm_inv m \<Longrightarrow> pt_ok m root \<Longrightarrow> valid is \<Longrightarrow> length is = 4 \<Longrightarrow> k < 4 \<Longrightarrow> tbl m root (take k is) = Some t \<Longrightarrow>
   slot_at m root (take k is) (is ! k) (t + 8 * is ! k)"
  unfolding slot_at_def using valid_take [of "is" k] by (simp add: valid_def)

lemma pte_next_read:
  assumes "tbl m root (take k is) = Some t" and "length is = 4" and "k < 3" and "k + 1 < n" and "at_level m root n is"
    and "flags AND pteFlagCreateNew = 0"
  shows "runs_to (pte_next t (is ! k) flags) m (\<lambda>r m'. m' = m \<and> r = tbl m root (take (Suc k) is))"
  using at_level_entry [OF assms(5,2,1,3,4)] tbl_take_Suc [OF assms(1)] assms(2,3,6)
  by (auto simp: pte_next_def wp table_of_def is_table_def)

lemma pte_next_create:
  assumes m: "pm_inv m" "\<not> mm_buddy_lock m" "pt_ok m root" "mm_buddy_freelist m ! 0 \<noteq> []"
    and t: "tbl m root (take k is) = Some t" and "valid is" and "length is = 4" and k: "k < 3" "k + 1 < n"
    and "at_level m root n is" and fl: "flags AND pteFlagCreateNew \<noteq> 0"
  shows "runs_to (pte_next t (is ! k) flags) m (\<lambda>r m'.
     \<exists>u. r = Some u \<and> tbl m' root (take (Suc k) is) = Some u \<and> pt_step 1 root m m')"
proof (cases "mm_mem m (t + 8 * is ! k) AND ptePresent = 0")
  case True
  have slot: "slot_at m root (take k is) (is ! k) (t + 8 * is ! k)"
    using assms by (intro slot_atI) auto
  have "runs_to (pm_allocate_zeroed kPageUseVm) m (\<lambda>p m1. pm_alloc_post kPageUseVm m p m1 \<and>
     mm_mem m1 = zero_page (PG2V m p) (mm_mem m))"
    by (rule pm_allocate_zeroed_correct [OF m(1,2,4)])
  note alloc = this
  show ?thesis
    unfolding pte_next_def
  proof (simp add: True fl wp, rule runs_to_mono [OF alloc], elim conjE, goal_cases)
    case (1 pg m1)
    then have same: "pm_same m m1" by (simp add: pm_alloc_post_def)
    note pages = pm_same_pages [OF same]
    have "length (take k is) < 3" using assms(7) k by simp
    note new = new_table [OF slot this True 1]
    have "set_word (t + 8 * is ! k) (table_entry (PG2P m pg)) m1 =
        m1\<lparr>mm_mem := (mm_mem m1)(t + 8 * is ! k := PG2P m1 pg OR ptePresent OR pteUser OR pteWrite)\<rparr>"
      using pages(2) by (simp add: table_entry_def)
    with new show ?case
      using assms(7) k pages(3) by (simp add: take_Suc_conv_app_nth PG2V_def PG2P_def)
  qed
next
  case False
  then have "is_table (mm_mem m (t + 8 * is ! k))" using at_level_entry assms by blast
  then show ?thesis
    using False tbl_take_Suc [OF t] assms(7) k pt_step_mono [OF pt_step_refl [OF m(1,3)], of 1]
    by (simp add: pte_next_def wp table_of_def)
qed

text \<open>The walk as a loop over levels, from the table reached by the first \<open>k\<close> indices.\<close>

fun walk_from :: "u64 \<Rightarrow> u64 list \<Rightarrow> nat \<Rightarrow> nat \<Rightarrow> u32 \<Rightarrow> (mm, u64 option) km" where
  "walk_from t is k 0 flags = kreturn (Some (t + 8 * is ! k))"
| "walk_from t is k (Suc n) flags =
     kbind (pte_next t (is ! k) flags) (\<lambda>r.
     case r of None \<Rightarrow> kreturn None | Some u \<Rightarrow> walk_from u is (Suc k) n flags)"

lemma pte_walk_from:
  "pte_walk cr3 va flags =
     kbind (kget (\<lambda>m. P2V (mm_hhdm m) cr3)) (\<lambda>pml4. walk_from pml4 (path_of va) 0 (levels flags - 1) flags)"
  by (cases "flags AND pteFlag1GB = 0"; cases "flags AND pteFlag2MB = 0")
    (simp_all add: pte_walk_def levels_def path_of_def eval_nat_numeral cong: option.case_cong)

lemma walk_from_create:
  assumes "pm_inv m" "\<not> mm_buddy_lock m" "pt_ok m root" "n \<le> length (mm_buddy_freelist m ! 0)"
    and "tbl m root (take k is) = Some t" and v: "valid is" "length is = 4" and "k + n \<le> 3"
    and "at_level m root (Suc (k + n)) is" and fl: "flags AND pteFlagCreateNew \<noteq> 0"
  shows "runs_to (walk_from t is k n flags) m (\<lambda>r m'.
     \<exists>u. r = Some (u + 8 * is ! (k + n)) \<and> tbl m' root (take (k + n) is) = Some u \<and> pt_step n root m m')"
  using assms
proof (induction n arbitrary: t k m)
  case 0
  then show ?case using pt_step_refl by (simp add: wp)
next
  case (Suc n)
  have "mm_buddy_freelist m ! 0 \<noteq> []" using Suc.prems(4) by auto
  note nxt = pte_next_create [OF Suc.prems(1-3) this Suc.prems(5) v _ _ Suc.prems(9) fl]
  show ?case
  proof (simp add: wp, rule runs_to_mono [OF nxt], goal_cases)
    case (3 r m')
    then obtain u where u: "r = Some u" "tbl m' root (take (Suc k) is) = Some u" "pt_step 1 root m m'" by blast
    then have m': "pm_inv m'" "\<not> mm_buddy_lock m'" "pt_ok m' root" "n \<le> length (mm_buddy_freelist m' ! 0)"
      using Suc.prems(2,4) by (auto simp: pt_step_def pm_same_def)
    have "runs_to (walk_from u is (Suc k) n flags) m' (\<lambda>r m''.
       \<exists>v. r = Some (v + 8 * is ! (Suc k + n)) \<and> tbl m'' root (take (Suc k + n) is) = Some v \<and> pt_step n root m' m'')"
      using Suc.prems(8,9) pt_step_at_level [OF u(3) v] by (intro Suc.IH [OF m' u(2) v _ _ fl]) simp_all
    then show ?case
      unfolding u(1) option.case
      by (rule runs_to_mono) (use pt_step_trans [OF u(3)] in auto)
  qed (use Suc.prems(8) in auto)
qed

lemma walk_from_read:
  assumes "tbl m root (take k is) = Some t" and "length is = 4" and "k + n \<le> 3"
    and "at_level m root (Suc (k + n)) is" and "flags AND pteFlagCreateNew = 0"
  shows "runs_to (walk_from t is k n flags) m (\<lambda>r m'.
     m' = m \<and> r = map_option (\<lambda>u. u + 8 * is ! (k + n)) (tbl m root (take (k + n) is)))"
  using assms
proof (induction n arbitrary: t k)
  case 0
  then show ?case by (simp add: wp)
next
  case (Suc n)
  note nxt = pte_next_read [OF Suc.prems(1,2) _ _ Suc.prems(4,5)]
  show ?case
  proof (simp add: wp, rule runs_to_mono [OF nxt], goal_cases)
    case (3 r m')
    show ?case
    proof (cases r)
      case None
      have "take (k + Suc n) is = take (Suc k) is @ take n (drop (Suc k) is)"
        by (simp add: take_add [symmetric])
      then show ?thesis using None 3 by (simp add: wp tbl_append)
    next
      case (Some u)
      have "runs_to (walk_from u is (Suc k) n flags) m (\<lambda>r m'.
         m' = m \<and> r = map_option (\<lambda>u. u + 8 * is ! (Suc k + n)) (tbl m root (take (Suc k + n) is)))"
        using Suc.prems 3 Some by (intro Suc.IH) simp_all
      then show ?thesis using Some 3 by simp
    qed
  qed (use Suc.prems(3) in auto)
qed

lemma walk_from_exists:
  assumes "tbl m root (take k is) = Some t" and "tbl m root (take (k + n) is) = Some u" and "k + n < length is"
  shows "walk_from t is k n flags m = Inr (Some (u + 8 * is ! (k + n)), m)"
  using assms
proof (induction n arbitrary: t k)
  case 0
  then show ?case by (simp add: kreturn_def)
next
  case (Suc n)
  have "take (k + Suc n) is = take (Suc k) is @ take n (drop (Suc k) is)"
    by (simp add: take_add [symmetric])
  then obtain v where v: "tbl m root (take (Suc k) is) = Some v"
    using Suc.prems(2) by (auto simp: tbl_append split: option.splits)
  then have e: "is_table (mm_mem m (t + 8 * is ! k))" "v = table_of m (mm_mem m (t + 8 * is ! k))"
    using tbl_take_Suc [OF Suc.prems(1)] Suc.prems(3) by (simp_all split: if_splits)
  then have "pte_next t (is ! k) flags m = Inr (Some v, m)"
    by (simp add: pte_next_def km_defs is_table_def table_of_def)
  moreover have "walk_from v is (Suc k) n flags m = Inr (Some (u + 8 * is ! (Suc k + n)), m)"
    using Suc.prems by (intro Suc.IH [OF v]) simp_all
  ultimately show ?case by (simp add: kbind_def)
qed

text \<open>A walk that may create tables needs free pages for the missing ones: at most three.\<close>

lemma pte_walk_create:
  fixes m cr3 va flags
  defines "root \<equiv> P2V (mm_hhdm m) cr3" and "n \<equiv> levels flags"
  assumes "pm_inv m" "\<not> mm_buddy_lock m" "pt_ok m root"
    and room: "3 \<le> length (mm_buddy_freelist m ! 0) \<or> tbl m root (take (n - 1) (path_of va)) \<noteq> None"
    and "at_level m root n (path_of va)" and "flags AND pteFlagCreateNew \<noteq> 0"
  shows "runs_to (pte_walk cr3 va flags) m (\<lambda>r m'.
     \<exists>t. r = Some (t + 8 * path_of va ! (n - 1)) \<and> tbl m' root (take (n - 1) (path_of va)) = Some t \<and>
       pt_step (if tbl m root (take (n - 1) (path_of va)) = None then 3 else 0) root m m')"
proof -
  have n: "n - 1 \<le> 3" "Suc (n - 1) = n" by (simp_all add: n_def levels_def)
  have "runs_to (walk_from root (path_of va) 0 (n - 1) flags) m (\<lambda>r m'.
     \<exists>u. r = Some (u + 8 * path_of va ! (0 + (n - 1))) \<and> tbl m' root (take (0 + (n - 1)) (path_of va)) = Some u \<and>
       pt_step (if tbl m root (take (n - 1) (path_of va)) = None then n - 1 else 0) root m m')"
  proof (cases "tbl m root (take (n - 1) (path_of va))")
    case None
    then have "runs_to (walk_from root (path_of va) 0 (n - 1) flags) m (\<lambda>r m'.
       \<exists>u. r = Some (u + 8 * path_of va ! (0 + (n - 1))) \<and> tbl m' root (take (0 + (n - 1)) (path_of va)) = Some u \<and>
         pt_step (n - 1) root m m')"
      using assms n by (intro walk_from_create) simp_all
    then show ?thesis using None by simp
  next
    case (Some u)
    have "walk_from root (path_of va) 0 (n - 1) flags m = Inr (Some (u + 8 * path_of va ! (n - 1)), m)"
      using walk_from_exists [of m root 0 "path_of va" root "n - 1" u flags] Some n(1) by simp
    then show ?thesis
      using Some pt_step_refl [of m root] assms(3,5) by (intro runs_toI) auto
  qed
  then have "runs_to (pte_walk cr3 va flags) m (\<lambda>r m'.
     \<exists>u. r = Some (u + 8 * path_of va ! (0 + (n - 1))) \<and> tbl m' root (take (0 + (n - 1)) (path_of va)) = Some u \<and>
       pt_step (if tbl m root (take (n - 1) (path_of va)) = None then n - 1 else 0) root m m')"
    unfolding pte_walk_from runs_to_kbind runs_to_kget root_def n_def .
  then show ?thesis by (rule runs_to_mono) (use pt_step_mono n in \<open>auto split: if_splits\<close>)
qed

lemma pte_walk_read:
  fixes m cr3 va flags
  defines "root \<equiv> P2V (mm_hhdm m) cr3" and "n \<equiv> levels flags"
  assumes "at_level m root n (path_of va)" and "flags AND pteFlagCreateNew = 0"
  shows "runs_to (pte_walk cr3 va flags) m (\<lambda>r m'.
     m' = m \<and> r = map_option (\<lambda>t. t + 8 * path_of va ! (n - 1)) (tbl m root (take (n - 1) (path_of va))))"
proof -
  have n: "n - 1 \<le> 3" "Suc (n - 1) = n" by (simp_all add: n_def levels_def)
  have "runs_to (walk_from root (path_of va) 0 (n - 1) flags) m (\<lambda>r m'.
     m' = m \<and> r = map_option (\<lambda>u. u + 8 * path_of va ! (0 + (n - 1))) (tbl m root (take (0 + (n - 1)) (path_of va))))"
    using assms n by (intro walk_from_read) simp_all
  then show ?thesis
    unfolding pte_walk_from runs_to_kbind runs_to_kget root_def n_def by simp
qed

section \<open>The entry\<close>

text \<open>
  The abstract specification: after the operation the \<open>n\<close> indices of \<open>is\<close> select the entry \<open>e\<close>, and
  no other address is translated differently.
\<close>

definition remapped :: "u64 \<Rightarrow> nat \<Rightarrow> u64 list \<Rightarrow> u64 \<Rightarrow> mm \<Rightarrow> mm \<Rightarrow> bool" where
  "remapped root n is e m m' \<longleftrightarrow>
     (\<forall>js. valid js \<longrightarrow> length js = 4 \<longrightarrow> hw_walk m' root js =
        (if take n js = take n is then if e AND ptePresent = 0 then None else Some (e, 4 - n)
         else hw_walk m root js))"

lemma remapped_write:
  assumes slot: "slot_at m root (take k is) (is ! k) x" and v: "valid is" "length is = 4" and k: "k < 4"
    and leaf: "\<not> is_table e \<or> k = 3"
  shows "remapped root (Suc k) is e m (set_word x e m)"
  unfolding remapped_def
proof (intro allI impI)
  fix js :: "u64 list"
  assume js: "valid js" "length js = 4"
  have thr: "through (take k is) (is ! k) js \<longleftrightarrow> take (Suc k) js = take (Suc k) is"
    using v k by (simp add: through_def take_Suc_conv_app_nth)
  show "hw_walk (set_word x e m) root js =
     (if take (Suc k) js = take (Suc k) is then if e AND ptePresent = 0 then None else Some (e, 4 - Suc k)
      else hw_walk m root js)"
  proof (cases "through (take k is) (is ! k) js")
    case True
    then obtain r where r: "js = take k is @ is ! k # r" by (rule throughE)
    then have len: "length r = 3 - k" using arg_cong [OF r, of length] js v k by simp
    then have "length r \<le> 3 - length (take k is)" using v k by simp
    note w = write_through(2) [OF slot this, of e]
    have "r = [] \<or> e AND ptePagesize \<noteq> 0 \<or> e AND ptePresent = 0"
      using leaf len by (auto simp: is_table_def)
    then have "hw_walk (set_word x e m) root js = (if e AND ptePresent = 0 then None else Some (e, 3 - k))"
      using w len by (auto simp: r)
    then show ?thesis using thr True by simp
  next
    case False
    then show ?thesis using write_other(2) [OF slot js(1) _ False] js(2) thr by simp
  qed
qed

text \<open>What \<open>vm_port_map\<close> puts into an entry.\<close>

lemma PAGE_ALIGN_DOWN_bits: "bit (PAGE_ALIGN_DOWN x) n \<longleftrightarrow> bit x n \<and> 12 \<le> n"
proof -
  have "PAGE_ALIGN_DOWN x = x AND NOT (mask 12)"
    by (simp add: PAGE_ALIGN_DOWN_def ALIGN_DOWN_def PAGE_SIZE_def mask_eq_exp_minus_1)
  then show ?thesis
    using bit_imp_le_length [of x n] by (auto simp: bit_and_iff bit_not_iff bit_mask_iff)
qed

lemma PAGE_ALIGN_DOWN_and:
  "unat x < 2 ^ 52 \<Longrightarrow> PAGE_ALIGN_DOWN x AND pteAddress = PAGE_ALIGN_DOWN x"
  "unat c < 4096 \<Longrightarrow> PAGE_ALIGN_DOWN x AND c = 0"
proof -
  show "PAGE_ALIGN_DOWN x AND pteAddress = PAGE_ALIGN_DOWN x" if "unat x < 2 ^ 52"
    using bit_small [of x _ 52] that
    by (intro bit_eqI) (auto simp: bit_and_iff bit_pteAddress PAGE_ALIGN_DOWN_bits)
  show "PAGE_ALIGN_DOWN x AND c = 0" if "unat c < 4096"
    using bit_small [of c _ 12] that
    by (intro bit_eqI) (fastforce simp: bit_and_iff PAGE_ALIGN_DOWN_bits)
qed

lemmas pte_defs = ptePresent_def pteWrite_def pteUser_def ptePwt_def ptePcd_def ptePat_def ptePagesize_def
  pteGlobal_def pteAddress_def pteNoExecute_def

lemma map_entry_facts:
  shows "unat paddr < 2 ^ 52 \<Longrightarrow> map_entry f paddr cache flags AND pteAddress = PAGE_ALIGN_DOWN paddr"
    and "map_entry f paddr cache flags AND ptePresent = 0 \<longleftrightarrow> flags AND kVmRead = 0"
    and "flags AND kVmHuge \<noteq> 0 \<Longrightarrow> map_entry f paddr cache flags AND ptePagesize \<noteq> 0"
proof -
  show "map_entry f paddr cache flags AND pteAddress = PAGE_ALIGN_DOWN paddr" if "unat paddr < 2 ^ 52"
    unfolding map_entry_def bit.conj_disj_distrib2 PAGE_ALIGN_DOWN_and(1) [OF that]
    by (simp add: pte_defs)
  have "map_entry f paddr cache flags AND ptePresent = (if flags AND kVmRead \<noteq> 0 then ptePresent else 0)"
    unfolding map_entry_def bit.conj_disj_distrib2
    by (simp add: pte_defs PAGE_ALIGN_DOWN_and(2))
  then show "map_entry f paddr cache flags AND ptePresent = 0 \<longleftrightarrow> flags AND kVmRead = 0"
    by (simp add: ptePresent_def)
  show "map_entry f paddr cache flags AND ptePagesize \<noteq> 0" if "flags AND kVmHuge \<noteq> 0"
  proof -
    have "bit (map_entry f paddr cache flags) 7"
      using that by (simp add: map_entry_def bit_or_iff ptePagesize_def)
    moreover have "bit ptePagesize 7" by (simp add: ptePagesize_def)
    ultimately have "bit (map_entry f paddr cache flags AND ptePagesize) 7" by (simp add: bit_and_iff)
    then show ?thesis by auto
  qed
qed

section \<open>Mapping\<close>

text \<open>A request \<open>vm_port_map\<close> serves with one entry, and the number of indices that entry takes.\<close>

definition map_levels :: "u64 \<Rightarrow> nat" where
  "map_levels flags = (if flags AND kVmHuge = 0 then 4 else if drop_bit kVmHugeShift flags = 21 then 3 else 2)"

definition map_request :: "u64 \<Rightarrow> u64 \<Rightarrow> bool" where
  "map_request paddr flags \<longleftrightarrow> flags AND kVmHuge = 0 \<or>
     drop_bit kVmHugeShift flags = 21 \<and> paddr mod MiB 2 = 0 \<or>
     drop_bit kVmHugeShift flags = 30 \<and> paddr mod GiB 1 = 0"

lemma levels_simps [simp]:
  "levels pteFlagCreateNew = 4" "levels (pteFlagCreateNew OR pteFlag2MB) = 3"
  "levels (pteFlagCreateNew OR pteFlag1GB) = 2" "levels 0 = 4" "levels pteFlag2MB = 3" "levels pteFlag1GB = 2"
  by (simp_all add: levels_def pteFlagCreateNew_def pteFlag2MB_def pteFlag1GB_def)

lemma create_simps [simp]:
  "pteFlagCreateNew \<noteq> 0" "(pteFlagCreateNew OR pteFlag2MB) AND pteFlagCreateNew \<noteq> 0"
  "(pteFlagCreateNew OR pteFlag1GB) AND pteFlagCreateNew \<noteq> 0"
  "pteFlag2MB AND pteFlagCreateNew = 0" "pteFlag1GB AND pteFlagCreateNew = 0"
  by (simp_all add: pteFlagCreateNew_def pteFlag2MB_def pteFlag1GB_def)

lemma vm_port_map_one_flags:
  assumes "map_request paddr flags"
  obtains wf where "levels wf = map_levels flags" and "wf AND pteFlagCreateNew \<noteq> 0"
    and "vm_port_map_one cr3 paddr vaddr cache flags = kbind (pte_walk cr3 vaddr wf) (\<lambda>pte.
       case pte of None \<Rightarrow> kfail NullDeref
       | Some slot \<Rightarrow> kmodify (\<lambda>m. set_word slot (map_entry (mm_features m) paddr cache flags) m))"
proof -
  let ?body = "\<lambda>wf. kbind (pte_walk cr3 vaddr wf) (\<lambda>pte. case pte of None \<Rightarrow> kfail NullDeref
       | Some slot \<Rightarrow> kmodify (\<lambda>m. set_word slot (map_entry (mm_features m) paddr cache flags) m))"
  have ret: "kbind (kreturn x) f = f x" "kbind (kthen (kassert True s) (kreturn x)) f = f x"
    for x :: u32 and f :: "u32 \<Rightarrow> (mm, unit) km" and s
    by (simp_all add: km_defs fun_eq_iff)
  consider "flags AND kVmHuge = 0" | "flags AND kVmHuge \<noteq> 0" "drop_bit kVmHugeShift flags = 21" "paddr mod MiB 2 = 0"
    | "flags AND kVmHuge \<noteq> 0" "drop_bit kVmHugeShift flags = 30" "paddr mod GiB 1 = 0"
    using assms unfolding map_request_def by blast
  then show ?thesis
  proof cases
    case 1
    then show ?thesis
      by (intro that [of pteFlagCreateNew]) (simp_all add: map_levels_def vm_port_map_one_def ret)
  next
    case 2
    then show ?thesis
      by (intro that [of "pteFlagCreateNew OR pteFlag2MB"])
        (simp_all add: map_levels_def vm_port_map_one_def ret Let_def)
  next
    case 3
    then show ?thesis
      by (intro that [of "pteFlagCreateNew OR pteFlag1GB"])
        (simp_all add: map_levels_def vm_port_map_one_def ret Let_def)
  qed
qed

definition map_post :: "u64 \<Rightarrow> nat \<Rightarrow> u64 list \<Rightarrow> u64 \<Rightarrow> mm \<Rightarrow> mm \<Rightarrow> bool" where
  "map_post root n is e m m' \<longleftrightarrow> pm_inv m' \<and> pm_same m m' \<and> pt_ok m' root \<and>
     length (mm_buddy_freelist m ! 0) \<le> length (mm_buddy_freelist m' ! 0) + 3 \<and>
     (tbl m root (take (n - 1) is) \<noteq> None \<longrightarrow> length (mm_buddy_freelist m ! 0) \<le> length (mm_buddy_freelist m' ! 0)) \<and>
     set (mm_buddy_freelist m' ! 0) \<subseteq> set (mm_buddy_freelist m ! 0) \<and> remapped root n is e m m' \<and>
     tbl m' root (take (n - 1) is) \<noteq> None"

lemma vm_port_map_one_correct:
  fixes m cr3 vaddr
  defines "root \<equiv> P2V (mm_hhdm m) cr3"
  assumes m: "pm_inv m" "\<not> mm_buddy_lock m" "pt_ok m root"
    "3 \<le> length (mm_buddy_freelist m ! 0) \<or> tbl m root (take (map_levels flags - 1) (path_of vaddr)) \<noteq> None"
    and req: "map_request paddr flags" and lvl: "at_level m root (map_levels flags) (path_of vaddr)"
  shows "runs_to (vm_port_map_one cr3 paddr vaddr cache flags) m (\<lambda>_ m'.
     map_post root (map_levels flags) (path_of vaddr) (map_entry (mm_features m) paddr cache flags) m m')"
proof -
  obtain wf where wf: "levels wf = map_levels flags" "wf AND pteFlagCreateNew \<noteq> 0"
    and body: "vm_port_map_one cr3 paddr vaddr cache flags = kbind (pte_walk cr3 vaddr wf) (\<lambda>pte.
       case pte of None \<Rightarrow> kfail NullDeref
       | Some slot \<Rightarrow> kmodify (\<lambda>m. set_word slot (map_entry (mm_features m) paddr cache flags) m))"
    using vm_port_map_one_flags [OF req, of cr3 vaddr cache] by blast
  define n where "n = map_levels flags"
  have n: "n - 1 < 4" "Suc (n - 1) = n" by (simp_all add: n_def map_levels_def)
  note walk = pte_walk_create [of m cr3 wf vaddr, folded root_def, unfolded wf(1), folded n_def, OF m(1-3) m(4) [folded n_def] lvl [folded n_def] wf(2)]
  show ?thesis
    unfolding body runs_to_kbind n_def [symmetric]
  proof (rule runs_to_mono [OF walk], elim exE conjE, goal_cases)
    case (1 r m1 t)
    let ?e = "map_entry (mm_features m) paddr cache flags"
    have m1: "pm_inv m1" "pt_ok m1 root" "pm_same m m1" "mm_features m1 = mm_features m"
      "\<And>is. valid is \<Longrightarrow> length is = 4 \<Longrightarrow> hw_walk m1 root is = hw_walk m root is"
      using 1(3) by (simp_all add: pt_step_def pm_same_def)
    have slot: "slot_at m1 root (take (n - 1) (path_of vaddr)) (path_of vaddr ! (n - 1)) (t + 8 * path_of vaddr ! (n - 1))"
      by (rule slot_atI [OF m1(1,2) path_of_valid n(1) 1(2)])
    have leaf: "\<not> is_table ?e \<or> n - 1 = 3"
      using map_entry_facts(3) [of flags] by (auto simp: is_table_def n_def map_levels_def)
    have "remapped root (Suc (n - 1)) (path_of vaddr) ?e m1 (set_word (t + 8 * path_of vaddr ! (n - 1)) ?e m1)"
      by (rule remapped_write [OF slot path_of_valid n(1) leaf])
    then have "remapped root n (path_of vaddr) ?e m (set_word (t + 8 * path_of vaddr ! (n - 1)) ?e m1)"
      using m1(5) n(2) by (simp add: remapped_def)
    moreover have "pt_ok (set_word (t + 8 * path_of vaddr ! (n - 1)) ?e m1) root"
      using leaf by (intro write_leaf_ok [OF slot]) simp
    moreover have "tbl (set_word (t + 8 * path_of vaddr ! (n - 1)) ?e m1) root (take (n - 1) (path_of vaddr)) = Some t"
      using write_other(1) [OF slot valid_take [OF path_of_valid(1)] _ not_through_self] 1(2) by simp
    ultimately show ?case
      using 1(1,3) m1 pm_same_trans [OF m1(3)] by (auto simp: wp map_post_def pt_step_def split: if_splits)
  qed
qed

text \<open>Unless a gigabyte page has to be emulated, \<open>vm_port_map\<close> writes this one entry.\<close>

lemma vm_port_map_correct:
  fixes m cr3 vaddr
  defines "root \<equiv> P2V (mm_hhdm m) cr3"
  assumes "pm_inv m" "\<not> mm_buddy_lock m" "pt_ok m root"
    and "3 \<le> length (mm_buddy_freelist m ! 0) \<or> tbl m root (take (map_levels flags - 1) (path_of vaddr)) \<noteq> None"
    and "map_request paddr flags" and "at_level m root (map_levels flags) (path_of vaddr)"
    and gb: "flags AND kVmHuge \<noteq> 0 \<Longrightarrow> drop_bit kVmHugeShift flags = 30 \<Longrightarrow> ft_gbpages (mm_features m)"
  shows "runs_to (vm_port_map cr3 paddr vaddr cache flags) m (\<lambda>_ m'.
     map_post root (map_levels flags) (path_of vaddr) (map_entry (mm_features m) paddr cache flags) m m')"
proof -
  have "vm_port_map cr3 paddr vaddr cache flags m = vm_port_map_one cr3 paddr vaddr cache flags m"
    using gb by (auto simp: vm_port_map_def kbind_def kget_def)
  then show ?thesis
    using vm_port_map_one_correct [of m cr3 flags vaddr paddr cache] assms by (simp add: runs_to_def)
qed

section \<open>Unmapping\<close>

definition unmap_flags :: "mm \<Rightarrow> u64 \<Rightarrow> nat \<Rightarrow> bool" where
  "unmap_flags m flags n \<longleftrightarrow>
     flags AND kVmHuge = 0 \<and> n = 4 \<or>
     flags AND kVmHuge \<noteq> 0 \<and> (drop_bit kVmHugeShift flags = 12 \<and> n = 4 \<or>
       drop_bit kVmHugeShift flags = 21 \<and> n = 3 \<or>
       drop_bit kVmHugeShift flags = 30 \<and> ft_gbpages (mm_features m) \<and> n = 2)"

definition cleared :: "u64 \<Rightarrow> u64" where
  "cleared e = e AND NOT (ptePresent OR pteAddress)"

lemma cleared_facts [simp]: "cleared e AND ptePresent = 0" "cleared e AND pteAddress = 0" "\<not> is_table (cleared e)"
proof -
  show "cleared e AND ptePresent = 0" "cleared e AND pteAddress = 0"
    by (simp_all add: cleared_def and.assoc ptePresent_def pteAddress_def)
  then show "\<not> is_table (cleared e)" by (simp add: is_table_def)
qed

lemma vm_port_unmap_flags:
  assumes "unmap_flags m flags n"
  obtains wf where "levels wf = n" and "wf AND pteFlagCreateNew = 0"
    and "vm_port_unmap cr3 vaddr flags m = kbind (pte_walk cr3 vaddr wf) (\<lambda>pte. case pte of None \<Rightarrow> kreturn ()
       | Some slot \<Rightarrow> kmodify (\<lambda>m. set_word slot (cleared (mm_mem m slot)) m)) m"
proof -
  note rule = vm_port_unmap_def kbind_def kget_def kthen_def kassert_def kreturn_def cleared_def [abs_def] Let_def
  from assms [unfolded unmap_flags_def] consider
      "flags AND kVmHuge = 0" "n = 4" | "flags AND kVmHuge \<noteq> 0" "drop_bit kVmHugeShift flags = 12" "n = 4"
    | "flags AND kVmHuge \<noteq> 0" "drop_bit kVmHugeShift flags = 21" "n = 3"
    | "flags AND kVmHuge \<noteq> 0" "drop_bit kVmHugeShift flags = 30" "ft_gbpages (mm_features m)" "n = 2"
    by blast
  then show ?thesis
  proof cases
    case 1 then show ?thesis by (intro that [of 0]) (simp_all add: rule cong: option.case_cong)
  next
    case 2 then show ?thesis by (intro that [of 0]) (simp_all add: rule cong: option.case_cong)
  next
    case 3 then show ?thesis by (intro that [of pteFlag2MB]) (simp_all add: rule cong: option.case_cong)
  next
    case 4 then show ?thesis by (intro that [of pteFlag1GB]) (simp_all add: rule cong: option.case_cong)
  qed
qed

lemma hw_walk_stops:
  "tbl m t p = None \<Longrightarrow> length q = length r \<Longrightarrow> q \<noteq> [] \<Longrightarrow> hw_walk m t (p @ q) = hw_walk m t (p @ r)"
  by (induction p arbitrary: t) (auto simp: Let_def is_table_def split: if_splits)

lemma not_table_above:
  assumes "tbl m root (take (n - 1) is) = None" and "at_level m root n is" and "length is = 4" and "2 \<le> n" "n \<le> 4"
  shows "hw_walk m root is = None"
proof -
  have deep: "length q \<le> l" if "tbl m t p = None" "hw_walk m t (p @ q) = Some (e, l)" "q \<noteq> []" for t p q e l
    using that by (induction p arbitrary: t) (auto simp: Let_def is_table_def split: if_splits)
  have len: "length (drop (n - 1) is) = 5 - n" "drop (n - 1) is \<noteq> []" using assms(3-5) by auto
  show ?thesis
  proof (cases "hw_walk m root is")
    case (Some x)
    then obtain e l where x: "hw_walk m root (take (n - 1) is @ drop (n - 1) is) = Some (e, l)" by (cases x) simp
    then have "5 - n \<le> l" using deep [OF assms(1) x len(2)] len(1) by simp
    moreover have "l + n \<le> 4" using assms(2) x by (simp add: at_level_def)
    ultimately show ?thesis using assms(5) by linarith
  qed
qed

lemma vm_port_unmap_correct:
  fixes m cr3 vaddr
  defines "root \<equiv> P2V (mm_hhdm m) cr3"
  assumes m: "pm_inv m" "pt_ok m root" and fl: "unmap_flags m flags n" and lvl: "at_level m root n (path_of vaddr)"
  shows "runs_to (vm_port_unmap cr3 vaddr flags) m (\<lambda>_ m'.
     pm_inv m' \<and> pm_same m m' \<and> pt_ok m' root \<and> mm_buddy_freelist m' = mm_buddy_freelist m \<and>
     remapped root n (path_of vaddr) 0 m m')"
proof -
  obtain wf where wf: "levels wf = n" "wf AND pteFlagCreateNew = 0"
    and body: "vm_port_unmap cr3 vaddr flags m = kbind (pte_walk cr3 vaddr wf) (\<lambda>pte. case pte of None \<Rightarrow> kreturn ()
       | Some slot \<Rightarrow> kmodify (\<lambda>m. set_word slot (cleared (mm_mem m slot)) m)) m"
    using vm_port_unmap_flags [OF fl] by blast
  have n: "n - 1 < 4" "Suc (n - 1) = n" "2 \<le> n" "n \<le> 4" using fl unfolding unmap_flags_def by auto
  note walk = pte_walk_read [of m cr3 wf vaddr, folded root_def, unfolded wf(1), OF lvl wf(2)]
  have eq: "runs_to (vm_port_unmap cr3 vaddr flags) m Q = runs_to (pte_walk cr3 vaddr wf) m (\<lambda>pte t.
      runs_to (case pte of None \<Rightarrow> kreturn ()
       | Some slot \<Rightarrow> kmodify (\<lambda>m. set_word slot (cleared (mm_mem m slot)) m)) t Q)" for Q
    by (rule trans [OF runs_to_cong runs_to_kbind]) (rule body)
  show ?thesis
    unfolding eq
  proof (rule runs_to_mono [OF walk], elim conjE, goal_cases)
    case (1 r m1)
    show ?case
    proof (cases "tbl m root (take (n - 1) (path_of vaddr))")
      case None
      have "hw_walk m root js = None" if "valid js" "length js = 4" "take n js = take n (path_of vaddr)" for js
      proof -
        have pre: "take (n - 1) js = take (n - 1) (path_of vaddr)"
          using arg_cong [OF that(3), of "take (n - 1)"] n by simp
        have "js = take (n - 1) (path_of vaddr) @ drop (n - 1) js" unfolding pre [symmetric] by simp
        moreover have "hw_walk m root (take (n - 1) (path_of vaddr) @ drop (n - 1) js) =
            hw_walk m root (take (n - 1) (path_of vaddr) @ drop (n - 1) (path_of vaddr))"
          using None that(2) n by (intro hw_walk_stops) auto
        ultimately show ?thesis using not_table_above [OF None lvl _ n(3,4)] by simp
      qed
      then have "remapped root n (path_of vaddr) 0 m m" by (simp add: remapped_def)
      then show ?thesis using 1 None m by (simp add: wp)
    next
      case (Some t)
      let ?x = "t + 8 * path_of vaddr ! (n - 1)"
      have slot: "slot_at m root (take (n - 1) (path_of vaddr)) (path_of vaddr ! (n - 1)) ?x"
        by (rule slot_atI [OF m path_of_valid n(1) Some])
      have "remapped root (Suc (n - 1)) (path_of vaddr) (cleared (mm_mem m ?x)) m (set_word ?x (cleared (mm_mem m ?x)) m)"
        by (rule remapped_write [OF slot path_of_valid n(1)]) simp
      then have "remapped root n (path_of vaddr) 0 m (set_word ?x (cleared (mm_mem m ?x)) m)"
        using n(2) by (simp add: remapped_def)
      moreover have "pt_ok (set_word ?x (cleared (mm_mem m ?x)) m) root"
        by (rule write_leaf_ok [OF slot]) simp
      ultimately show ?thesis using 1 Some m by (simp add: wp)
    qed
  qed
qed

section \<open>Translating\<close>

lemma hw_walk_last:
  assumes "tbl m root (take 3 is) = Some t" and "length is = 4"
  shows "hw_walk m root is = (let e = mm_mem m (t + 8 * is ! 3) in if e AND ptePresent = 0 then None else Some (e, 0))"
proof -
  have "is = take 3 is @ [is ! 3]" using id_take_nth_drop [of 3 "is"] assms(2) by simp
  then have "hw_walk m root is = hw_walk m t [is ! 3]" using hw_walk_append [OF assms(1), of "[is ! 3]"] by simp
  then show ?thesis by (simp add: Let_def)
qed

lemma vm_port_translate_paddr_correct:
  fixes m cr3 va
  defines "root \<equiv> P2V (mm_hhdm m) cr3"
  assumes "at_level m root 4 (path_of va)"
  shows "runs_to (vm_port_translate_paddr cr3 va) m (\<lambda>r m'. m' = m \<and>
     r = (case tbl m root (take 3 (path_of va)) of None \<Rightarrow> - 1
          | Some t \<Rightarrow> mm_mem m (t + 8 * INDEX va 0) AND pteAddress))"
proof -
  have idx: "path_of va ! 3 = INDEX va 0" by (simp add: path_of_def)
  have z: "levels 0 - 1 = 3" by simp
  have "runs_to (pte_walk cr3 va 0) m (\<lambda>r m'. m' = m \<and>
      r = map_option (\<lambda>t. t + 8 * INDEX va 0) (tbl m root (take 3 (path_of va))))"
    using pte_walk_read [of m cr3 0 va] assms(2) by (simp add: root_def z idx)
  then show ?thesis
    unfolding vm_port_translate_paddr_def runs_to_kbind
    by (rule runs_to_mono) (auto simp: wp split: option.splits)
qed

text \<open>The processor's view decides the result, unless the last table has an entry that is not
  present.\<close>

lemma translate_mapped:
  fixes m cr3 va
  defines "root \<equiv> P2V (mm_hhdm m) cr3"
  assumes "hw_walk m root (path_of va) = Some (e, 0)"
  shows "runs_to (vm_port_translate_paddr cr3 va) m (\<lambda>r m'. m' = m \<and> r = e AND pteAddress)"
proof -
  have lvl: "at_level m root 4 (path_of va)" using assms(2) by (simp add: at_level_def)
  obtain t where t: "tbl m root (take 3 (path_of va)) = Some t"
    using not_table_above [of m root 4 "path_of va"] lvl assms(2) by fastforce
  have "mm_mem m (t + 8 * INDEX va 0) = e"
    using hw_walk_last [OF t] assms(2) by (auto simp: Let_def path_of_def split: if_splits)
  then show ?thesis
    using vm_port_translate_paddr_correct [of m cr3 va] lvl t by (simp add: root_def)
qed

section \<open>A new map\<close>

lemma vm_port_init_map_correct:
  assumes "pm_inv m" and "\<not> mm_buddy_lock m" and "mm_buddy_freelist m ! 0 \<noteq> []"
  shows "runs_to vm_port_init_map m (\<lambda>cr3 m'. pm_inv m' \<and> pm_same m m' \<and> pt_ok m' (P2V (mm_hhdm m') cr3) \<and>
     mm_buddy_freelist m' ! 0 = tl (mm_buddy_freelist m ! 0) \<and>
     (\<forall>is. valid is \<longrightarrow> hw_walk m' (P2V (mm_hhdm m') cr3) is = None))"
  unfolding vm_port_init_map_def runs_to_kbind
proof (rule runs_to_mono [OF pm_allocate_zeroed_correct [OF assms]], elim conjE, goal_cases)
  case (1 pg m')
  then have m': "pm_inv m'" "pm_same m m'" "mm_buddy_freelist m ! 0 = pg # mm_buddy_freelist m' ! 0"
    by (simp_all add: pm_alloc_post_def)
  have pg: "pg \<in> all_pages m'" "pg \<notin> set (mm_buddy_freelist m' ! 0)"
    using pm_free_in_all [OF assms(1), of pg] pm_same_pages(1) [OF m'(2)] pm_invD(5) [OF assms(1)] m'(3) by simp_all
  have root: "P2V (mm_hhdm m') (PG2P m' pg) = PG2V m' pg" by (simp add: PG2V_def)
  have zero: "mm_mem m' (PG2V m' pg + 8 * j) = 0" if "j < 512" for j
    using slot_in_page [OF that, of m pg] pm_same_pages(3) [OF m'(2)] 1(2) by (simp add: zero_page_def)
  have "pt_ok m' (PG2V m' pg)"
    unfolding pt_ok_def using zero_table(1) [OF zero] pg by (auto split: if_splits)
  then show ?case
    using m' zero_table(2) [OF zero] by (simp add: wp root)
qed

end
