(* ===== verification/Amd64_Props.thy ===== *)
theory Amd64_Props
  imports Amd64_Map Pm_Props
begin

text \<open>
  Properties of the page tables: the emulation of gigabyte pages, then the properties of mapping,
  unmapping and translating, with a concrete address space as witness.
\<close>

section \<open>Indices of consecutive large pages\<close>

lemma unat_INDEX: "unat (INDEX va l) = unat va div 2 ^ (12 + 9 * l) mod 512"
proof -
  have "INDEX va l = take_bit 9 (drop_bit (12 + 9 * l) va)"
    by (simp add: INDEX_def take_bit_eq_mask mask_eq_exp_minus_1)
  then have "unat (INDEX va l) = unat (drop_bit (12 + 9 * l) va) mod 2 ^ 9" by (simp add: unat_take_bit_u64)
  then show ?thesis unfolding unat_drop_bit_eq by (simp add: drop_bit_eq_div)
qed

lemma unat_MiB2: "i < 512 \<Longrightarrow> unat (MiB 2 * of_nat i) = 2 ^ 21 * i"
proof -
  assume i: "i < 512"
  have "MiB 2 * of_nat i = of_nat (2 ^ 21 * i)" by (simp add: MiB_def)
  moreover have "2 ^ 21 * i < 2 ^ 64" using i by simp
  ultimately show ?thesis using unat_of_nat [where 'a = 64, of "2 ^ 21 * i"] by simp
qed

lemma path_of_large:
  assumes va: "unat va mod 2 ^ 30 = 0" and i: "i < 512"
  shows "path_of (va + MiB 2 * of_nat i) = [INDEX va 3, INDEX va 2, of_nat i, 0]"
proof -
  obtain k where k: "unat va = 2 ^ 30 * k" using va by (auto elim: dvdE)
  have ui: "unat (of_nat i :: u64) = i" using i unat_of_nat [where 'a = 64, of i] by simp
  have "2 ^ 30 * k < 2 ^ 30 * 2 ^ 34" using unat_lt_u64 [of va] unfolding k by simp
  then have "k < 2 ^ 34" by simp
  then have "2 ^ 30 * k + 2 ^ 21 * i < 2 ^ 64" using i by simp
  then have u: "unat (va + MiB 2 * of_nat i) = 2 ^ 30 * k + 2 ^ 21 * i"
    using unat_add_lem [of va "MiB 2 * of_nat i"] unat_MiB2 [OF i] k by simp
  have r: "2 ^ 21 * i < 2 ^ 30" using i by simp
  have d30: "(2 ^ 30 * k + 2 ^ 21 * i) div 2 ^ 30 = k" using r by simp
  have "(2 ^ 30 * k + 2 ^ 21 * i) div 2 ^ 39 = k div 2 ^ 9"
    using d30 div_mult2_eq [of "2 ^ 30 * k + 2 ^ 21 * i" "2 ^ 30" "2 ^ 9"] by simp
  moreover have "2 ^ 30 * k div 2 ^ 39 = k div 2 ^ 9"
    using div_mult2_eq [of "2 ^ 30 * k" "2 ^ 30" "2 ^ 9"] by simp
  ultimately have "INDEX (va + MiB 2 * of_nat i) 3 = INDEX va 3"
    by (simp add: word_unat_eq_iff unat_INDEX u k)
  moreover have "INDEX (va + MiB 2 * of_nat i) 2 = INDEX va 2"
    using d30 by (simp add: word_unat_eq_iff unat_INDEX u k)
  moreover have "(2 ^ 30 * k + 2 ^ 21 * i) div 2 ^ 21 = 2 ^ 9 * k + i"
    using div_mult_self1 [of "2 ^ 21" i "2 ^ 9 * k"] by (simp add: mult.assoc [symmetric] add.commute)
  then have "INDEX (va + MiB 2 * of_nat i) 1 = of_nat i"
    using i by (simp add: word_unat_eq_iff unat_INDEX u ui)
  moreover have "(2 ^ 30 * k + 2 ^ 21 * i) div 2 ^ 12 = 512 * (2 ^ 9 * k + i)" by simp
  then have "INDEX (va + MiB 2 * of_nat i) 0 = 0"
    by (simp add: word_unat_eq_iff unat_INDEX u)
  ultimately show ?thesis by (simp add: path_of_def)
qed

section \<open>Emulated gigabyte pages\<close>

definition emulated :: "u64 \<Rightarrow> u64" where
  "emulated flags = (flags AND NOT kVmHuge1GB) OR kVmHuge2MB"

text \<open>The translation after the first pages of a gigabyte are mapped: a page for each index in \<open>S\<close>.\<close>

definition large_pages :: "u64 \<Rightarrow> u64 list \<Rightarrow> u64 set \<Rightarrow> (u64 \<Rightarrow> u64) \<Rightarrow> mm \<Rightarrow> mm \<Rightarrow> bool" where
  "large_pages root ab S entry m m' \<longleftrightarrow>
     (\<forall>js. valid js \<longrightarrow> length js = 4 \<longrightarrow> hw_walk m' root js =
        (if take 2 js = ab \<and> js ! 2 \<in> S
         then if entry (js ! 2) AND ptePresent = 0 then None else Some (entry (js ! 2), 1)
         else hw_walk m root js))"

lemma large_pages_step:
  assumes "large_pages root [a, b] S entry m m1" and "remapped root 3 [a, b, i, 0] (entry i) m1 m2"
  shows "large_pages root [a, b] (insert i S) entry m m2"
  unfolding large_pages_def
proof (intro allI impI)
  fix js :: "u64 list"
  assume js: "valid js" "length js = 4"
  then obtain j0 j1 j2 j3 where j: "js = [j0, j1, j2, j3]"
    by (auto simp: length_Suc_conv numeral_eq_Suc)
  have "hw_walk m2 root js = (if take 3 js = take 3 [a, b, i, 0]
      then if entry i AND ptePresent = 0 then None else Some (entry i, 4 - 3) else hw_walk m1 root js)"
    using assms(2) js unfolding remapped_def by blast
  moreover have "hw_walk m1 root js = (if take 2 js = [a, b] \<and> js ! 2 \<in> S
         then if entry (js ! 2) AND ptePresent = 0 then None else Some (entry (js ! 2), 1)
         else hw_walk m root js)"
    using assms(1) js unfolding large_pages_def by blast
  ultimately show "hw_walk m2 root js = (if take 2 js = [a, b] \<and> js ! 2 \<in> insert i S
         then if entry (js ! 2) AND ptePresent = 0 then None else Some (entry (js ! 2), 1)
         else hw_walk m root js)"
    by (auto simp: j eval_nat_numeral)
qed

lemma large_page_aligned:
  assumes "paddr mod GiB 1 = 0" and "i < 512"
  shows "(paddr + MiB 2 * of_nat i) mod MiB 2 = 0"
proof -
  have "unat paddr mod 2 ^ 30 = 0"
    using arg_cong [OF assms(1), of unat] by (simp add: unat_mod GiB_def)
  then obtain k where k: "unat paddr = 2 ^ 30 * k" by (auto elim: dvdE)
  have "unat paddr + 2 ^ 21 * i = 2 ^ 21 * (2 ^ 9 * k + i)" by (simp add: k)
  then have "2 ^ 21 dvd unat paddr + 2 ^ 21 * i" by (rule dvdI)
  then have "2 ^ 21 dvd (unat paddr + 2 ^ 21 * i) mod 2 ^ 64"
    by (rule dvd_mod) (simp add: le_imp_power_dvd)
  then have "unat (paddr + MiB 2 * of_nat i) mod 2 ^ 21 = 0"
    using unat_MiB2 [OF assms(2)] by (simp add: unat_word_ariths(1) mod_0_imp_dvd)
  then show ?thesis by (simp add: word_unat_eq_iff unat_mod MiB_def)
qed

text \<open>The state of the loop after \<open>k\<close> of the 512 pages.\<close>

definition emul_inv :: "u64 \<Rightarrow> u64 list \<Rightarrow> (u64 \<Rightarrow> u64) \<Rightarrow> mm \<Rightarrow> nat \<Rightarrow> mm \<Rightarrow> bool" where
  "emul_inv root ab entry m k t \<longleftrightarrow> pm_inv t \<and> pm_same m t \<and> pt_ok t root \<and>
     (3 \<le> length (mm_buddy_freelist t ! 0) \<or> tbl t root ab \<noteq> None) \<and>
     length (mm_buddy_freelist m ! 0) \<le> length (mm_buddy_freelist t ! 0) + (if k = 0 then 0 else 3) \<and>
     (0 < k \<longrightarrow> tbl t root ab \<noteq> None) \<and> set (mm_buddy_freelist t ! 0) \<subseteq> set (mm_buddy_freelist m ! 0) \<and>
     large_pages root ab (of_nat ` {0..<k}) entry m t"

lemma of_nat_fresh: "i < 512 \<Longrightarrow> (of_nat i :: u64) \<notin> of_nat ` {0..<i}"
proof
  assume i: "i < 512" and "(of_nat i :: u64) \<in> of_nat ` {0..<i}"
  then obtain j where "j < i" "(of_nat i :: u64) = of_nat j" by auto
  then show False using i unat_of_nat [where 'a = 64, of i] unat_of_nat [where 'a = 64, of j] by simp
qed

lemma emulated_step:
  fixes m cr3 vaddr paddr cache flags
  defines "root \<equiv> P2V (mm_hhdm m) cr3" and "ab \<equiv> [INDEX vaddr 3, INDEX vaddr 2]"
    and "entry \<equiv> (\<lambda>i. map_entry (mm_features m) (paddr + MiB 2 * i) cache (emulated flags))"
  assumes fl: "flags AND kVmHuge \<noteq> 0" "drop_bit kVmHugeShift flags = 30" and lock: "\<not> mm_buddy_lock m"
    and al: "paddr mod GiB 1 = 0" "unat vaddr mod 2 ^ 30 = 0" and i: "i < 512"
    and lvl: "at_level m root 3 (ab @ [of_nat i, 0])" and inv: "emul_inv root ab entry m i t"
  shows "runs_to (vm_port_map_one cr3 (paddr + MiB 2 * of_nat i) (vaddr + MiB 2 * of_nat i) cache (emulated flags)) t
     (\<lambda>_. emul_inv root ab entry m (Suc i))"
proof -
  have t: "pm_inv t" "pm_same m t" "pt_ok t root" "3 \<le> length (mm_buddy_freelist t ! 0) \<or> tbl t root ab \<noteq> None"
    "large_pages root ab (of_nat ` {0..<i}) entry m t"
    and free: "length (mm_buddy_freelist m ! 0) \<le> length (mm_buddy_freelist t ! 0) + (if i = 0 then 0 else 3)"
      "0 < i \<longrightarrow> tbl t root ab \<noteq> None" "set (mm_buddy_freelist t ! 0) \<subseteq> set (mm_buddy_freelist m ! 0)"
    using inv by (simp_all add: emul_inv_def)
  have same: "mm_hhdm t = mm_hhdm m" "mm_features t = mm_features m" "\<not> mm_buddy_lock t"
    using t(2) lock by (simp_all add: pm_same_def)
  note ef = emulated_flags [OF fl, folded emulated_def]
  have lv: "map_levels (emulated flags) = 3" using ef by (simp add: map_levels_def)
  let ?p = "ab @ [of_nat i, 0]"
  have path: "path_of (vaddr + MiB 2 * of_nat i) = ?p"
    using path_of_large [OF al(2) i] by (simp add: ab_def)
  then have p: "valid ?p" "length ?p = 4" "take 2 ?p = ab" "?p ! 2 = of_nat i"
    using path_of_valid [of "vaddr + MiB 2 * of_nat i"] by (simp_all add: ab_def eval_nat_numeral)
  have "hw_walk t root ?p = hw_walk m root ?p"
    using t(5) [unfolded large_pages_def, rule_format, OF p(1,2)] of_nat_fresh [OF i] by (simp only: p) simp
  then have "at_level t root 3 ?p" using lvl by (simp add: at_level_def)
  moreover have "map_request (paddr + MiB 2 * of_nat i) (emulated flags)"
    using ef large_page_aligned [OF al(1) i] by (simp add: map_request_def)
  ultimately have one: "runs_to (vm_port_map_one cr3 (paddr + MiB 2 * of_nat i) (vaddr + MiB 2 * of_nat i) cache (emulated flags)) t
      (\<lambda>_. map_post root 3 ?p (entry (of_nat i)) t)"
    using vm_port_map_one_correct [of t cr3 "emulated flags" "vaddr + MiB 2 * of_nat i" "paddr + MiB 2 * of_nat i" cache]
      t(1,3,4) same p(3) by (simp add: root_def path lv entry_def)
  show ?thesis
  proof (rule runs_to_mono [OF one], goal_cases)
    case (1 u t')
    then have "pm_same m t'" using pm_same_trans [OF t(2)] by (simp add: map_post_def)
    moreover have "tbl t' root ab \<noteq> None" using 1 p(3) by (simp add: map_post_def)
    moreover have "remapped root 3 [INDEX vaddr 3, INDEX vaddr 2, of_nat i, 0] (entry (of_nat i)) t t'"
      using 1 by (simp add: map_post_def ab_def)
    from large_pages_step [OF t(5) [unfolded ab_def] this]
    have "large_pages root ab (of_nat ` {0..<Suc i}) entry m t'" by (simp add: ab_def atLeast0_lessThan_Suc)
    moreover have "length (mm_buddy_freelist m ! 0) \<le> length (mm_buddy_freelist t' ! 0) + 3"
      "set (mm_buddy_freelist t' ! 0) \<subseteq> set (mm_buddy_freelist m ! 0)"
      using 1 free p(3) by (auto simp: map_post_def split: if_splits)
    ultimately show ?case using 1 by (simp add: emul_inv_def map_post_def)
  qed
qed

lemma u64_below_512: "of_nat ` {0..<512} = {i :: u64. i < 512}"
proof
  show "of_nat ` {0..<512} \<subseteq> {i :: u64. i < 512}"
  proof clarsimp
    fix i :: nat
    assume "i < 512"
    then show "(of_nat i :: u64) < 512" using unat_of_nat [where 'a = 64, of i] by (simp add: word_less_nat_alt)
  qed
  show "{i :: u64. i < 512} \<subseteq> of_nat ` {0..<512}"
  proof
    fix i :: u64
    assume "i \<in> {i. i < 512}"
    then have "unat i \<in> {0..<512}" by (simp add: word_less_nat_alt)
    then have "of_nat (unat i) \<in> (of_nat ` {0..<512} :: u64 set)" by (rule imageI)
    then show "i \<in> of_nat ` {0..<512}" by simp
  qed
qed

lemma vm_port_map_emulated:
  fixes m cr3 vaddr paddr cache flags
  defines "root \<equiv> P2V (mm_hhdm m) cr3" and "ab \<equiv> [INDEX vaddr 3, INDEX vaddr 2]"
    and "entry \<equiv> (\<lambda>i. map_entry (mm_features m) (paddr + MiB 2 * i) cache (emulated flags))"
  assumes m: "pm_inv m" "\<not> mm_buddy_lock m" "pt_ok m root" "3 \<le> length (mm_buddy_freelist m ! 0)"
    and fl: "flags AND kVmHuge \<noteq> 0" "drop_bit kVmHugeShift flags = 30" "\<not> ft_gbpages (mm_features m)"
    and al: "paddr mod GiB 1 = 0" "unat vaddr mod 2 ^ 30 = 0"
    and lvl: "\<And>i. i < 512 \<Longrightarrow> at_level m root 3 (ab @ [i, 0])"
  shows "runs_to (vm_port_map cr3 paddr vaddr cache flags) m (\<lambda>_ m'. pm_inv m' \<and> pm_same m m' \<and> pt_ok m' root \<and>
     length (mm_buddy_freelist m ! 0) \<le> length (mm_buddy_freelist m' ! 0) + 3 \<and>
     set (mm_buddy_freelist m' ! 0) \<subseteq> set (mm_buddy_freelist m ! 0) \<and>
     large_pages root ab {i. i < 512} entry m m')"
proof -
  have "runs_to (kfor [0..<512] (\<lambda>i.
          vm_port_map_one cr3 (paddr + MiB 2 * of_nat i) (vaddr + MiB 2 * of_nat i) cache (emulated flags))) m
      (\<lambda>_ t. (\<lambda>ys. emul_inv root ab entry m (length ys)) [0..<512] t)"
  proof (rule runs_to_kfor, goal_cases)
    case (1 ys i zs t)
    then have ys: "ys = [0..<i]" and i: "i < 512" by (auto dest: upt_split)
    have "(of_nat i :: u64) < 512" using i u64_below_512 by auto
    then show ?case
      using emulated_step [OF fl(1,2) m(2) al i, of cr3 cache t] lvl 1(2)
      by (simp add: ys root_def ab_def entry_def)
  next
    case 2
    show ?case using m by (simp add: emul_inv_def large_pages_def)
  qed
  then show ?thesis
    unfolding vm_port_map_def using fl al(1)
    by (simp add: wp emulated_def [symmetric]) (erule runs_to_mono, simp add: emul_inv_def u64_below_512)
qed

section \<open>Properties\<close>

text \<open>C18: A new address space translates nothing: \<open>vm_port_init_map\<close> takes one free page, and no address
  is mapped by the tables below it, which are well formed.\<close>

theorem vm_port_init_map_empty:
  assumes "pm_inv m" and "\<not> mm_buddy_lock m" and "mm_buddy_freelist m ! 0 \<noteq> []"
  shows "runs_to vm_port_init_map m (\<lambda>cr3 m'. pm_inv m' \<and> pt_ok m' (P2V (mm_hhdm m') cr3) \<and>
     mm_buddy_freelist m' ! 0 = tl (mm_buddy_freelist m ! 0) \<and>
     (\<forall>va. hw_walk m' (P2V (mm_hhdm m') cr3) (path_of va) = None))"
  by (rule runs_to_mono [OF vm_port_init_map_correct [OF assms]]) simp

theorem vm_port_init_map_empty_witness:
  "runs_to vm_port_init_map demo_mm16 (\<lambda>cr3 m'. hw_walk m' (P2V (mm_hhdm m') cr3) (path_of 0xFFFFE00000003000) = None)"
  by (rule runs_to_mono [OF vm_port_init_map_empty [OF demo_mm16_facts(1,2)]]) (simp_all add: demo_mm16_facts)

text \<open>C14: \<open>vm_port_map\<close> refines the abstract address space: where no larger page is in the way, the
  page it is asked for (4 kilobytes, 2 megabytes, or a gigabyte if the processor has such pages) is
  translated by the new entry, or not at all without the read flag, and every other address is
  translated as before; new tables come from the free pages.\<close>

theorem vm_port_map_refines:
  fixes m cr3 vaddr
  defines "root \<equiv> P2V (mm_hhdm m) cr3"
  assumes "pm_inv m" and "\<not> mm_buddy_lock m" and "pt_ok m root" and "3 \<le> length (mm_buddy_freelist m ! 0)"
    and "map_request paddr flags" and "at_level m root (map_levels flags) (path_of vaddr)"
    and "flags AND kVmHuge \<noteq> 0 \<Longrightarrow> drop_bit kVmHugeShift flags = 30 \<Longrightarrow> ft_gbpages (mm_features m)"
  shows "runs_to (vm_port_map cr3 paddr vaddr cache flags) m (\<lambda>_ m'.
     pm_inv m' \<and> pm_same m m' \<and> pt_ok m' root \<and>
     set (mm_buddy_freelist m' ! 0) \<subseteq> set (mm_buddy_freelist m ! 0) \<and>
     (\<forall>va. hw_walk m' root (path_of va) =
        (if take (map_levels flags) (path_of va) = take (map_levels flags) (path_of vaddr)
         then if flags AND kVmRead = 0 then None
              else Some (map_entry (mm_features m) paddr cache flags, 4 - map_levels flags)
         else hw_walk m root (path_of va))))"
proof -
  have "runs_to (vm_port_map cr3 paddr vaddr cache flags) m (\<lambda>_ m'.
     map_post root (map_levels flags) (path_of vaddr) (map_entry (mm_features m) paddr cache flags) m m')"
    unfolding root_def using assms by (intro vm_port_map_correct) (simp_all add: root_def)
  then show ?thesis
    by (rule runs_to_mono) (simp add: map_post_def remapped_def map_entry_facts(2))
qed

lemma demo_free_pages:
  "mm_buddy_freelist demo_mm16 ! 0 \<noteq> []" "length (tl (mm_buddy_freelist demo_mm16 ! 0)) = 14"
  by (simp_all add: demo_mm16_facts)

theorem vm_port_map_refines_witness:
  "runs_to (kbind vm_port_init_map (\<lambda>cr3. kthen (vm_port_map cr3 0x105000 0xFFFFE00000003000 kVmWriteback kVmAll)
       (kreturn cr3))) demo_mm16 (\<lambda>cr3 m'. pm_inv m' \<and>
     hw_walk m' (P2V (mm_hhdm m') cr3) (path_of 0xFFFFE00000003123) = Some (0x8000000000105003, 0))"
  unfolding runs_to_kbind
proof (rule runs_to_mono [OF vm_port_init_map_correct [OF demo_mm16_facts(1,2) demo_free_pages(1)]], elim conjE, goal_cases)
  case (1 cr3 m')
  have f: "mm_features m' = \<lparr>ft_pge = True, ft_nx = True, ft_gbpages = False\<rparr>"
    using 1(2) by (simp add: pm_same_def demo_mm16_def added_region_simps demo_mm_def)
  have "path_of 0xFFFFE00000003123 = path_of 0xFFFFE00000003000"
    by (simp add: path_of_def INDEX_def)
  moreover have "map_entry (mm_features m') 0x105000 kVmWriteback kVmAll = 0x8000000000105003"
    by (simp add: map_entry_def f pte_defs kVmWriteback_def kVmAll_def kVmRead_def kVmWrite_def kVmHuge_def
        kVmUser_def kVmGlobal_def kVmExecute_def kVmWritecombine_def kVmWritethrough_def kVmUncached_def
        PAGE_ALIGN_DOWN_def ALIGN_DOWN_def PAGE_SIZE_def)
  ultimately show ?case
    unfolding runs_to_kthen
    by (intro runs_to_mono [OF vm_port_map_refines])
      (use 1 demo_mm16_facts(2) demo_free_pages(2) in \<open>simp_all add: wp pm_same_def map_request_def map_levels_def
         at_level_def kVmAll_def kVmRead_def kVmWrite_def kVmHuge_def\<close>)
qed

text \<open>C15: Mapping and then translating a 4-kilobyte page gives the page back: \<open>vm_port_translate_paddr\<close>
  returns the mapped physical page for every address of the virtual page.\<close>

theorem vm_port_map_translate_roundtrip:
  fixes m cr3 vaddr
  defines "root \<equiv> P2V (mm_hhdm m) cr3"
  assumes "pm_inv m" and "\<not> mm_buddy_lock m" and "pt_ok m root" and "3 \<le> length (mm_buddy_freelist m ! 0)"
    and "flags AND kVmHuge = 0" and "flags AND kVmRead \<noteq> 0" and "at_level m root 4 (path_of vaddr)"
    and "unat paddr < 2 ^ 52" and "path_of va = path_of vaddr"
  shows "runs_to (kthen (vm_port_map cr3 paddr vaddr cache flags) (vm_port_translate_paddr cr3 va)) m
     (\<lambda>r m'. r = PAGE_ALIGN_DOWN paddr \<and> pm_inv m' \<and> pt_ok m' root)"
proof -
  have n: "map_levels flags = 4" using assms(6) by (simp add: map_levels_def)
  have "runs_to (vm_port_map cr3 paddr vaddr cache flags) m (\<lambda>_ m'.
     map_post root (map_levels flags) (path_of vaddr) (map_entry (mm_features m) paddr cache flags) m m')"
    unfolding root_def using assms by (intro vm_port_map_correct) (simp_all add: root_def map_request_def n)
  then have map: "runs_to (vm_port_map cr3 paddr vaddr cache flags) m (\<lambda>_ m'.
     map_post root 4 (path_of vaddr) (map_entry (mm_features m) paddr cache flags) m m')"
    by (simp add: n)
  show ?thesis
    unfolding runs_to_kthen
  proof (rule runs_to_mono [OF map], goal_cases)
    case (1 u m')
    then have m': "mm_hhdm m' = mm_hhdm m" "pm_inv m'" "pt_ok m' root"
      and "hw_walk m' root (path_of vaddr) = Some (map_entry (mm_features m) paddr cache flags, 0)"
      using assms(7) by (simp_all add: map_post_def remapped_def pm_same_def map_entry_facts(2))
    then have "hw_walk m' (P2V (mm_hhdm m') cr3) (path_of va) = Some (map_entry (mm_features m) paddr cache flags, 0)"
      by (simp add: root_def assms(10))
    from translate_mapped [OF this] show ?case
      by (rule runs_to_mono) (simp add: map_entry_facts(1) [OF assms(9)] m')
  qed
qed

theorem vm_port_map_translate_roundtrip_witness:
  "runs_to (kbind vm_port_init_map (\<lambda>cr3. kthen (vm_port_map cr3 0x105000 0xFFFFE00000003000 kVmWriteback kVmAll)
       (vm_port_translate_paddr cr3 0xFFFFE00000003123))) demo_mm16 (\<lambda>r m'. r = 0x105000)"
  unfolding runs_to_kbind
proof (rule runs_to_mono [OF vm_port_init_map_correct [OF demo_mm16_facts(1,2) demo_free_pages(1)]], elim conjE, goal_cases)
  case (1 cr3 m')
  have "PAGE_ALIGN_DOWN 0x105000 = 0x105000" by (simp add: PAGE_ALIGN_DOWN_def ALIGN_DOWN_def PAGE_SIZE_def)
  moreover have "path_of 0xFFFFE00000003123 = path_of 0xFFFFE00000003000"
    by (simp add: path_of_def INDEX_def)
  ultimately show ?case
    by (intro runs_to_mono [OF vm_port_map_translate_roundtrip])
      (use 1 demo_mm16_facts(2) demo_free_pages(2) in \<open>simp_all add: pm_same_def at_level_def kVmAll_def kVmRead_def
         kVmWrite_def kVmHuge_def\<close>)
qed

text \<open>C16: \<open>vm_port_unmap\<close> removes exactly one page from the translation: afterwards no address of it is
  mapped, every other address is translated as before, and the page pool is untouched.\<close>

theorem vm_port_unmap_removes:
  fixes m cr3 vaddr
  defines "root \<equiv> P2V (mm_hhdm m) cr3"
  assumes "pm_inv m" and "pt_ok m root" and "unmap_flags m flags n" and "at_level m root n (path_of vaddr)"
  shows "runs_to (vm_port_unmap cr3 vaddr flags) m (\<lambda>_ m'.
     pm_inv m' \<and> pm_same m m' \<and> pt_ok m' root \<and> mm_buddy_freelist m' = mm_buddy_freelist m \<and>
     (\<forall>va. hw_walk m' root (path_of va) =
        (if take n (path_of va) = take n (path_of vaddr) then None else hw_walk m root (path_of va))))"
  using assms(2-) unfolding root_def
  by (intro runs_to_mono [OF vm_port_unmap_correct]) (auto simp: remapped_def)

theorem vm_port_unmap_removes_witness:
  "runs_to (kbind vm_port_init_map (\<lambda>cr3. kthen (vm_port_map cr3 0x105000 0xFFFFE00000003000 kVmWriteback kVmAll)
       (kthen (vm_port_unmap cr3 0xFFFFE00000003000 0) (kreturn cr3)))) demo_mm16
     (\<lambda>cr3 m'. hw_walk m' (P2V (mm_hhdm m') cr3) (path_of 0xFFFFE00000003000) = None)"
  unfolding runs_to_kbind
proof (rule runs_to_mono [OF vm_port_init_map_correct [OF demo_mm16_facts(1,2) demo_free_pages(1)]], elim conjE, goal_cases)
  case (1 cr3 m')
  have fl: "map_request 0x105000 kVmAll" "map_levels kVmAll = 4" "kVmAll AND kVmHuge = 0"
    by (simp_all add: map_request_def map_levels_def kVmAll_def kVmRead_def kVmWrite_def kVmHuge_def)
  have "runs_to (vm_port_map cr3 0x105000 0xFFFFE00000003000 kVmWriteback kVmAll) m' (\<lambda>_ t.
     map_post (P2V (mm_hhdm m') cr3) (map_levels kVmAll) (path_of 0xFFFFE00000003000)
       (map_entry (mm_features m') 0x105000 kVmWriteback kVmAll) m' t)"
    using 1 demo_mm16_facts(2) demo_free_pages(2) fl
    by (intro vm_port_map_correct) (simp_all add: pm_same_def at_level_def)
  then have map: "runs_to (vm_port_map cr3 0x105000 0xFFFFE00000003000 kVmWriteback kVmAll) m' (\<lambda>_ t.
     map_post (P2V (mm_hhdm m') cr3) 4 (path_of 0xFFFFE00000003000)
       (map_entry (mm_features m') 0x105000 kVmWriteback kVmAll) m' t)"
    by (simp add: fl)
  show ?case
    unfolding runs_to_kthen
  proof (rule runs_to_mono [OF map], goal_cases)
    case (1 u t)
    then have t: "pm_inv t" "pt_ok t (P2V (mm_hhdm t) cr3)"
      "at_level t (P2V (mm_hhdm t) cr3) 4 (path_of 0xFFFFE00000003000)"
      by (simp_all add: map_post_def pm_same_def remapped_def at_level_def)
    have "unmap_flags t 0 4" by (simp add: unmap_flags_def)
    from vm_port_unmap_removes [OF t(1,2) this t(3)] show ?case
      by (rule runs_to_mono) (simp add: wp pm_same_def)
  qed
qed

text \<open>C17: Without gigabyte pages in the processor \<open>vm_port_map\<close> maps an aligned gigabyte with 512 pages of
  two megabytes: each of them is translated by its own entry, with consecutive physical addresses,
  and no address outside the gigabyte is translated differently.\<close>

theorem vm_port_map_gigabyte_emulated:
  fixes m cr3 vaddr
  defines "root \<equiv> P2V (mm_hhdm m) cr3"
  assumes "pm_inv m" and "\<not> mm_buddy_lock m" and "pt_ok m root" and "3 \<le> length (mm_buddy_freelist m ! 0)"
    and "flags AND kVmHuge \<noteq> 0" and "drop_bit kVmHugeShift flags = 30" and "\<not> ft_gbpages (mm_features m)"
    and "flags AND kVmRead \<noteq> 0" and "paddr mod GiB 1 = 0" and "unat vaddr mod 2 ^ 30 = 0"
    and "\<And>i. i < 512 \<Longrightarrow> at_level m root 3 [INDEX vaddr 3, INDEX vaddr 2, i, 0]"
  shows "runs_to (vm_port_map cr3 paddr vaddr cache flags) m (\<lambda>_ m'. pm_inv m' \<and> pm_same m m' \<and> pt_ok m' root \<and>
     (\<forall>va. hw_walk m' root (path_of va) =
        (if INDEX va 3 = INDEX vaddr 3 \<and> INDEX va 2 = INDEX vaddr 2
         then Some (map_entry (mm_features m) (paddr + MiB 2 * INDEX va 1) cache
                ((flags AND NOT kVmHuge1GB) OR kVmHuge2MB), 1)
         else hw_walk m root (path_of va))))"
proof -
  have "((flags AND NOT kVmHuge1GB) OR kVmHuge2MB) AND kVmRead = flags AND kVmRead"
    by (simp add: bit.conj_disj_distrib2 and.assoc kVmHuge1GB_def kVmHuge2MB_def kVmHuge_def kVmHugeShift_def kVmRead_def)
  then have rd: "emulated flags AND kVmRead \<noteq> 0" using assms(9) by (simp add: emulated_def)
  have p: "take 2 (path_of va) = [INDEX va 3, INDEX va 2]" "path_of va ! 2 = INDEX va 1" for va
    by (simp_all add: path_of_def eval_nat_numeral)
  have em: "runs_to (vm_port_map cr3 paddr vaddr cache flags) m (\<lambda>_ m'. pm_inv m' \<and> pm_same m m' \<and>
      pt_ok m' (P2V (mm_hhdm m) cr3) \<and>
      length (mm_buddy_freelist m ! 0) \<le> length (mm_buddy_freelist m' ! 0) + 3 \<and>
      set (mm_buddy_freelist m' ! 0) \<subseteq> set (mm_buddy_freelist m ! 0) \<and>
      large_pages (P2V (mm_hhdm m) cr3) [INDEX vaddr 3, INDEX vaddr 2] {i. i < 512}
        (\<lambda>i. map_entry (mm_features m) (paddr + MiB 2 * i) cache (emulated flags)) m m')"
    using assms(2-12) unfolding root_def by (intro vm_port_map_emulated) simp_all
  show ?thesis
    by (rule runs_to_mono [OF em])
      (simp add: large_pages_def p map_entry_facts(2) rd root_def, simp add: emulated_def)
qed

theorem vm_port_map_gigabyte_emulated_witness:
  "runs_to (kbind vm_port_init_map (\<lambda>cr3. kthen (vm_port_map cr3 0x40000000 0xFFFF800040000000 kVmWriteback (kVmAll OR kVmHuge1GB))
       (kreturn cr3))) demo_mm16
     (\<lambda>cr3 m'. hw_walk m' (P2V (mm_hhdm m') cr3) (path_of 0xFFFF800040212345) = Some (0x8000000040200083, 1))"
  unfolding runs_to_kbind
proof (rule runs_to_mono [OF vm_port_init_map_correct [OF demo_mm16_facts(1,2) demo_free_pages(1)]], elim conjE, goal_cases)
  case (1 cr3 m')
  have f: "mm_features m' = \<lparr>ft_pge = True, ft_nx = True, ft_gbpages = False\<rparr>"
    using 1(2) by (simp add: pm_same_def demo_mm16_def added_region_simps demo_mm_def)
  have e: "map_entry (mm_features m') (0x40000000 + MiB 2) kVmWriteback ((kVmAll OR kVmHuge1GB) AND NOT kVmHuge1GB OR kVmHuge2MB)
      = 0x8000000040200083"
    by (simp add: map_entry_def f pte_defs kVmWriteback_def kVmAll_def kVmRead_def kVmWrite_def kVmHuge_def
        kVmUser_def kVmGlobal_def kVmExecute_def kVmWritecombine_def kVmWritethrough_def kVmUncached_def
        kVmHuge1GB_def kVmHuge2MB_def kVmHugeShift_def MiB_def
        PAGE_ALIGN_DOWN_def ALIGN_DOWN_def PAGE_SIZE_def)
  have i: "INDEX 0xFFFF800040212345 3 = INDEX 0xFFFF800040000000 3" "INDEX 0xFFFF800040212345 2 = INDEX 0xFFFF800040000000 2"
    "INDEX 0xFFFF800040212345 1 = 1"
    by (simp_all add: INDEX_def)
  have at: "at_level m' (P2V (mm_hhdm m') cr3) 3 [INDEX 0xFFFF800040000000 3, INDEX 0xFFFF800040000000 2, i, 0]"
    if "i < 512" for i
    using 1(5) that by (simp add: at_level_def del: hw_walk.simps)
  have fl: "(kVmAll OR kVmHuge1GB) AND kVmHuge \<noteq> 0" "drop_bit kVmHugeShift (kVmAll OR kVmHuge1GB) = 30"
    "(kVmAll OR kVmHuge1GB) AND kVmRead \<noteq> 0" "(0x40000000::u64) mod GiB 1 = 0"
    by (simp_all add: kVmAll_def kVmRead_def kVmWrite_def kVmHuge_def kVmHuge1GB_def kVmHugeShift_def GiB_def)
  have len: "3 \<le> length (mm_buddy_freelist m' ! 0)" "\<not> mm_buddy_lock m'" "\<not> ft_gbpages (mm_features m')"
    "unat (0xFFFF800040000000 :: u64) mod 2 ^ 30 = 0"
    using 1(2,4) demo_mm16_facts(2) demo_free_pages(2) by (simp_all add: f) (simp add: pm_same_def)
  show ?case
    unfolding runs_to_kthen
    by (rule runs_to_mono [OF vm_port_map_gigabyte_emulated [OF 1(1) len(2) 1(3) len(1) fl(1,2) len(3) fl(3,4) len(4) at]])
      (simp_all add: wp pm_same_def i e del: One_nat_def)
qed

text \<open>C19: The page-size bit is not looked at when walking: for an address inside a 2-megabyte page
  \<open>vm_port_translate_paddr\<close> takes the mapped memory for a table and returns the address bits of a
  word of it.\<close>

theorem translate_reads_mapped_memory:
  assumes "hw_walk m (P2V (mm_hhdm m) cr3) (path_of va) = Some (e, 1)"
  shows "runs_to (vm_port_translate_paddr cr3 va) m (\<lambda>r m'. m' = m \<and>
     r = mm_mem m (P2V (mm_hhdm m) (e AND pteAddress) + 8 * INDEX va 0) AND pteAddress)"
  using assms
  by (auto simp: path_of_def Let_def vm_port_translate_paddr_def pte_walk_def pte_next_def wp table_of_def
      split: if_splits)

theorem translate_reads_mapped_memory_witness:
  "runs_to (vm_port_translate_paddr 0x1000 0) (demo_mm\<lparr>mm_hhdm := 0, mm_mem := (\<lambda>_. 0)(0x1000 := 0x2003, 0x2000 := 0x3003,
       0x3000 := 0x200083, 0x200000 := 0xABCDE007)\<rparr>) (\<lambda>r m'. r = 0xABCDE000)"
  by (rule runs_to_mono [OF translate_reads_mapped_memory [where e = "0x200083"]])
    (simp_all add: path_of_def INDEX_def P2V_def table_of_def pte_defs)



end
