(* ===== verification/Strings.thy ===== *)
theory Strings
  imports Prelude
begin

text \<open>
  The memory and string routines of \<^verbatim>\<open>lib/string.c\<close>, on a memory of bytes. Pointers are 64-bit
  words and pointer arithmetic wraps around. A loop that runs until it meets a zero byte takes a
  bound on the number of its steps and returns nothing when it is exceeded; the lemmas show that the
  length of the string is enough.
\<close>

type_synonym bytes = "u64 \<Rightarrow> u8"

section \<open>Routines\<close>

definition memset :: "bytes \<Rightarrow> u64 \<Rightarrow> int \<Rightarrow> u64 \<Rightarrow> bytes" where
  "memset mem p c n = fold (\<lambda>i m. m(p + of_nat i := word_of_int c)) [0..<unat n] mem"

definition memcpy :: "bytes \<Rightarrow> u64 \<Rightarrow> u64 \<Rightarrow> u64 \<Rightarrow> bytes" where
  "memcpy mem dest src n = fold (\<lambda>i m. m(dest + of_nat i := m (src + of_nat i))) [0..<unat n] mem"

fun memcmp_from :: "bytes \<Rightarrow> u64 \<Rightarrow> u64 \<Rightarrow> nat \<Rightarrow> int" where
  "memcmp_from mem s1 s2 0 = 0"
| "memcmp_from mem s1 s2 (Suc n) =
     (if mem s1 \<noteq> mem s2 then if mem s1 < mem s2 then - 1 else 1
      else memcmp_from mem (s1 + 1) (s2 + 1) n)"

definition memcmp :: "bytes \<Rightarrow> u64 \<Rightarrow> u64 \<Rightarrow> u64 \<Rightarrow> int" where
  "memcmp mem s1 s2 n = memcmp_from mem s1 s2 (unat n)"

definition memmove :: "bytes \<Rightarrow> u64 \<Rightarrow> u64 \<Rightarrow> u64 \<Rightarrow> bytes" where
  "memmove mem dest src n =
     (if src > dest
      then fold (\<lambda>i m. m(dest + of_nat i := m (src + of_nat i))) [0..<unat n] mem
      else if src < dest
      then fold (\<lambda>i m. m(dest + of_nat i := m (src + of_nat i))) (rev [0..<unat n]) mem
      else mem)"

fun strncpy_from :: "bytes \<Rightarrow> u64 \<Rightarrow> u64 \<Rightarrow> nat \<Rightarrow> bytes" where
  "strncpy_from mem dest src 0 = mem"
| "strncpy_from mem dest src (Suc n) =
     (if mem src = 0 then mem else strncpy_from (mem(dest := mem src)) (dest + 1) (src + 1) n)"

definition strncpy :: "bytes \<Rightarrow> u64 \<Rightarrow> u64 \<Rightarrow> u64 \<Rightarrow> bytes" where
  "strncpy mem dest src len = strncpy_from mem dest src (unat len)"

fun strncmp_from :: "bytes \<Rightarrow> u64 \<Rightarrow> u64 \<Rightarrow> nat \<Rightarrow> int" where
  "strncmp_from mem s1 s2 0 = 0"
| "strncmp_from mem s1 s2 (Suc n) =
     (if mem s1 \<noteq> 0 \<and> mem s1 = mem s2 then strncmp_from mem (s1 + 1) (s2 + 1) n
      else uint (mem s1) - uint (mem s2))"

definition strncmp :: "bytes \<Rightarrow> u64 \<Rightarrow> u64 \<Rightarrow> u64 \<Rightarrow> int" where
  "strncmp mem s1 s2 n = strncmp_from mem s1 s2 (unat n)"

fun strcmp :: "nat \<Rightarrow> bytes \<Rightarrow> u64 \<Rightarrow> u64 \<Rightarrow> int option" where
  "strcmp 0 mem s1 s2 = None"
| "strcmp (Suc fuel) mem s1 s2 =
     (if mem s1 \<noteq> 0 \<and> mem s1 = mem s2 then strcmp fuel mem (s1 + 1) (s2 + 1)
      else Some (uint (mem s1) - uint (mem s2)))"

fun strcpy_from :: "nat \<Rightarrow> bytes \<Rightarrow> u64 \<Rightarrow> u64 \<Rightarrow> bytes option" where
  "strcpy_from 0 mem dest src = None"
| "strcpy_from (Suc fuel) mem dest src =
     (if mem src \<noteq> 0 then strcpy_from fuel (mem(dest := mem src)) (dest + 1) (src + 1)
      else Some (mem(dest := 0)))"

definition strcpy :: "nat \<Rightarrow> bytes \<Rightarrow> u64 \<Rightarrow> u64 \<Rightarrow> (u64 \<times> bytes) option" where
  "strcpy fuel mem dest src =
     (if dest = 0 then Some (0, mem) else map_option (\<lambda>m. (dest, m)) (strcpy_from fuel mem dest src))"

fun strlen_from :: "nat \<Rightarrow> bytes \<Rightarrow> u64 \<Rightarrow> u64 \<Rightarrow> u64 option" where
  "strlen_from 0 mem str len = None"
| "strlen_from (Suc fuel) mem str len =
     (if mem (str + len) \<noteq> 0 then strlen_from fuel mem str (len + 1) else Some len)"

definition strlen :: "nat \<Rightarrow> bytes \<Rightarrow> u64 \<Rightarrow> u64 option" where
  "strlen fuel mem str = strlen_from fuel mem str 0"

definition bzero :: "bytes \<Rightarrow> u64 \<Rightarrow> u64 \<Rightarrow> bytes" where
  "bzero mem s n = fold (\<lambda>i m. m(s + of_nat i := 0)) (rev [0..<unat n]) mem"

section \<open>Ranges of memory\<close>

text \<open>\<open>n\<close> bytes at \<open>p\<close>, and a zero-terminated string.\<close>

definition bytes_at :: "bytes \<Rightarrow> u64 \<Rightarrow> nat \<Rightarrow> u8 list" where
  "bytes_at mem p n = map (\<lambda>i. mem (p + of_nat i)) [0..<n]"

definition cstr :: "bytes \<Rightarrow> u64 \<Rightarrow> u8 list \<Rightarrow> bool" where
  "cstr mem p s \<longleftrightarrow> bytes_at mem p (Suc (length s)) = s @ [0] \<and> 0 \<notin> set s"

lemma bytes_at_Suc: "bytes_at mem p (Suc n) = mem p # bytes_at mem (p + 1) n"
proof -
  have "bytes_at mem p (Suc n) = map (\<lambda>i. mem (p + of_nat i)) (0 # map Suc [0..<n])"
    unfolding bytes_at_def by (simp add: upt_conv_Cons map_Suc_upt del: upt_Suc)
  then show ?thesis by (simp add: bytes_at_def add.assoc)
qed

lemma cstr_Nil [simp]: "cstr mem p [] \<longleftrightarrow> mem p = 0"
  by (simp add: cstr_def bytes_at_def)

lemma cstr_Cons [simp]: "cstr mem p (c # s) \<longleftrightarrow> mem p = c \<and> c \<noteq> 0 \<and> cstr mem (p + 1) s"
  by (auto simp: cstr_def bytes_at_Suc [of _ _ "Suc _"])

text \<open>The addresses of a range that does not run over the end of the address space differ.\<close>

lemma range_inj: "i < unat n \<Longrightarrow> j < unat n \<Longrightarrow> p + of_nat i = p + of_nat j \<Longrightarrow> i = j"
  for n p :: u64
proof -
  assume i: "i < unat n" and j: "j < unat n" and e: "p + of_nat i = p + of_nat j"
  have u: "unat (of_nat k :: u64) = k" if "k < unat n" for k
    using that unsigned_less [of n, where ?'a = nat] unat_of_nat [where 'a = 64, of k] by simp
  have "(of_nat i :: u64) = of_nat j" using e by (rule add_left_imp_eq)
  then have "unat (of_nat i :: u64) = unat (of_nat j :: u64)" by (rule arg_cong)
  then show "i = j" by (simp only: u [OF i] u [OF j])
qed

section \<open>Copying\<close>

text \<open>Bytes copied one after the other in any order, each read before it is overwritten.\<close>

lemma copy_fold:
  fixes mem :: bytes and ls :: "nat list" and src dest :: u64
  defines "run \<equiv> (\<lambda>ls. fold (\<lambda>i m. m(dest + of_nat i := m (src + of_nat i))) ls mem)"
  assumes "inj_on (\<lambda>i. dest + of_nat i) (set ls)"
    and "\<And>ys i zs. ls = ys @ i # zs \<Longrightarrow> src + of_nat i \<notin> (\<lambda>j. dest + of_nat j) ` set ys"
  shows "i \<in> set ls \<Longrightarrow> run ls (dest + of_nat i) = mem (src + of_nat i)"
    and "x \<notin> (\<lambda>i. dest + of_nat i) ` set ls \<Longrightarrow> run ls x = mem x"
proof -
  have "(\<forall>i \<in> set ls. run ls (dest + of_nat i) = mem (src + of_nat i)) \<and>
      (\<forall>x. x \<notin> (\<lambda>i. dest + of_nat i) ` set ls \<longrightarrow> run ls x = mem x)"
    using assms(2,3)
  proof (induction ls rule: rev_induct)
    case Nil
    then show ?case by (simp add: run_def)
  next
    case (snoc k ks)
    have step: "run (ks @ [k]) = (run ks)(dest + of_nat k := run ks (src + of_nat k))" by (simp add: run_def)
    have IH: "\<forall>i \<in> set ks. run ks (dest + of_nat i) = mem (src + of_nat i)"
      "\<forall>x. x \<notin> (\<lambda>i. dest + of_nat i) ` set ks \<longrightarrow> run ks x = mem x"
      using snoc.IH snoc.prems by (auto simp: inj_on_def)
    have "run ks (src + of_nat k) = mem (src + of_nat k)" using IH(2) snoc.prems(2) [of ks k "[]"] by simp
    then show ?case using IH snoc.prems(1) by (auto simp: step inj_on_def)
  qed
  then show "i \<in> set ls \<Longrightarrow> run ls (dest + of_nat i) = mem (src + of_nat i)"
    and "x \<notin> (\<lambda>i. dest + of_nat i) ` set ls \<Longrightarrow> run ls x = mem x" by blast+
qed

text \<open>The routines on ranges that do not run over the end of the address space.\<close>

definition in_space :: "u64 \<Rightarrow> u64 \<Rightarrow> bool" where
  "in_space p n \<longleftrightarrow> unat p + unat n \<le> 2 ^ 64"

lemma unat_in_space: "in_space p n \<Longrightarrow> i < unat n \<Longrightarrow> unat (p + of_nat i) = unat p + i"
proof -
  assume s: "in_space p n" and i: "i < unat n"
  then have "i < 2 ^ 64" by (simp add: in_space_def)
  then have "unat (of_nat i :: u64) = i" using unat_of_nat [where 'a = 64, of i] by simp
  then show ?thesis using s i unat_add_lem [of p "of_nat i"] by (simp add: in_space_def)
qed

lemma inj_range: "inj_on (\<lambda>i. p + of_nat i) {0..<unat n}" for p n :: u64
  by (intro inj_onI) (auto intro: range_inj)

lemma copied_range:
  fixes mem :: bytes and ks :: "nat list" and src dest n :: u64
  assumes sp: "in_space src n" "in_space dest n" and ks: "set ks = {0..<unat n}"
    and order: "\<And>ys i zs. ks = ys @ i # zs \<Longrightarrow> \<forall>j \<in> set ys. unat src + i \<noteq> unat dest + j"
  defines "mem' \<equiv> fold (\<lambda>i m. m(dest + of_nat i := m (src + of_nat i))) ks mem"
  shows "bytes_at mem' dest (unat n) = bytes_at mem src (unat n)"
    and "x \<notin> (\<lambda>i. dest + of_nat i) ` {0..<unat n} \<Longrightarrow> mem' x = mem x"
proof -
  have ok: "src + of_nat i \<notin> (\<lambda>j. dest + of_nat j) ` set ys" if e: "ks = ys @ i # zs" for ys i zs
  proof
    assume "src + of_nat i \<in> (\<lambda>j. dest + of_nat j) ` set ys"
    then obtain j where j: "j \<in> set ys" "src + of_nat i = dest + of_nat j" by auto
    have "i < unat n" "j < unat n" using ks e j(1) by auto
    then have "unat src + i = unat dest + j"
      using arg_cong [OF j(2), of unat] unat_in_space [OF sp(1), of i] unat_in_space [OF sp(2), of j] by metis
    then show False using order [OF e] j(1) by blast
  qed
  note copy = copy_fold [where mem = mem and ls = ks and src = src and dest = dest, folded mem'_def, OF _ ok]
  have inj: "inj_on (\<lambda>i. dest + of_nat i) (set ks)" unfolding ks by (rule inj_range)
  show "bytes_at mem' dest (unat n) = bytes_at mem src (unat n)"
    using copy(1) [OF inj] ks by (simp add: bytes_at_def)
  show "x \<notin> (\<lambda>i. dest + of_nat i) ` {0..<unat n} \<Longrightarrow> mem' x = mem x"
    using copy(2) [OF inj] ks by simp
qed

lemma memmove_correct:
  assumes sp: "in_space src n" "in_space dest n"
  shows "bytes_at (memmove mem dest src n) dest (unat n) = bytes_at mem src (unat n)"
    and "x \<notin> (\<lambda>i. dest + of_nat i) ` {0..<unat n} \<Longrightarrow> memmove mem dest src n x = mem x"
proof -
  have up: "\<forall>j \<in> set ys. unat src + i \<noteq> unat dest + j" if "src > dest" "[0..<unat n] = ys @ i # zs" for ys i zs
    using that upt_split(1) [OF that(2)] by (auto simp: word_less_nat_alt)
  have down: "\<forall>j \<in> set ys. unat src + i \<noteq> unat dest + j" if "src < dest" "rev [0..<unat n] = ys @ i # zs" for ys i zs
  proof -
    have e: "[0..<unat n] = rev zs @ i # rev ys" using arg_cong [OF that(2), of rev] by simp
    have "set ys = {Suc i..<unat n}"
    proof -
      have "rev zs = [0..<i]" "i < unat n" using upt_split [OF e] by auto
      then have "[0..<i] @ i # rev ys = [0..<i] @ i # [Suc i..<unat n]"
        using e upt_add_eq_append [of 0 i "unat n - i"] upt_conv_Cons [of i "unat n"] by simp
      then have "rev ys = [Suc i..<unat n]" by simp
      then show ?thesis by (metis set_rev set_upt)
    qed
    then show ?thesis using that(1) by (auto simp: word_less_nat_alt)
  qed
  consider "src > dest" | "src < dest" | "src = dest" by (rule linorder_cases)
  then show "bytes_at (memmove mem dest src n) dest (unat n) = bytes_at mem src (unat n)"
    using copied_range(1) [OF sp, of "[0..<unat n]"] copied_range(1) [OF sp, of "rev [0..<unat n]"] up down
    by cases (auto simp: memmove_def)
  assume x: "x \<notin> (\<lambda>i. dest + of_nat i) ` {0..<unat n}"
  consider "src > dest" | "src < dest" | "src = dest" by (rule linorder_cases)
  then show "memmove mem dest src n x = mem x"
    using copied_range(2) [OF sp, of "[0..<unat n]" x] copied_range(2) [OF sp, of "rev [0..<unat n]" x] up down x
    by cases (auto simp: memmove_def)
qed

lemma memcpy_correct:
  assumes sp: "in_space src n" "in_space dest n"
    and apart: "unat src + unat n \<le> unat dest \<or> unat dest + unat n \<le> unat src"
  shows "bytes_at (memcpy mem dest src n) dest (unat n) = bytes_at mem src (unat n)"
    and "x \<notin> (\<lambda>i. dest + of_nat i) ` {0..<unat n} \<Longrightarrow> memcpy mem dest src n x = mem x"
proof -
  have "\<forall>j \<in> set ys. unat src + i \<noteq> unat dest + j" if "[0..<unat n] = ys @ i # zs" for ys i zs
    using apart upt_split [OF that] by auto
  then show "bytes_at (memcpy mem dest src n) dest (unat n) = bytes_at mem src (unat n)"
    and "x \<notin> (\<lambda>i. dest + of_nat i) ` {0..<unat n} \<Longrightarrow> memcpy mem dest src n x = mem x"
    using copied_range [OF sp, of "[0..<unat n]"] by (simp_all add: memcpy_def)
qed

section \<open>Filling and comparing\<close>

lemma fill_fold:
  "fold (\<lambda>i m. m(p + of_nat i := c)) ks mem x = (if x \<in> (\<lambda>i. p + of_nat i) ` set ks then c else mem x)"
  for mem :: bytes and ks :: "nat list"
  by (induction ks arbitrary: mem) auto

lemma memset_correct:
  "memset mem p c n x = (if x \<in> (\<lambda>i. p + of_nat i) ` {0..<unat n} then word_of_int c else mem x)"
  by (simp add: memset_def fill_fold)

lemma bzero_memset: "bzero mem p n = memset mem p 0 n"
  by (rule ext) (simp add: bzero_def memset_def fill_fold)

lemma memcmp_from_correct:
  "memcmp_from mem s1 s2 n =
     (if bytes_at mem s1 n = bytes_at mem s2 n then 0
      else if (bytes_at mem s1 n, bytes_at mem s2 n) \<in> lexord {(a, b). a < b} then - 1 else 1)"
proof (induction n arbitrary: s1 s2)
  case 0
  then show ?case by (simp add: bytes_at_def)
next
  case (Suc n)
  then show ?case by (auto simp: bytes_at_Suc)
qed

lemma word_uint_gt_0: "w \<noteq> 0 \<Longrightarrow> 0 < uint w" for w :: u8
  using uint_0_iff [of w] unsigned_greater_eq [of w, where ?'a = int] by linarith

lemma strcmp_correct:
  assumes "cstr mem p s" and "cstr mem q t" and "length s < fuel"
  shows "\<exists>r. strcmp fuel mem p q = Some r \<and> (r = 0 \<longleftrightarrow> s = t) \<and> (r < 0 \<longleftrightarrow> (s, t) \<in> lexord {(a, b). a < b})"
  using assms
proof (induction s arbitrary: p q t fuel)
  case Nil
  then obtain f where f: "fuel = Suc f" by (cases fuel) auto
  show ?case using Nil by (cases t) (auto simp: f uint_0_iff word_uint_gt_0)
next
  case (Cons c s)
  then obtain f where f: "fuel = Suc f" "length s < f" by (cases fuel) auto
  show ?case
  proof (cases t)
    case Nil
    then show ?thesis using Cons.prems word_uint_gt_0 [of c] by (auto simp: f)
  next
    case (Cons d t')
    then show ?thesis
      using Cons.prems Cons.IH [of "p + 1" "q + 1" t' f] f by (auto simp: word_less_def word_uint_eq_iff)
  qed
qed

section \<open>Strings\<close>

lemma strlen_correct:
  assumes "cstr mem p s" and "length s < fuel"
  shows "strlen fuel mem p = Some (of_nat (length s))"
proof -
  have "strlen_from fuel mem p n = Some (n + of_nat (length s))" if "cstr mem (p + n) s" "length s < fuel" for fuel n s
    using that
  proof (induction s arbitrary: fuel n)
    case Nil
    then show ?case by (cases fuel) auto
  next
    case (Cons c s)
    then obtain f where "fuel = Suc f" "length s < f" by (cases fuel) auto
    then show ?case using Cons by (simp add: add.assoc ac_simps)
  qed
  from this [of 0] assms show ?thesis by (simp add: strlen_def)
qed

text \<open>A string and a range of addresses that do not meet.\<close>

definition apart :: "u64 \<Rightarrow> u64 \<Rightarrow> nat \<Rightarrow> bool" where
  "apart p q n \<longleftrightarrow> (\<forall>i \<le> n. \<forall>j \<le> n. p + of_nat i \<noteq> q + of_nat j)"

lemma apart_Suc:
  assumes "apart p q (Suc n)"
  shows "apart (p + 1) (q + 1) n" and "i \<le> Suc n \<Longrightarrow> p + of_nat i \<noteq> q"
proof -
  have all: "p + of_nat i \<noteq> q + of_nat j" if "i \<le> Suc n" "j \<le> Suc n" for i j
    using assms that by (simp add: apart_def)
  show "apart (p + 1) (q + 1) n"
    unfolding apart_def
  proof (intro allI impI)
    fix i j
    assume "i \<le> n" "j \<le> n"
    then show "p + 1 + of_nat i \<noteq> q + 1 + of_nat j" using all [of "Suc i" "Suc j"] by (simp add: add.assoc)
  qed
  show "p + of_nat i \<noteq> q" if "i \<le> Suc n" using all [OF that, of 0] by simp
qed

lemma cstr_frame: "cstr mem p s \<Longrightarrow> (\<And>i. i \<le> length s \<Longrightarrow> p + of_nat i \<noteq> q) \<Longrightarrow> cstr (mem(q := c)) p s"
proof (induction s arbitrary: p)
  case Nil
  then show ?case using Nil.prems(2) [of 0] by simp
next
  case (Cons d s)
  have "cstr (mem(q := c)) (p + 1) s"
  proof (rule Cons.IH)
    show "cstr mem (p + 1) s" using Cons.prems(1) by simp
    show "p + 1 + of_nat i \<noteq> q" if "i \<le> length s" for i
      using Cons.prems(2) [of "Suc i"] that by (simp add: add.assoc)
  qed
  then show ?case using Cons.prems(1) Cons.prems(2) [of 0] by (simp add: fun_upd_def)
qed

lemma strncpy_from_correct:
  assumes "cstr mem src s" and "apart src dest (length s)" and "n \<le> length s"
  shows "strncpy_from mem dest src n = fold (\<lambda>i m. m(dest + of_nat i := s ! i)) [0..<n] mem"
  using assms
proof (induction n arbitrary: mem dest src s)
  case 0
  then show ?case by simp
next
  case (Suc n)
  then obtain c s' where s: "s = c # s'" by (cases s) auto
  have a: "apart (src + 1) (dest + 1) (length s')" "\<And>i. i \<le> Suc (length s') \<Longrightarrow> src + of_nat i \<noteq> dest"
    using apart_Suc [of src dest "length s'"] Suc.prems(2) s by simp_all
  have "cstr (mem(dest := c)) (src + 1) s'"
  proof (rule cstr_frame)
    show "cstr mem (src + 1) s'" using Suc.prems(1) s by simp
    show "src + 1 + of_nat i \<noteq> dest" if "i \<le> length s'" for i
      using a(2) [of "Suc i"] that by (simp add: add.assoc)
  qed
  from Suc.IH [OF this a(1)] Suc.prems s
  have "strncpy_from mem dest src (Suc n) =
      fold (\<lambda>i m. m(dest + 1 + of_nat i := s' ! i)) [0..<n] (mem(dest := c))" by (simp add: fun_upd_def)
  also have "\<dots> = fold (\<lambda>i m. m(dest + of_nat i := s ! i)) (0 # map Suc [0..<n]) mem"
    by (simp add: s fold_map comp_def add.assoc)
  also have "0 # map Suc [0..<n] = [0..<Suc n]" by (simp add: upt_conv_Cons map_Suc_upt del: upt_Suc)
  finally show ?case .
qed

lemma strncpy_from_stops:
  "cstr mem src s \<Longrightarrow> apart src dest (length s) \<Longrightarrow> length s \<le> n \<Longrightarrow>
   strncpy_from mem dest src n = strncpy_from mem dest src (length s)"
proof (induction s arbitrary: mem dest src n)
  case Nil
  then show ?case by (cases n) auto
next
  case (Cons c s)
  then obtain k where k: "n = Suc k" "length s \<le> k" by (cases n) auto
  have a: "apart (src + 1) (dest + 1) (length s)" "\<And>i. i \<le> Suc (length s) \<Longrightarrow> src + of_nat i \<noteq> dest"
    using apart_Suc [of src dest "length s"] Cons.prems(2) by simp_all
  have "cstr (mem(dest := c)) (src + 1) s"
  proof (rule cstr_frame)
    show "cstr mem (src + 1) s" using Cons.prems(1) by simp
    show "src + 1 + of_nat i \<noteq> dest" if "i \<le> length s" for i
      using a(2) [of "Suc i"] that by (simp add: add.assoc)
  qed
  from Cons.IH [OF this a(1) k(2)] show ?case using Cons.prems(1) by (simp add: k fun_upd_def)
qed

lemma strcpy_from_correct:
  assumes "cstr mem src s" and "apart src dest (length s)" and "length s < fuel"
  shows "strcpy_from fuel mem dest src =
     Some ((strncpy_from mem dest src (length s))(dest + of_nat (length s) := 0))"
  using assms
proof (induction s arbitrary: mem dest src fuel)
  case Nil
  then show ?case by (cases fuel) auto
next
  case (Cons c s)
  then obtain f where f: "fuel = Suc f" "length s < f" by (cases fuel) auto
  have a: "apart (src + 1) (dest + 1) (length s)" "\<And>i. i \<le> Suc (length s) \<Longrightarrow> src + of_nat i \<noteq> dest"
    using apart_Suc [of src dest "length s"] Cons.prems(2) by simp_all
  have "cstr (mem(dest := c)) (src + 1) s"
  proof (rule cstr_frame)
    show "cstr mem (src + 1) s" using Cons.prems(1) by simp
    show "src + 1 + of_nat i \<noteq> dest" if "i \<le> length s" for i
      using a(2) [of "Suc i"] that by (simp add: add.assoc)
  qed
  from Cons.IH [OF this a(1) f(2)] show ?case using Cons.prems(1) by (simp add: f ac_simps fun_upd_def)
qed

lemma apart_sym: "apart p q n \<Longrightarrow> apart q p n"
  by (fastforce simp: apart_def)

text \<open>The fold that \<open>strncpy\<close> computes, read back.\<close>

lemma put_fold:
  assumes "inj_on (\<lambda>i. dest + of_nat i) {0..<n}"
  shows "i < n \<Longrightarrow> fold (\<lambda>i m. m(dest + of_nat i := f i)) [0..<n] mem (dest + of_nat i) = f i"
    and "x \<notin> (\<lambda>i. dest + of_nat i) ` {0..<n} \<Longrightarrow> fold (\<lambda>i m. m(dest + of_nat i := f i)) [0..<n] mem x = mem x"
  using assms
proof (induction n)
  case (Suc n)
  { case 1
    have inj: "inj_on (\<lambda>i. dest + of_nat i) {0..<n}" using 1(2) by (rule inj_on_subset) auto
    have "dest + of_nat i \<noteq> dest + of_nat n" if "i < n"
      using inj_on_contraD [OF 1(2), of i n] that by simp
    then show ?case using Suc.IH(1) [OF _ inj] 1(1) by (cases "i = n") auto
  next
    case 2
    have inj: "inj_on (\<lambda>i. dest + of_nat i) {0..<n}" using 2(2) by (rule inj_on_subset) auto
    have "x \<notin> (\<lambda>i. dest + of_nat i) ` {0..<n}" "x \<noteq> dest + of_nat n" using 2(1) by (auto simp: image_iff)
    then show ?case using Suc.IH(2) [OF _ inj] by simp
  }
qed simp_all

lemma inj_range_nat: "n \<le> 2 ^ 64 \<Longrightarrow> inj_on (\<lambda>i. p + of_nat i) {0..<n}" for p :: u64
proof (rule inj_onI)
  fix i j
  assume n: "n \<le> 2 ^ 64" and i: "i \<in> {0..<n}" and j: "j \<in> {0..<n}" and e: "p + of_nat i = p + of_nat j"
  have "(of_nat i :: u64) = of_nat j" using e by (rule add_left_imp_eq)
  then have "unat (of_nat i :: u64) = unat (of_nat j :: u64)" by (rule arg_cong)
  moreover have "i < 2 ^ 64" "j < 2 ^ 64" using n i j by auto
  ultimately show "i = j"
    using unat_of_nat [where 'a = 64, of i] unat_of_nat [where 'a = 64, of j] by simp
qed

lemma strcpy_correct:
  assumes src: "cstr mem src s" and ap: "apart src dest (length s)" and fuel: "length s < fuel"
    and len: "length s < 2 ^ 64" and nz: "dest \<noteq> 0"
  obtains mem' where "strcpy fuel mem dest src = Some (dest, mem')" and "cstr mem' dest s"
    and "\<And>x. x \<notin> (\<lambda>i. dest + of_nat i) ` {0..length s} \<Longrightarrow> mem' x = mem x"
proof
  let ?n = "length s"
  let ?put = "fold (\<lambda>i m. m(dest + of_nat i := s ! i)) [0..<?n] mem"
  let ?mem' = "?put(dest + of_nat ?n := 0)"
  show "strcpy fuel mem dest src = Some (dest, ?mem')"
    using strcpy_from_correct [OF src ap fuel] strncpy_from_correct [OF src ap order.refl] nz
    by (simp only: strcpy_def) simp
  have inj: "inj_on (\<lambda>i. dest + of_nat i) {0..<Suc ?n}" using inj_range_nat [of "Suc ?n"] len by simp
  have inj': "inj_on (\<lambda>i. dest + of_nat i) {0..<?n}" using inj by (rule inj_on_subset) auto
  have "?mem' (dest + of_nat i) = s ! i" if "i < ?n" for i
  proof -
    have "dest + of_nat i \<noteq> dest + of_nat ?n" using inj that by (fastforce simp: inj_on_def)
    then show ?thesis using put_fold(1) [OF inj' that] by simp
  qed
  then have "map (\<lambda>i. ?mem' (dest + of_nat i)) [0..<?n] = map (\<lambda>i. s ! i) [0..<?n]"
    by (intro map_cong refl) (simp only: set_upt atLeastLessThan_iff)
  then have "bytes_at ?mem' dest ?n = s" unfolding bytes_at_def map_nth .
  then have "bytes_at ?mem' dest (Suc ?n) = s @ [0]" by (simp add: bytes_at_def)
  then show "cstr ?mem' dest s" using src by (simp add: cstr_def)
  show "?mem' x = mem x" if "x \<notin> (\<lambda>i. dest + of_nat i) ` {0..?n}" for x
    using put_fold(2) [OF inj', of x] that by (auto simp: image_iff)
qed

lemma apart_code: "apart p q n \<longleftrightarrow> (\<forall>i \<in> set [0..<Suc n]. \<forall>j \<in> set [0..<Suc n]. p + of_nat i \<noteq> q + of_nat j)"
  by (auto simp: apart_def simp del: upt_Suc)

section \<open>Properties\<close>

text \<open>C21: \<open>memmove\<close> copies a range correctly however the two ranges overlap: afterwards the destination
  holds the bytes the source held before, and no byte outside the destination has changed.\<close>

theorem memmove_overlap:
  assumes "in_space src n" and "in_space dest n"
  shows "bytes_at (memmove mem dest src n) dest (unat n) = bytes_at mem src (unat n) \<and>
    (\<forall>x. x \<notin> (\<lambda>i. dest + of_nat i) ` {0..<unat n} \<longrightarrow> memmove mem dest src n x = mem x)"
  using memmove_correct [OF assms] by blast

theorem memmove_overlap_witness:
  "bytes_at (memmove (\<lambda>a. word_of_int (uint a)) 0x1002 0x1000 4) 0x1002 4 = [0, 1, 2, 3]"
proof -
  have "bytes_at (\<lambda>a. word_of_int (uint a)) 0x1000 4 = [0, 1, 2, 3]" by code_simp
  then show ?thesis
    using memmove_overlap [of "0x1000" 4 "0x1002" "\<lambda>a. word_of_int (uint a)"] by (simp add: in_space_def)
qed

text \<open>C22: \<open>strcpy\<close>, \<open>strlen\<close> and \<open>strcmp\<close> agree on what a string is. Copying a zero-terminated string to
  a place apart from it ends after as many steps as the string has bytes, leaves a copy whose
  \<open>strlen\<close> is the length of the string and which \<open>strcmp\<close> finds equal to the original, and changes
  no byte outside the copy.\<close>

theorem strcpy_roundtrip:
  assumes "cstr mem src s" and "apart src dest (length s)" and "length s < 2 ^ 64" and "dest \<noteq> 0"
    and "length s < fuel"
  shows "\<exists>mem'. strcpy fuel mem dest src = Some (dest, mem') \<and>
    strlen fuel mem' dest = Some (of_nat (length s)) \<and> strcmp fuel mem' dest src = Some 0 \<and>
    (\<forall>x. x \<notin> (\<lambda>i. dest + of_nat i) ` {0..length s} \<longrightarrow> mem' x = mem x)"
proof -
  obtain mem' where m: "strcpy fuel mem dest src = Some (dest, mem')" "cstr mem' dest s"
    "\<And>x. x \<notin> (\<lambda>i. dest + of_nat i) ` {0..length s} \<Longrightarrow> mem' x = mem x"
    using strcpy_correct [OF assms(1,2,5,3,4)] by blast
  have "mem' (src + of_nat i) = mem (src + of_nat i)" if "i \<le> length s" for i
    using assms(2) that by (intro m(3)) (auto simp: apart_def image_iff)
  then have "bytes_at mem' src (Suc (length s)) = bytes_at mem src (Suc (length s))"
    by (auto simp: bytes_at_def)
  then have "cstr mem' src s" using assms(1) by (simp add: cstr_def)
  then have "strcmp fuel mem' dest src = Some 0" using strcmp_correct [OF m(2) _ assms(5)] by auto
  then show ?thesis using m strlen_correct [OF m(2) assms(5)] by blast
qed

theorem strcpy_roundtrip_witness:
  "\<exists>mem'. strcpy 3 ((\<lambda>_. 0)(0x1000 := 0x6e, 0x1001 := 0x79)) 0x2000 0x1000 = Some (0x2000, mem') \<and>
     strlen 3 mem' 0x2000 = Some 2"
proof -
  have "apart 0x1000 0x2000 (Suc (Suc 0))" unfolding apart_code by code_simp
  then show ?thesis
    using strcpy_roundtrip [of "(\<lambda>_. 0)(0x1000 := 0x6e, 0x1001 := 0x79)" "0x1000" "[0x6e, 0x79]" "0x2000" 3]
    by auto
qed

end
