(* ===== verification/Symbols.thy ===== *)
theory Symbols
  imports Prelude
begin

text \<open>
  The kernel symbol table (\<^verbatim>\<open>lib/symbols.c\<close>): the list of symbols, the lookups, and the parser of
  the map that \<open>nm\<close> writes. A name is the text its pointer leads to, and a symbol is a value. The
  parser keeps the 64-bit offsets of the code, with their start value of \<open>-1\<close>, and stops with an
  error where the code would read outside the buffer or rely on bytes that were never written.
\<close>

section \<open>The table\<close>

record symbol =
  symname :: string
  base :: u64

record symtab =
  symbol_list :: "symbol list"
  symbol_offset :: u64

definition symbols_init :: "u64 \<Rightarrow> symtab \<Rightarrow> symtab" where
  "symbols_init offset st = st\<lparr>symbol_offset := offset\<rparr>"

definition symbols_offset :: "symtab \<Rightarrow> u64" where
  "symbols_offset st = symbol_offset st"

definition symbols_insert :: "string \<Rightarrow> u64 \<Rightarrow> symtab \<Rightarrow> symtab" where
  "symbols_insert name address st =
     st\<lparr>symbol_list := symbol_list st @ [\<lparr>symname = name, base = address\<rparr>]\<rparr>"

fun lookup_address_from :: "u64 \<Rightarrow> symbol option \<Rightarrow> symbol list \<Rightarrow> symbol option" where
  "lookup_address_from address best_match [] = best_match"
| "lookup_address_from address best_match (s # ss) =
     (if address > base s then lookup_address_from address (Some s) ss
      else if base s > address then best_match
      else lookup_address_from address best_match ss)"

definition symbols_lookup_address :: "symtab \<Rightarrow> u64 \<Rightarrow> symbol option" where
  "symbols_lookup_address st address =
     lookup_address_from (address - symbol_offset st) None (symbol_list st)"

definition symbols_lookup_name :: "symtab \<Rightarrow> string \<Rightarrow> symbol option" where
  "symbols_lookup_name st name = find (\<lambda>s. name = symname s) (symbol_list st)"

section \<open>The parser\<close>

definition hex2int :: "char \<Rightarrow> int" where
  "hex2int c =
     (if of_char c \<ge> (0x30 :: int) \<and> of_char c \<le> (0x39 :: int) then of_char c - 0x30
      else if of_char c \<ge> (0x61 :: int) \<and> of_char c \<le> (0x66 :: int) then of_char c - 0x61 + 10
      else 0)"

text \<open>A shift by 64 or more has no defined result, so more than sixteen digits have none.\<close>

fun strtoaddr_from :: "string \<Rightarrow> nat \<Rightarrow> nat \<Rightarrow> nat \<Rightarrow> u64 \<Rightarrow> kerror + u64" where
  "strtoaddr_from str i j 0 addr = Inr addr"
| "strtoaddr_from str i j (Suc n) addr =
     (if 4 * j \<ge> 64 then Inl Undefined
      else strtoaddr_from str (i - 1) (j + 1) n
             (addr + word_of_int (hex2int (str ! (i - 1))) * push_bit (4 * j) 1))"

definition strtoaddr :: "string \<Rightarrow> nat \<Rightarrow> kerror + u64" where
  "strtoaddr str len = strtoaddr_from str len 0 len 0"

text \<open>
  The text that \<open>strncpy\<close> leaves in a fresh buffer of \<open>len + 1\<close> bytes with a zero in its last byte.
  A zero byte in the source ends the copy early and leaves the bytes after it as they were, which
  is not a defined text; a source outside the buffer is no access the code may make.
\<close>

definition copy_text :: "string \<Rightarrow> u64 \<Rightarrow> u64 \<Rightarrow> kerror + string" where
  "copy_text buf from len =
     (if unat from + unat len > length buf then Inl OutOfBounds
      else let t = take (unat len) (drop (unat from) buf) in
           if CHR 0x00 \<in> set t then Inl Undefined else Inr t)"

record parse_state =
  ps_table :: symtab
  line_start :: u64
  line_pos :: u64
  type_start :: u64
  name_start :: u64
  symbol_cnt :: u64

definition klift :: "kerror + 'a \<Rightarrow> ('s, 'a) km" where
  "klift r = (case r of Inl e \<Rightarrow> kfail e | Inr x \<Rightarrow> kreturn x)"

definition parse_line_end :: "string \<Rightarrow> u64 \<Rightarrow> (parse_state, unit) km" where
  "parse_line_end buf pos =
     kbind (kget id) (\<lambda>p.
     let name_len = line_pos p - name_start p; addr_len = type_start p - 1 in
     kbind (klift (copy_text buf (line_start p + name_start p) name_len)) (\<lambda>name.
     kbind (klift (copy_text buf (line_start p) addr_len)) (\<lambda>addr_str.
     kbind (klift (strtoaddr addr_str (unat addr_len))) (\<lambda>addr.
     kmodify (\<lambda>p. p\<lparr>ps_table := symbols_insert name addr (ps_table p),
       symbol_cnt := symbol_cnt p + 1, line_start := pos + 1, line_pos := 0,
       type_start := - 1, name_start := - 1\<rparr>)))))"

definition parse_char :: "string \<Rightarrow> u64 \<Rightarrow> (parse_state, unit) km" where
  "parse_char buf pos =
     kbind (kget id) (\<lambda>p.
     kthen (kguard (unat pos < length buf) OutOfBounds)
     (if buf ! unat pos = CHR 0x0A then parse_line_end buf pos
      else
        kthen (kguard (unat (line_start p + line_pos p) < length buf) OutOfBounds)
        (kthen (kwhen (buf ! unat (line_start p + line_pos p) = CHR '' '')
           (if type_start p = - 1 then kmodify (\<lambda>p. p\<lparr>type_start := line_pos p + 1\<rparr>)
            else kmodify (\<lambda>p. p\<lparr>name_start := line_pos p + 1\<rparr>)))
        (kmodify (\<lambda>p. p\<lparr>line_pos := line_pos p + 1\<rparr>)))))"

definition symbols_parse_map :: "string \<Rightarrow> u64 \<Rightarrow> symtab \<Rightarrow> kerror + (u64 \<times> symtab)" where
  "symbols_parse_map buf sz st =
     (case kfor (map of_nat [0..<unat sz]) (parse_char buf)
        \<lparr>ps_table = st, line_start = 0, line_pos = 0, type_start = - 1, name_start = - 1, symbol_cnt = 0\<rparr> of
        Inl e \<Rightarrow> Inl e
      | Inr (_, p) \<Rightarrow> Inr (symbol_cnt p, ps_table p))"

lemma runs_to_klift [wp]: "runs_to (klift r) s Q \<longleftrightarrow> (\<exists>x. r = Inr x \<and> Q x s)"
  by (auto simp: klift_def wp split: sum.splits)

section \<open>Lookups\<close>

lemma lookup_address_sorted:
  "sorted (map base ss) \<Longrightarrow>
   lookup_address_from a best ss =
     (case filter (\<lambda>s. base s < a) ss of [] \<Rightarrow> best | ts \<Rightarrow> Some (last ts))"
proof (induction ss arbitrary: best)
  case (Cons s ss)
  have "filter (\<lambda>s. base s < a) ss = []" if "\<not> base s < a"
    using Cons.prems that by (auto simp: filter_empty_conv)
  then show ?case using Cons by (auto split: list.splits)
qed simp

section \<open>Numbers in the map\<close>

text \<open>Sixteen lower-case digits, most significant first, as \<open>nm\<close> prints an address.\<close>

definition hex_digit :: "nat \<Rightarrow> char" where
  "hex_digit n = (if n < 10 then char_of (48 + n) else char_of (87 + n))"

definition hex16 :: "u64 \<Rightarrow> string" where
  "hex16 a = map (\<lambda>k. hex_digit (unat (take_bit 4 (drop_bit (4 * k) a)))) (rev [0..<16])"

lemma hex2int_digit: "n < 16 \<Longrightarrow> hex2int (hex_digit n) = int n"
proof -
  assume "n < 16"
  then have "n \<in> set [0..<16]" by simp
  moreover have "\<forall>n \<in> set [0..<16]. hex2int (hex_digit n) = int n" by code_simp
  ultimately show ?thesis by blast
qed

lemma hex_digit_plain: "n < 16 \<Longrightarrow> hex_digit n \<notin> {CHR 0x00, CHR 0x0A, CHR '' ''}"
proof -
  assume "n < 16"
  then have "n \<in> set [0..<16]" by simp
  moreover have "\<forall>n \<in> set [0..<16]. hex_digit n \<notin> {CHR 0x00, CHR 0x0A, CHR '' ''}" by code_simp
  ultimately show ?thesis by blast
qed

lemma take_bit_digits: "take_bit (m + n) a = take_bit m a + push_bit m (take_bit n (drop_bit m a))" for a :: u64
proof -
  have "take_bit m a + push_bit m (take_bit n (drop_bit m a)) = take_bit m a OR push_bit m (take_bit n (drop_bit m a))"
    by (rule disjunctive_add) (auto simp: bit_simps)
  also have "\<dots> = take_bit (m + n) a" by (rule bit_word_eqI) (auto simp: bit_simps)
  finally show ?thesis by simp
qed

lemma strtoaddr_hex16: "strtoaddr (hex16 a) 16 = Inr a"
proof -
  have "strtoaddr_from (hex16 a) n (16 - n) n (take_bit (4 * (16 - n)) a) = Inr a" if "n \<le> 16" for n
    using that
  proof (induction n)
    case 0
    have "take_bit 64 a = a" by (rule bit_word_eqI) (auto simp: bit_simps)
    then show ?case by simp
  next
    case (Suc n)
    define j where "j = 15 - n"
    have j: "16 - Suc n = j" "16 - n = Suc j" "j < 16" "n = 15 - j" using Suc.prems by (auto simp: j_def)
    have "unat (take_bit 4 (drop_bit (4 * j) a)) < 16"
      using take_bit_nat_less_exp [of 4] by (simp add: unsigned_take_bit_eq)
    then have digit: "word_of_int (hex2int (hex16 a ! n)) = take_bit 4 (drop_bit (4 * j) a)"
      using Suc.prems j(1,3) by (simp add: hex16_def rev_nth hex2int_digit j_def)
    have "take_bit (4 * j) a + take_bit 4 (drop_bit (4 * j) a) * push_bit (4 * j) 1 = take_bit (4 * Suc j) a"
      using take_bit_digits [of "4 * j" 4 a] by (simp add: push_bit_eq_mult mult.commute add.commute)
    then show ?case using Suc j digit by simp
  qed
  from this [of 16] show ?thesis by (simp add: strtoaddr_def)
qed

section \<open>Reading a map\<close>

lemma of_nat_Suc_u64: "of_nat (Suc k) = of_nat k + (1 :: u64)" by (simp add: add.commute)

lemma parse_plain:
  assumes "\<And>i. i < n \<Longrightarrow> buf ! (k + i) \<notin> {CHR 0x0A, CHR '' ''}" and "k + n \<le> length buf"
    and "length buf < 2 ^ 64" and "line_start p + line_pos p = of_nat k"
  shows "runs_to (kfor (map of_nat [k..<k + n]) (parse_char buf)) p (\<lambda>_ q. q = p\<lparr>line_pos := line_pos p + of_nat n\<rparr>)"
  using assms
proof (induction n arbitrary: k p)
  case 0
  then show ?case by (simp add: wp)
next
  case (Suc n)
  have k: "unat (of_nat k :: u64) = k" using Suc.prems(2,3) unat_of_nat [where 'a = 64, of k] by simp
  have "[k..<k + Suc n] = k # [Suc k..<Suc k + n]" by (simp add: upt_conv_Cons)
  moreover have "runs_to (parse_char buf (of_nat k)) p (\<lambda>_ q. q = p\<lparr>line_pos := line_pos p + 1\<rparr>)"
    using Suc.prems(1) [of 0] Suc.prems(2,4) by (simp add: parse_char_def wp k)
  moreover have "runs_to (kfor (map of_nat [Suc k..<Suc k + n]) (parse_char buf)) (p\<lparr>line_pos := line_pos p + 1\<rparr>)
     (\<lambda>_ q. q = p\<lparr>line_pos := line_pos p + 1\<rparr>\<lparr>line_pos := line_pos (p\<lparr>line_pos := line_pos p + 1\<rparr>) + of_nat n\<rparr>)"
  proof (rule Suc.IH)
    show "buf ! (Suc k + i) \<notin> {CHR 0x0A, CHR '' ''}" if "i < n" for i using Suc.prems(1) [of "Suc i"] that by simp
    show "line_start (p\<lparr>line_pos := line_pos p + 1\<rparr>) + line_pos (p\<lparr>line_pos := line_pos p + 1\<rparr>) = of_nat (Suc k)"
      unfolding of_nat_Suc_u64 using Suc.prems(4) by (simp add: add.assoc [symmetric])
  qed (use Suc.prems in auto)
  ultimately show ?case
    by (simp only: list.map runs_to_kfor_Cons) (auto elim!: runs_to_mono simp: add.assoc add.commute)
qed

lemma parse_space:
  assumes "buf ! k = CHR '' ''" and "k < length buf" and "length buf < 2 ^ 64" and "line_start p + line_pos p = of_nat k"
  shows "runs_to (parse_char buf (of_nat k)) p (\<lambda>_ q. q =
    (if type_start p = - 1 then p\<lparr>type_start := line_pos p + 1, line_pos := line_pos p + 1\<rparr>
     else p\<lparr>name_start := line_pos p + 1, line_pos := line_pos p + 1\<rparr>))"
proof -
  have "unat (of_nat k :: u64) = k" using assms(2,3) unat_of_nat [where 'a = 64, of k] by simp
  then show ?thesis using assms by (simp add: parse_char_def wp)
qed

text \<open>A line of the map, \<open>address type name\<close>, and a name it can hold.\<close>

definition map_line :: "char \<Rightarrow> symbol \<Rightarrow> string" where
  "map_line c s = hex16 (base s) @ [CHR '' '', c, CHR '' ''] @ symname s @ [CHR 0x0A]"

definition name_ok :: "string \<Rightarrow> bool" where
  "name_ok name \<longleftrightarrow> list_all (\<lambda>c. c \<notin> {CHR 0x00, CHR 0x0A, CHR '' ''}) name"

definition at_line :: "nat \<Rightarrow> symtab \<Rightarrow> u64 \<Rightarrow> parse_state" where
  "at_line k st cnt = \<lparr>ps_table = st, line_start = of_nat k, line_pos = 0, type_start = - 1, name_start = - 1,
     symbol_cnt = cnt\<rparr>"

lemma length_hex16 [simp]: "length (hex16 a) = 16"
  by (simp add: hex16_def)

lemma hex16_plain: "i < 16 \<Longrightarrow> hex16 a ! i \<notin> {CHR 0x00, CHR 0x0A, CHR '' ''}"
proof -
  assume i: "i < 16"
  have "unat (take_bit 4 (drop_bit k a)) < 16" for k
    using take_bit_nat_less_exp [of 4] by (simp add: unsigned_take_bit_eq)
  then show ?thesis using i hex_digit_plain by (simp add: hex16_def)
qed

lemma copy_text_slice:
  assumes "buf = pre @ t @ post" and "length buf < 2 ^ 64" and "list_all (\<lambda>c. c \<noteq> CHR 0x00) t"
  shows "copy_text buf (of_nat (length pre)) (of_nat (length t)) = Inr t"
proof -
  have "unat (of_nat (length pre) :: u64) = length pre" "unat (of_nat (length t) :: u64) = length t"
    using assms(1,2) unat_of_nat [where 'a = 64, of "length pre"] unat_of_nat [where 'a = 64, of "length t"] by simp_all
  then show ?thesis using assms by (auto simp: copy_text_def list_all_iff)
qed

lemma parse_newline:
  assumes buf: "buf = pre @ map_line c s @ post" and len: "length buf < 2 ^ 64" and name: "name_ok (symname s)"
    and p: "line_start p = of_nat (length pre)" "type_start p = 17" "name_start p = 19"
      "line_pos p = 19 + of_nat (length (symname s))"
  shows "runs_to (parse_char buf (of_nat (length pre + 19 + length (symname s)))) p
    (\<lambda>_ q. q = at_line (length pre + length (map_line c s)) (symbols_insert (symname s) (base s) (ps_table p)) (symbol_cnt p + 1))"
proof -
  let ?n = "length (symname s)"
  let ?k = "length pre + 19 + ?n"
  define w where "w = (of_nat ?k :: u64)"
  have k: "unat w = ?k"
    using buf len unat_of_nat [where 'a = 64, of ?k] by (simp add: map_line_def w_def)
  have w: "w + 1 = of_nat (length pre + length (map_line c s))" by (simp add: w_def map_line_def)
  have nl: "?k < length buf" "buf ! ?k = CHR 0x0A" by (simp_all add: buf map_line_def nth_append)
  have "copy_text buf (of_nat (length (pre @ hex16 (base s) @ [CHR '' '', c, CHR '' '']))) (of_nat ?n) = Inr (symname s)"
    by (rule copy_text_slice [where post = "[CHR 0x0A] @ post"])
      (use buf len name in \<open>auto simp: map_line_def name_ok_def list_all_iff\<close>)
  moreover have "copy_text buf (of_nat (length pre)) (of_nat (length (hex16 (base s)))) = Inr (hex16 (base s))"
    by (rule copy_text_slice [where post = "[CHR '' '', c, CHR '' ''] @ symname s @ [CHR 0x0A] @ post"])
      (use buf len hex16_plain in \<open>auto simp: map_line_def list_all_length\<close>)
  ultimately have "runs_to (parse_line_end buf w) p
      (\<lambda>_ q. q = at_line (length pre + length (map_line c s)) (symbols_insert (symname s) (base s) (ps_table p)) (symbol_cnt p + 1))"
    using p strtoaddr_hex16 [of "base s"]
    by (simp add: parse_line_end_def wp Let_def at_line_def w)
  then show ?thesis unfolding w_def [symmetric] by (simp add: parse_char_def wp k nl)
qed

lemma length_map_line: "length (map_line c s) = 20 + length (symname s)"
  by (simp add: map_line_def)

lemma line_range:
  "[k..<k + (20 + n)] = [k..<k + 16] @ [k + 16] @ [k + 17..<k + 17 + 1] @ [k + 18] @ [k + 19..<k + 19 + n] @ [k + 19 + n]"
proof -
  have app: "[k..<k + (i + j)] = [k..<k + i] @ [k + i..<k + i + j]" for k i j
    using upt_add_eq_append [of k "k + i" j] by (simp add: add.assoc)
  have one: "[m..<m + 1] = [m]" for m by simp
  have sums: "20 + n = 16 + (1 + (1 + (1 + (n + 1))))" "k + 17 = k + 16 + 1" "k + 18 = k + 16 + 1 + 1"
    "k + 19 = k + 16 + 1 + 1 + 1" by simp_all
  show ?thesis unfolding sums app one ..
qed

lemma parse_plain':
  assumes "\<And>i. i < n \<Longrightarrow> buf ! (k + i) \<notin> {CHR 0x0A, CHR '' ''}" and "k + n \<le> length buf"
    and "length buf < 2 ^ 64" and "line_start p + line_pos p = of_nat k" and "q = p\<lparr>line_pos := line_pos p + of_nat n\<rparr>"
  shows "runs_to (kfor (map of_nat [k..<k + n]) (parse_char buf)) p (\<lambda>_ r. r = q)"
  unfolding assms(5) using assms(1-4) by (rule parse_plain)

lemma parse_space1:
  assumes "buf ! k = CHR '' ''" and "k < length buf" and "length buf < 2 ^ 64" and "line_start p + line_pos p = of_nat k"
    and "type_start p = - 1" and "q = p\<lparr>type_start := line_pos p + 1, line_pos := line_pos p + 1\<rparr>"
  shows "runs_to (parse_char buf (of_nat k)) p (\<lambda>_ r. r = q)"
  using parse_space [OF assms(1-4)] assms(5,6) by simp

lemma parse_space2:
  assumes "buf ! k = CHR '' ''" and "k < length buf" and "length buf < 2 ^ 64" and "line_start p + line_pos p = of_nat k"
    and "type_start p \<noteq> - 1" and "q = p\<lparr>name_start := line_pos p + 1, line_pos := line_pos p + 1\<rparr>"
  shows "runs_to (parse_char buf (of_nat k)) p (\<lambda>_ r. r = q)"
  using parse_space [OF assms(1-4)] assms(5,6) by simp

lemma parse_line:
  assumes buf: "buf = pre @ map_line c s @ post" and len: "length buf < 2 ^ 64" and name: "name_ok (symname s)"
    and c: "c \<notin> {CHR 0x0A, CHR '' ''}"
  shows "runs_to (kfor (map of_nat [length pre..<length pre + length (map_line c s)]) (parse_char buf)) (at_line (length pre) st cnt)
    (\<lambda>_ q. q = at_line (length pre + length (map_line c s)) (symbols_insert (symname s) (base s) st) (cnt + 1))"
proof -
  let ?n = "length (symname s)"
  let ?k = "length pre"
  let ?p = "at_line ?k st cnt"
  have range: "[?k..<?k + length (map_line c s)] =
      [?k..<?k + 16] @ [?k + 16] @ [?k + 17..<?k + 17 + 1] @ [?k + 18] @ [?k + 19..<?k + 19 + ?n] @ [?k + 19 + ?n]"
    unfolding length_map_line by (rule line_range)
  have chars: "i < 16 \<Longrightarrow> buf ! (?k + i) = hex16 (base s) ! i" "buf ! (?k + 16) = CHR '' ''"
    "buf ! (?k + 17) = c" "buf ! (?k + 18) = CHR '' ''" "i < ?n \<Longrightarrow> buf ! (?k + 19 + i) = symname s ! i" for i
    by (auto simp: buf map_line_def nth_append)
  have bound: "?k + 20 + ?n \<le> length buf" by (simp add: buf map_line_def)
  have name_char: "symname s ! i \<notin> {CHR 0x0A, CHR '' ''}" if "i < ?n" for i
    using name that by (auto simp: name_ok_def list_all_length)
  let ?p1 = "?p\<lparr>line_pos := 16\<rparr>" and ?p2 = "?p\<lparr>line_pos := 17, type_start := 17\<rparr>"
    and ?p3 = "?p\<lparr>line_pos := 18, type_start := 17\<rparr>" and ?p4 = "?p\<lparr>line_pos := 19, type_start := 17, name_start := 19\<rparr>"
    and ?p5 = "?p\<lparr>line_pos := 19 + of_nat ?n, type_start := 17, name_start := 19\<rparr>"
  have hex: "hex16 (base s) ! i \<notin> {CHR 0x0A, CHR '' ''}" if "i < 16" for i using hex16_plain [OF that] by blast
  have s1: "runs_to (kfor (map of_nat [?k..<?k + 16]) (parse_char buf)) ?p (\<lambda>_ q. q = ?p1)"
    by (rule parse_plain') (use chars(1) hex bound len in \<open>simp_all add: at_line_def\<close>)
  have s2: "runs_to (parse_char buf (of_nat (?k + 16))) ?p1 (\<lambda>_ q. q = ?p2)"
    by (rule parse_space1) (use chars(2) bound len in \<open>simp_all add: at_line_def\<close>)
  have s3: "runs_to (kfor (map of_nat [?k + 17..<?k + 17 + 1]) (parse_char buf)) ?p2 (\<lambda>_ q. q = ?p3)"
    by (rule parse_plain') (use chars(3) c bound len in \<open>simp_all add: at_line_def\<close>)
  have s4: "runs_to (parse_char buf (of_nat (?k + 18))) ?p3 (\<lambda>_ q. q = ?p4)"
    by (rule parse_space2) (use chars(4) bound len in \<open>simp_all add: at_line_def\<close>)
  have s5: "runs_to (kfor (map of_nat [?k + 19..<?k + 19 + ?n]) (parse_char buf)) ?p4 (\<lambda>_ q. q = ?p5)"
    by (rule parse_plain') (use chars(5) name_char bound len in \<open>simp_all add: at_line_def\<close>)
  have s6: "runs_to (parse_char buf (of_nat (?k + 19 + ?n))) ?p5
      (\<lambda>_ q. q = at_line (?k + length (map_line c s)) (symbols_insert (symname s) (base s) st) (cnt + 1))"
    using parse_newline [OF buf len name, of ?p5] by (simp only: at_line_def parse_state.simps)
  show ?thesis
    unfolding range map_append runs_to_kfor_append
    apply (rule runs_to_mono [OF s1], simp only: list.map runs_to_kfor_Cons runs_to_kfor_Nil)
    apply (rule runs_to_mono [OF s2], simp only: list.map)
    apply (rule runs_to_mono [OF s3], simp only: list.map runs_to_kfor_Cons runs_to_kfor_Nil)
    apply (rule runs_to_mono [OF s4], simp only: list.map)
    apply (rule runs_to_mono [OF s5], simp only: list.map runs_to_kfor_Cons runs_to_kfor_Nil)
    by (rule s6)
qed

lemma parse_lines:
  assumes "list_all (\<lambda>(c, s). c \<notin> {CHR 0x0A, CHR '' ''} \<and> name_ok (symname s)) lines"
    and "buf = pre @ concat (map (\<lambda>(c, s). map_line c s) lines)" and "length buf < 2 ^ 64"
  shows "runs_to (kfor (map of_nat [length pre..<length buf]) (parse_char buf)) (at_line (length pre) st cnt)
    (\<lambda>_ q. q = at_line (length buf) (st\<lparr>symbol_list := symbol_list st @ map snd lines\<rparr>) (cnt + of_nat (length lines)))"
  using assms
proof (induction lines arbitrary: pre st cnt)
  case Nil
  then show ?case by (simp add: wp)
next
  case (Cons l lines)
  obtain c s where l: "l = (c, s)" by (cases l)
  let ?rest = "concat (map (\<lambda>(c, s). map_line c s) lines)"
  have buf: "buf = pre @ map_line c s @ ?rest" "buf = (pre @ map_line c s) @ ?rest" using Cons.prems(2) by (simp_all add: l)
  have first: "runs_to (kfor (map of_nat [length pre..<length pre + length (map_line c s)]) (parse_char buf)) (at_line (length pre) st cnt)
    (\<lambda>_ q. q = at_line (length pre + length (map_line c s)) (symbols_insert (symname s) (base s) st) (cnt + 1))"
    using Cons.prems(1,3) by (intro parse_line [OF buf(1)]) (auto simp: l)
  have "[length pre..<length buf] =
      [length pre..<length pre + length (map_line c s)] @ [length pre + length (map_line c s)..<length buf]"
    using upt_add_eq_append [of "length pre" "length pre + length (map_line c s)" "length ?rest"] by (simp add: buf(1) add.assoc)
  moreover have "symbols_insert (symname s) (base s) st\<lparr>symbol_list :=
      symbol_list (symbols_insert (symname s) (base s) st) @ map snd lines\<rparr> = st\<lparr>symbol_list := symbol_list st @ map snd (l # lines)\<rparr>"
    by (simp add: symbols_insert_def l)
  ultimately show ?case
    using Cons.IH [OF _ buf(2) Cons.prems(3), of "symbols_insert (symname s) (base s) st" "cnt + 1"] Cons.prems(1) first
    by (simp add: runs_to_kfor_append l) (auto elim!: runs_to_mono simp: ac_simps)
qed

section \<open>Properties\<close>

text \<open>C30: The parser reads back what \<open>nm\<close> prints. A map with one line \<open>address type name\<close> per symbol,
  the address in sixteen hexadecimal digits and the name without blanks, adds exactly these symbols
  to the end of the table, in their order, and counts them; no access leaves the buffer.\<close>

theorem symbols_parse_map_roundtrip:
  assumes "list_all (\<lambda>(c, s). c \<notin> {CHR 0x0A, CHR '' ''} \<and> name_ok (symname s)) lines"
    and "buf = concat (map (\<lambda>(c, s). map_line c s) lines)" and "length buf < 2 ^ 64"
  shows "symbols_parse_map buf (of_nat (length buf)) st =
    Inr (of_nat (length lines), st\<lparr>symbol_list := symbol_list st @ map snd lines\<rparr>)"
proof -
  have "unat (of_nat (length buf) :: u64) = length buf" using assms(3) unat_of_nat [where 'a = 64, of "length buf"] by simp
  then show ?thesis
    using parse_lines [OF assms(1) _ assms(3), of "[]" st 0] assms(2)
    by (auto simp: symbols_parse_map_def at_line_def runs_to_def)
qed

theorem symbols_parse_map_roundtrip_witness:
  "symbols_parse_map
     (''ffffffff800039f8 t smp_entry'' @ [CHR 0x0A] @ ''ffffffff80004000 T kmain'' @ [CHR 0x0A]) 54
     \<lparr>symbol_list = [], symbol_offset = 0\<rparr> =
   Inr (2, \<lparr>symbol_list = [\<lparr>symname = ''smp_entry'', base = 0xffffffff800039f8\<rparr>,
     \<lparr>symname = ''kmain'', base = 0xffffffff80004000\<rparr>], symbol_offset = 0\<rparr>)"
proof -
  let ?lines = "[(CHR ''t'', \<lparr>symname = ''smp_entry'', base = 0xffffffff800039f8\<rparr>),
    (CHR ''T'', \<lparr>symname = ''kmain'', base = 0xffffffff80004000\<rparr>)]"
  have hex: "hex16 0xffffffff800039f8 = ''ffffffff800039f8''" "hex16 0xffffffff80004000 = ''ffffffff80004000''"
    by code_simp+
  show ?thesis
    using symbols_parse_map_roundtrip [OF _ refl, of ?lines "\<lparr>symbol_list = [], symbol_offset = 0\<rparr>"]
    by (simp add: map_line_def hex name_ok_def)
qed

text \<open>C31: In a table sorted by address \<open>symbols_lookup_address\<close> returns the last symbol that lies strictly
  below the address, and nothing when there is none. The address a symbol starts at is therefore
  never resolved to that symbol, although the header promises the next-lowest symbol.\<close>

theorem symbols_lookup_address_below:
  assumes "sorted (map base (symbol_list st))"
  shows "symbols_lookup_address st a =
      (case filter (\<lambda>s. base s < a - symbol_offset st) (symbol_list st) of [] \<Rightarrow> None | ts \<Rightarrow> Some (last ts)) \<and>
    (\<forall>s. symbols_lookup_address st a = Some s \<longrightarrow> base s + symbol_offset st \<noteq> a)"
proof -
  let ?ts = "filter (\<lambda>s. base s < a - symbol_offset st) (symbol_list st)"
  have e: "symbols_lookup_address st a = (case ?ts of [] \<Rightarrow> None | ts \<Rightarrow> Some (last ts))"
    unfolding symbols_lookup_address_def by (rule lookup_address_sorted [OF assms])
  moreover have "base s + symbol_offset st \<noteq> a" if "symbols_lookup_address st a = Some s" for s
  proof -
    have "s \<in> set ?ts" using that e last_in_set [of ?ts] by (cases ?ts) auto
    then show ?thesis by auto
  qed
  ultimately show ?thesis by blast
qed

theorem symbols_lookup_address_below_witness:
  "symbols_lookup_address \<lparr>symbol_list = [\<lparr>symname = ''a'', base = 0x1000\<rparr>, \<lparr>symname = ''b'', base = 0x2000\<rparr>],
     symbol_offset = 0\<rparr> 0x2000 = Some \<lparr>symname = ''a'', base = 0x1000\<rparr>"
  using symbols_lookup_address_below [of "\<lparr>symbol_list = [\<lparr>symname = ''a'', base = 0x1000\<rparr>,
    \<lparr>symname = ''b'', base = 0x2000\<rparr>], symbol_offset = 0\<rparr>" "0x2000"]
  by simp

end
