(* ===== verification/Nanoprintf.thy ===== *)
theory Nanoprintf
  imports Ndk_Util
begin

text \<open>
  The formatter \<^verbatim>\<open>include/nanoprintf.h\<close> in the configuration \<^verbatim>\<open>lib/log.c\<close> compiles it in: field
  widths, precisions, large integers and binary numbers, neither floating point nor write-back.

  A format is the text up to its terminating zero, and the pointer \<open>cur\<close> is the rest of it. The
  arguments of a call are a list, and reading one of another type than the code asks for, or one too
  many, is an error, as it is in C. Where the code calls \<open>NPF_PUTC\<close> for one character after the other
  the model has the list of these characters.
\<close>

section \<open>Format specifications\<close>

datatype npf_opt = NPF_FMT_SPEC_OPT_NONE | NPF_FMT_SPEC_OPT_LITERAL | NPF_FMT_SPEC_OPT_STAR

datatype npf_len_mod =
    NPF_FMT_SPEC_LEN_MOD_NONE
  | NPF_FMT_SPEC_LEN_MOD_SHORT
  | NPF_FMT_SPEC_LEN_MOD_LONG_DOUBLE
  | NPF_FMT_SPEC_LEN_MOD_CHAR
  | NPF_FMT_SPEC_LEN_MOD_LONG
  | NPF_FMT_SPEC_LEN_MOD_LARGE_LONG_LONG
  | NPF_FMT_SPEC_LEN_MOD_LARGE_INTMAX
  | NPF_FMT_SPEC_LEN_MOD_LARGE_SIZET
  | NPF_FMT_SPEC_LEN_MOD_LARGE_PTRDIFFT

datatype npf_conv =
    NPF_FMT_SPEC_CONV_NONE
  | NPF_FMT_SPEC_CONV_PERCENT
  | NPF_FMT_SPEC_CONV_CHAR
  | NPF_FMT_SPEC_CONV_STRING
  | NPF_FMT_SPEC_CONV_SIGNED_INT
  | NPF_FMT_SPEC_CONV_BINARY
  | NPF_FMT_SPEC_CONV_OCTAL
  | NPF_FMT_SPEC_CONV_HEX_INT
  | NPF_FMT_SPEC_CONV_UNSIGNED_INT
  | NPF_FMT_SPEC_CONV_POINTER

record npf_format_spec =
  field_width :: int
  field_width_opt :: npf_opt
  left_justified :: bool
  leading_zero_pad :: bool
  prec :: int
  prec_opt :: npf_opt
  prepend :: char
  alt_form :: bool
  case_adjust :: int
  length_modifier :: npf_len_mod
  conv_spec :: npf_conv

definition NUL :: char where "NUL = CHR 0x00"

text \<open>The character \<open>cur\<close> points at.\<close>

definition at :: "string \<Rightarrow> char" where
  "at cur = (case cur of [] \<Rightarrow> NUL | c # _ \<Rightarrow> c)"

definition is_dec :: "char \<Rightarrow> bool" where
  "is_dec c \<longleftrightarrow> (of_char c :: int) \<ge> 0x30 \<and> (of_char c :: int) \<le> 0x39"

definition npf_max :: "int \<Rightarrow> int \<Rightarrow> int" where
  "npf_max x y = (if x > y then x else y)"

text \<open>The fields the code sets before it reads anything; the others are set before they are read.\<close>

definition spec_start :: npf_format_spec where
  "spec_start = \<lparr>field_width = 0, field_width_opt = NPF_FMT_SPEC_OPT_NONE, left_justified = False,
     leading_zero_pad = False, prec = 0, prec_opt = NPF_FMT_SPEC_OPT_NONE, prepend = NUL, alt_form = False,
     case_adjust = 32, length_modifier = NPF_FMT_SPEC_LEN_MOD_NONE, conv_spec = NPF_FMT_SPEC_CONV_NONE\<rparr>"

fun parse_flags :: "string \<Rightarrow> npf_format_spec \<Rightarrow> npf_format_spec \<times> string" where
  "parse_flags [] fs = (fs, [])"
| "parse_flags (c # cs) fs =
     (if c = CHR ''-'' then parse_flags cs (fs\<lparr>left_justified := True, leading_zero_pad := False\<rparr>)
      else if c = CHR ''0'' then parse_flags cs (fs\<lparr>leading_zero_pad := \<not> left_justified fs\<rparr>)
      else if c = CHR ''+'' then parse_flags cs (fs\<lparr>prepend := CHR ''+''\<rparr>)
      else if c = CHR '' '' then parse_flags cs (if prepend fs = NUL then fs\<lparr>prepend := CHR '' ''\<rparr> else fs)
      else if c = CHR ''#'' then parse_flags cs (fs\<lparr>alt_form := True\<rparr>)
      else (fs, c # cs))"

fun parse_number :: "string \<Rightarrow> int \<Rightarrow> int \<times> string" where
  "parse_number [] n = (n, [])"
| "parse_number (c # cs) n =
     (if is_dec c then parse_number cs (n * 10 + (of_char c - 0x30)) else (n, c # cs))"

definition parse_width :: "string \<Rightarrow> npf_format_spec \<Rightarrow> npf_format_spec \<times> string" where
  "parse_width cur fs =
     (let fs = fs\<lparr>field_width_opt := NPF_FMT_SPEC_OPT_NONE\<rparr> in
      if at cur = CHR ''*'' then (fs\<lparr>field_width_opt := NPF_FMT_SPEC_OPT_STAR\<rparr>, tl cur)
      else let (n, rest) = parse_number cur 0 in
           (fs\<lparr>field_width := n,
               field_width_opt := if is_dec (at cur) then NPF_FMT_SPEC_OPT_LITERAL else NPF_FMT_SPEC_OPT_NONE\<rparr>, rest))"

definition parse_precision :: "string \<Rightarrow> npf_format_spec \<Rightarrow> npf_format_spec \<times> string" where
  "parse_precision cur fs =
     (let fs = fs\<lparr>prec := 0, prec_opt := NPF_FMT_SPEC_OPT_NONE\<rparr> in
      if at cur = CHR ''.''
      then let cur = tl cur in
           if at cur = CHR ''*'' then (fs\<lparr>prec_opt := NPF_FMT_SPEC_OPT_STAR\<rparr>, tl cur)
           else let (fs, cur) = (if at cur = CHR ''-'' then (fs, tl cur)
                                 else (fs\<lparr>prec_opt := NPF_FMT_SPEC_OPT_LITERAL\<rparr>, cur));
                    (n, rest) = parse_number cur 0
                in (fs\<lparr>prec := n\<rparr>, rest)
      else (fs, cur))"

definition parse_length :: "string \<Rightarrow> npf_format_spec \<Rightarrow> npf_format_spec \<times> string" where
  "parse_length cur fs =
     (if at cur = CHR ''h''
      then if at (tl cur) = CHR ''h'' then (fs\<lparr>length_modifier := NPF_FMT_SPEC_LEN_MOD_CHAR\<rparr>, tl (tl cur))
           else (fs\<lparr>length_modifier := NPF_FMT_SPEC_LEN_MOD_SHORT\<rparr>, tl cur)
      else if at cur = CHR ''l''
      then if at (tl cur) = CHR ''l'' then (fs\<lparr>length_modifier := NPF_FMT_SPEC_LEN_MOD_LARGE_LONG_LONG\<rparr>, tl (tl cur))
           else (fs\<lparr>length_modifier := NPF_FMT_SPEC_LEN_MOD_LONG\<rparr>, tl cur)
      else if at cur = CHR ''j'' then (fs\<lparr>length_modifier := NPF_FMT_SPEC_LEN_MOD_LARGE_INTMAX\<rparr>, tl cur)
      else if at cur = CHR ''z'' then (fs\<lparr>length_modifier := NPF_FMT_SPEC_LEN_MOD_LARGE_SIZET\<rparr>, tl cur)
      else if at cur = CHR ''t'' then (fs\<lparr>length_modifier := NPF_FMT_SPEC_LEN_MOD_LARGE_PTRDIFFT\<rparr>, tl cur)
      else (fs\<lparr>length_modifier := NPF_FMT_SPEC_LEN_MOD_NONE\<rparr>, cur))"

text \<open>The last step of the integer conversions: a precision switches zero padding off.\<close>

definition int_conv :: "npf_conv \<Rightarrow> npf_format_spec \<Rightarrow> npf_format_spec" where
  "int_conv conv fs =
     (if prec_opt fs \<noteq> NPF_FMT_SPEC_OPT_NONE
      then fs\<lparr>conv_spec := conv, leading_zero_pad := False\<rparr> else fs\<lparr>conv_spec := conv\<rparr>)"

definition parse_conv :: "char \<Rightarrow> npf_format_spec \<Rightarrow> npf_format_spec option" where
  "parse_conv c fs =
     (if c = CHR ''%'' then Some (fs\<lparr>conv_spec := NPF_FMT_SPEC_CONV_PERCENT, prec_opt := NPF_FMT_SPEC_OPT_NONE\<rparr>)
      else if c = CHR ''c'' then Some (fs\<lparr>conv_spec := NPF_FMT_SPEC_CONV_CHAR, prec_opt := NPF_FMT_SPEC_OPT_NONE\<rparr>)
      else if c = CHR ''s'' then Some (fs\<lparr>conv_spec := NPF_FMT_SPEC_CONV_STRING, leading_zero_pad := False\<rparr>)
      else if c = CHR ''i'' \<or> c = CHR ''d'' then Some (int_conv NPF_FMT_SPEC_CONV_SIGNED_INT fs)
      else if c = CHR ''o'' then Some (int_conv NPF_FMT_SPEC_CONV_OCTAL fs)
      else if c = CHR ''u'' then Some (int_conv NPF_FMT_SPEC_CONV_UNSIGNED_INT fs)
      else if c = CHR ''X'' then Some (int_conv NPF_FMT_SPEC_CONV_HEX_INT (fs\<lparr>case_adjust := 0\<rparr>))
      else if c = CHR ''x'' then Some (int_conv NPF_FMT_SPEC_CONV_HEX_INT fs)
      else if c = CHR ''p'' then Some (fs\<lparr>conv_spec := NPF_FMT_SPEC_CONV_POINTER, prec_opt := NPF_FMT_SPEC_OPT_NONE\<rparr>)
      else if c = CHR ''B'' then Some (fs\<lparr>conv_spec := NPF_FMT_SPEC_CONV_BINARY, case_adjust := 0\<rparr>)
      else if c = CHR ''b'' then Some (fs\<lparr>conv_spec := NPF_FMT_SPEC_CONV_BINARY\<rparr>)
      else None)"

definition npf_parse_format_spec :: "string \<Rightarrow> (npf_format_spec \<times> string) option" where
  "npf_parse_format_spec format =
     (let (fs, cur) = parse_flags (tl format) spec_start;
          (fs, cur) = parse_width cur fs;
          (fs, cur) = parse_precision cur fs;
          (fs, cur) = parse_length cur fs
      in case parse_conv (at cur) fs of None \<Rightarrow> None | Some fs \<Rightarrow> Some (fs, tl cur))"

section \<open>Numbers\<close>

definition digit_char :: "int \<Rightarrow> u64 \<Rightarrow> char" where
  "digit_char case_adj d = char_of (nat ((if uint d < 10 then 0x30 else 0x41 - 10 + case_adj) + uint d))"

function npf_utoa_rev :: "u64 \<Rightarrow> u64 \<Rightarrow> int \<Rightarrow> string" where
  "npf_utoa_rev val base case_adj =
     digit_char case_adj (val mod base) #
     (if base \<le> 1 \<or> val div base = 0 then [] else npf_utoa_rev (val div base) base case_adj)"
  by pat_completeness auto

termination
proof (relation "measure (\<lambda>(val, base, case_adj). unat val)", goal_cases)
  case (2 val base case_adj)
  then have "1 < unat base" "val div base \<noteq> 0" by (auto simp: word_le_nat_alt)
  moreover from this have "0 < unat val" by (metis div_0 neq0_conv unsigned_0 unat_eq_zero)
  ultimately have "unat val div unat base < unat val" by simp
  then show ?case by (simp add: unat_div)
qed simp

declare npf_utoa_rev.simps [simp del]

definition npf_bin_len :: "u64 \<Rightarrow> nat" where
  "npf_bin_len u = (if u = 0 then 1 else 64 - builtin_clzl u)"

section \<open>Arguments\<close>

text \<open>
  What the callers pass: an \<open>int\<close> or \<open>unsigned\<close>, a 64-bit integer (\<open>long\<close>, \<open>long long\<close>, \<open>intmax_t\<close>,
  \<open>size_t\<close> and \<open>ptrdiff_t\<close> are the same on the port), a text, a pointer.
\<close>

datatype npf_arg = ArgInt u32 | ArgLong u64 | ArgString string | ArgPointer u64

definition va_arg :: "(npf_arg list, npf_arg) km" where
  "va_arg = (\<lambda>args. case args of [] \<Rightarrow> Inl Undefined | a # rest \<Rightarrow> Inr (a, rest))"

definition va_int :: "(npf_arg list, u32) km" where
  "va_int = kbind va_arg (\<lambda>a. case a of ArgInt w \<Rightarrow> kreturn w | _ \<Rightarrow> kfail Undefined)"

definition va_long :: "(npf_arg list, u64) km" where
  "va_long = kbind va_arg (\<lambda>a. case a of ArgLong w \<Rightarrow> kreturn w | _ \<Rightarrow> kfail Undefined)"

definition va_string :: "(npf_arg list, string) km" where
  "va_string = kbind va_arg (\<lambda>a. case a of ArgString t \<Rightarrow> kreturn t | _ \<Rightarrow> kfail Undefined)"

definition va_pointer :: "(npf_arg list, u64) km" where
  "va_pointer = kbind va_arg (\<lambda>a. case a of ArgPointer w \<Rightarrow> kreturn w | _ \<Rightarrow> kfail Undefined)"

definition extract_signed :: "npf_len_mod \<Rightarrow> (npf_arg list, int) km" where
  "extract_signed lm =
     (case lm of
        NPF_FMT_SPEC_LEN_MOD_NONE \<Rightarrow> kbind va_int (\<lambda>w. kreturn (sint w))
      | NPF_FMT_SPEC_LEN_MOD_SHORT \<Rightarrow> kbind va_int (\<lambda>w. kreturn (sint (ucast w :: u16)))
      | NPF_FMT_SPEC_LEN_MOD_LONG_DOUBLE \<Rightarrow> kbind va_int (\<lambda>w. kreturn (sint w))
      | NPF_FMT_SPEC_LEN_MOD_CHAR \<Rightarrow> kbind va_int (\<lambda>w. kreturn (sint (ucast w :: u8)))
      | _ \<Rightarrow> kbind va_long (\<lambda>w. kreturn (sint w)))"

definition extract_unsigned :: "npf_len_mod \<Rightarrow> (npf_arg list, u64) km" where
  "extract_unsigned lm =
     (case lm of
        NPF_FMT_SPEC_LEN_MOD_NONE \<Rightarrow> kbind va_int (\<lambda>w. kreturn (ucast w))
      | NPF_FMT_SPEC_LEN_MOD_SHORT \<Rightarrow> kbind va_int (\<lambda>w. kreturn (ucast (ucast w :: u16)))
      | NPF_FMT_SPEC_LEN_MOD_LONG_DOUBLE \<Rightarrow> kbind va_int (\<lambda>w. kreturn (ucast w))
      | NPF_FMT_SPEC_LEN_MOD_CHAR \<Rightarrow> kbind va_int (\<lambda>w. kreturn (ucast (ucast w :: u8)))
      | _ \<Rightarrow> va_long)"

section \<open>Conversion\<close>

definition NANOPRINTF_CONVERSION_BUFFER_SIZE :: nat where
  "NANOPRINTF_CONVERSION_BUFFER_SIZE = 23"

text \<open>
  The local variables after the conversion: the text in \<open>cbuf\<close> (numbers are stored with their last
  digit first), its length, the binary value, the sign, the letter after a leading \<open>0\<close> and whether
  the value is zero.
\<close>

record npf_converted =
  cbuf :: string
  cbuf_len :: nat
  binval :: u64
  sign_c :: char
  need_0x :: char
  is_zero :: bool

definition no_text :: npf_converted where
  "no_text = \<lparr>cbuf = [], cbuf_len = 0, binval = 0, sign_c = NUL, need_0x = NUL, is_zero = False\<rparr>"

definition in_cbuf :: "string \<Rightarrow> npf_converted \<Rightarrow> npf_converted" where
  "in_cbuf t r = r\<lparr>cbuf := t, cbuf_len := length t\<rparr>"

text \<open>A text written to the conversion buffer has to fit.\<close>

definition check_cbuf :: "npf_converted \<Rightarrow> ('s, npf_converted) km" where
  "check_cbuf r = kthen (kguard (length (cbuf r) \<le> NANOPRINTF_CONVERSION_BUFFER_SIZE) OutOfBounds) (kreturn r)"

definition convert_signed :: "npf_format_spec \<Rightarrow> (npf_arg list, npf_converted) km" where
  "convert_signed fs =
     kbind (extract_signed (length_modifier fs)) (\<lambda>val.
     let r = no_text\<lparr>sign_c := if val < 0 then CHR ''-'' else prepend fs, is_zero := (val = 0)\<rparr> in
     if val = 0 \<and> prec_opt fs \<noteq> NPF_FMT_SPEC_OPT_NONE \<and> prec fs = 0 then kreturn r
     else let uval = (word_of_int val :: u64); uval = (if val < 0 then 0 - uval else uval)
          in check_cbuf (in_cbuf (npf_utoa_rev uval 10 (case_adjust fs)) r))"

definition convert_unsigned :: "npf_format_spec \<Rightarrow> (npf_arg list, npf_format_spec \<times> npf_converted) km" where
  "convert_unsigned fs =
     kbind (extract_unsigned (length_modifier fs)) (\<lambda>val.
     let conv = conv_spec fs; r = no_text\<lparr>is_zero := (val = 0)\<rparr> in
     if val = 0 \<and> prec_opt fs \<noteq> NPF_FMT_SPEC_OPT_NONE \<and> prec fs = 0
     then kreturn (if conv = NPF_FMT_SPEC_CONV_OCTAL \<and> alt_form fs then fs\<lparr>prec := 1\<rparr> else fs, r)
     else
       let r = (if conv = NPF_FMT_SPEC_CONV_BINARY then r\<lparr>cbuf_len := npf_bin_len val, binval := val\<rparr>
                else in_cbuf (npf_utoa_rev val
                  (if conv = NPF_FMT_SPEC_CONV_OCTAL then 8 else if conv = NPF_FMT_SPEC_CONV_HEX_INT then 16 else 10)
                  (case_adjust fs)) r);
           r = (if val \<noteq> 0 \<and> alt_form fs \<and> conv = NPF_FMT_SPEC_CONV_OCTAL then in_cbuf (cbuf r @ [CHR ''0'']) r else r);
           r = (if val \<noteq> 0 \<and> alt_form fs \<and> (conv = NPF_FMT_SPEC_CONV_HEX_INT \<or> conv = NPF_FMT_SPEC_CONV_BINARY)
                then r\<lparr>need_0x := char_of (nat ((if conv = NPF_FMT_SPEC_CONV_HEX_INT then 0x58 else 0x42) + case_adjust fs))\<rparr>
                else r)
       in kbind (check_cbuf r) (\<lambda>r. kreturn (fs, r)))"

definition npf_convert :: "npf_format_spec \<Rightarrow> (npf_arg list, npf_format_spec \<times> npf_converted) km" where
  "npf_convert fs =
     (case conv_spec fs of
        NPF_FMT_SPEC_CONV_PERCENT \<Rightarrow> kreturn (fs, in_cbuf [CHR ''%''] no_text)
      | NPF_FMT_SPEC_CONV_CHAR \<Rightarrow> kbind va_int (\<lambda>w. kreturn (fs, in_cbuf [char_of (unat (ucast w :: u8))] no_text))
      | NPF_FMT_SPEC_CONV_STRING \<Rightarrow>
          kbind va_string (\<lambda>t.
          kreturn (fs, in_cbuf (if prec_opt fs = NPF_FMT_SPEC_OPT_NONE then t else take (nat (prec fs)) t) no_text))
      | NPF_FMT_SPEC_CONV_SIGNED_INT \<Rightarrow> kbind (convert_signed fs) (\<lambda>r. kreturn (fs, r))
      | NPF_FMT_SPEC_CONV_POINTER \<Rightarrow>
          kbind va_pointer (\<lambda>w.
          kbind (check_cbuf (in_cbuf (npf_utoa_rev w 16 32) (no_text\<lparr>need_0x := CHR ''x''\<rparr>))) (\<lambda>r. kreturn (fs, r)))
      | NPF_FMT_SPEC_CONV_NONE \<Rightarrow> kreturn (fs, no_text)
      | _ \<Rightarrow> convert_unsigned fs)"

text \<open>Width and precision taken from the arguments.\<close>

definition star_args :: "npf_format_spec \<Rightarrow> (npf_arg list, npf_format_spec) km" where
  "star_args fs =
     kbind (if field_width_opt fs = NPF_FMT_SPEC_OPT_STAR
            then kbind va_int (\<lambda>w.
                 if sint w < 0
                 then kthen (kguard (sint w \<noteq> - (2 ^ 31)) Undefined)
                        (kreturn (fs\<lparr>field_width := - sint w, left_justified := True\<rparr>))
                 else kreturn (fs\<lparr>field_width := sint w\<rparr>))
            else kreturn fs) (\<lambda>fs.
     if prec_opt fs = NPF_FMT_SPEC_OPT_STAR
     then kbind va_int (\<lambda>w.
          kreturn (if sint w < 0 then fs\<lparr>prec := sint w, prec_opt := NPF_FMT_SPEC_OPT_NONE\<rparr> else fs\<lparr>prec := sint w\<rparr>))
     else kreturn fs)"

section \<open>Output\<close>

definition pad_char :: "npf_format_spec \<Rightarrow> npf_converted \<Rightarrow> char" where
  "pad_char fs r =
     (if field_width_opt fs = NPF_FMT_SPEC_OPT_NONE then NUL
      else if leading_zero_pad fs
      then if conv_spec fs \<noteq> NPF_FMT_SPEC_CONV_STRING \<and> conv_spec fs \<noteq> NPF_FMT_SPEC_CONV_CHAR \<and>
              conv_spec fs \<noteq> NPF_FMT_SPEC_CONV_PERCENT
           then if prec_opt fs \<noteq> NPF_FMT_SPEC_OPT_NONE \<and> prec fs = 0 \<and> is_zero r then CHR '' '' else CHR ''0''
           else NUL
      else CHR '' '')"

definition prec_pad :: "npf_format_spec \<Rightarrow> npf_converted \<Rightarrow> int" where
  "prec_pad fs r = (if conv_spec fs \<noteq> NPF_FMT_SPEC_CONV_STRING then npf_max 0 (prec fs - int (cbuf_len r)) else 0)"

definition field_pad :: "npf_format_spec \<Rightarrow> npf_converted \<Rightarrow> int" where
  "field_pad fs r =
     npf_max 0 (field_width fs - int (cbuf_len r) - (if sign_c r \<noteq> NUL then 1 else 0)
       - (if need_0x r \<noteq> NUL then 2 else 0) - prec_pad fs r)"

definition put_0x :: "npf_converted \<Rightarrow> string" where
  "put_0x r = (if need_0x r \<noteq> NUL then [CHR ''0'', need_0x r] else [])"

definition put_sign :: "npf_converted \<Rightarrow> string" where
  "put_sign r = (if sign_c r \<noteq> NUL then [sign_c r] else [])"

definition payload :: "npf_format_spec \<Rightarrow> npf_converted \<Rightarrow> string" where
  "payload fs r =
     (if conv_spec fs = NPF_FMT_SPEC_CONV_STRING then cbuf r
      else replicate (nat (prec_pad fs r)) (CHR ''0'') @
        (if conv_spec fs = NPF_FMT_SPEC_CONV_BINARY
         then map (\<lambda>i. if bit (binval r) i then CHR ''1'' else CHR ''0'') (rev [0..<cbuf_len r])
         else rev (cbuf r)))"

definition npf_put :: "npf_format_spec \<Rightarrow> npf_converted \<Rightarrow> string" where
  "npf_put fs r =
     (let pad_c = pad_char fs r; pad = replicate (nat (field_pad fs r)) pad_c;
          sign = (if conv_spec fs = NPF_FMT_SPEC_CONV_STRING then [] else put_sign r) in
      if \<not> left_justified fs \<and> pad_c \<noteq> NUL
      then if pad_c = CHR ''0'' then put_sign r @ put_0x r @ pad @ payload fs r
           else pad @ put_0x r @ sign @ payload fs r
      else put_0x r @ sign @ payload fs r @ (if left_justified fs \<and> pad_c \<noteq> NUL then pad else []))"

definition npf_field :: "npf_format_spec \<Rightarrow> (npf_arg list, string) km" where
  "npf_field fs =
     kthen (kguard (field_width fs < 2 ^ 31 \<and> prec fs < 2 ^ 31) Undefined)
     (kbind (star_args fs) (\<lambda>fs.
      kbind (npf_convert fs) (\<lambda>(fs, r).
      kthen (kguard (conv_spec fs = NPF_FMT_SPEC_CONV_STRING \<or> prec fs - int (cbuf_len r) \<ge> - (2 ^ 31)) Undefined)
      (kreturn (npf_put fs r)))))"

section \<open>The loop over the format\<close>

record 'c npf_cnt_putc_ctx =
  putc_ctx :: 'c
  putc_n :: int

definition npf_putc_cnt :: "(char \<Rightarrow> 'c \<Rightarrow> 'c) \<Rightarrow> char \<Rightarrow> 'c npf_cnt_putc_ctx \<Rightarrow> 'c npf_cnt_putc_ctx" where
  "npf_putc_cnt pc c x = x\<lparr>putc_n := putc_n x + 1, putc_ctx := pc c (putc_ctx x)\<rparr>"

text \<open>Every part of a specification is read from left to right, so the rest of the format is shorter.\<close>

lemma parse_flags_length: "length (snd (parse_flags cur fs)) \<le> length cur"
  by (induction cur fs rule: parse_flags.induct) auto

lemma parse_number_length: "length (snd (parse_number cur n)) \<le> length cur"
  by (induction cur n rule: parse_number.induct) auto

lemma parse_number_length': "parse_number cur n = (m, rest) \<Longrightarrow> length rest \<le> length cur"
  using parse_number_length [of cur n] by simp

lemma parse_width_length: "length (snd (parse_width cur fs)) \<le> length cur"
  by (auto simp: parse_width_def Let_def split: prod.splits dest: parse_number_length')

lemma parse_precision_length: "length (snd (parse_precision cur fs)) \<le> length cur"
  by (auto simp: parse_precision_def Let_def split: prod.splits if_splits dest!: parse_number_length')

lemma parse_length_length: "length (snd (parse_length cur fs)) \<le> length cur"
  by (auto simp: parse_length_def)

lemma npf_parse_format_spec_shorter:
  assumes "npf_parse_format_spec format = Some (fs, rest)" and "format \<noteq> []"
  shows "length rest < length format"
proof -
  define a where "a = parse_flags (tl format) spec_start"
  define b where "b = parse_width (snd a) (fst a)"
  define c where "c = parse_precision (snd b) (fst b)"
  define d where "d = parse_length (snd c) (fst c)"
  have "rest = tl (snd d)"
    using assms(1) by (auto simp: npf_parse_format_spec_def a_def b_def c_def d_def split: prod.splits option.splits)
  moreover have "length (snd d) \<le> length (tl format)"
    using parse_length_length [of "snd c" "fst c"] parse_precision_length [of "snd b" "fst b"]
      parse_width_length [of "snd a" "fst a"] parse_flags_length [of "tl format" spec_start]
    unfolding a_def [symmetric] b_def [symmetric] c_def [symmetric] d_def [symmetric] by linarith
  ultimately show ?thesis using assms(2) by (cases format) auto
qed

function npf_vpprintf_from :: "(char \<Rightarrow> 'c \<Rightarrow> 'c) \<Rightarrow> string \<Rightarrow> npf_arg list \<Rightarrow> 'c npf_cnt_putc_ctx
    \<Rightarrow> kerror + 'c npf_cnt_putc_ctx" where
  "npf_vpprintf_from pc [] args x = Inr x"
| "npf_vpprintf_from pc (c # cs) args x =
     (case if c \<noteq> CHR ''%'' then None else npf_parse_format_spec (c # cs) of
        None \<Rightarrow> npf_vpprintf_from pc cs args (npf_putc_cnt pc c x)
      | Some (fs, rest) \<Rightarrow>
          (case npf_field fs args of
             Inl e \<Rightarrow> Inl e
           | Inr (t, args) \<Rightarrow> npf_vpprintf_from pc rest args (fold (npf_putc_cnt pc) t x)))"
  by pat_completeness auto

termination
  by (relation "measure (\<lambda>(pc, cur, args, x). length cur)")
    (auto split: if_splits dest!: npf_parse_format_spec_shorter)

definition npf_vpprintf :: "(char \<Rightarrow> 'c \<Rightarrow> 'c) \<Rightarrow> 'c \<Rightarrow> string \<Rightarrow> npf_arg list \<Rightarrow> kerror + (int \<times> 'c)" where
  "npf_vpprintf pc ctx format args =
     (case npf_vpprintf_from pc format args \<lparr>putc_ctx = ctx, putc_n = 0\<rparr> of
        Inl e \<Rightarrow> Inl e | Inr x \<Rightarrow> Inr (putc_n x, putc_ctx x))"

section \<open>Into a buffer\<close>

record npf_bufputc_ctx =
  dst :: string
  len :: nat
  cur_pos :: nat

definition npf_bufputc :: "char \<Rightarrow> npf_bufputc_ctx \<Rightarrow> npf_bufputc_ctx" where
  "npf_bufputc c x = (if cur_pos x < len x then x\<lparr>dst := (dst x)[cur_pos x := c], cur_pos := cur_pos x + 1\<rparr> else x)"

definition npf_bufputc_nop :: "char \<Rightarrow> npf_bufputc_ctx \<Rightarrow> npf_bufputc_ctx" where
  "npf_bufputc_nop c x = x"

text \<open>
  The buffer is the list of its bytes; a call without a buffer, which only counts, passes \<open>None\<close>.
\<close>

definition npf_vsnprintf :: "string option \<Rightarrow> nat \<Rightarrow> string \<Rightarrow> npf_arg list \<Rightarrow> kerror + (int \<times> string option)" where
  "npf_vsnprintf buffer bufsz format vlist =
     (let x = \<lparr>dst = (case buffer of None \<Rightarrow> [] | Some b \<Rightarrow> b), len = bufsz, cur_pos = 0\<rparr>;
          pc = (case buffer of None \<Rightarrow> npf_bufputc_nop | Some _ \<Rightarrow> npf_bufputc)
      in case npf_vpprintf pc x format vlist of
           Inl e \<Rightarrow> Inl e
         | Inr (n, x) \<Rightarrow>
             let x = pc NUL x in
             Inr (n, case buffer of None \<Rightarrow> None
                   | Some _ \<Rightarrow> Some (if bufsz > 0 then (dst x)[bufsz - 1 := NUL] else dst x)))"

definition npf_snprintf :: "string option \<Rightarrow> nat \<Rightarrow> string \<Rightarrow> npf_arg list \<Rightarrow> kerror + (int \<times> string option)" where
  "npf_snprintf buffer bufsz format val = npf_vsnprintf buffer bufsz format val"

definition npf_pprintf :: "(char \<Rightarrow> 'c \<Rightarrow> 'c) \<Rightarrow> 'c \<Rightarrow> string \<Rightarrow> npf_arg list \<Rightarrow> kerror + (int \<times> 'c)" where
  "npf_pprintf pc pc_ctx format val = npf_vpprintf pc pc_ctx format val"

end
