(* ===== verification/Log.thy ===== *)
theory Log
  imports Ndk_Lock Nanoprintf
begin

text \<open>
  The kernel log (\<^verbatim>\<open>lib/log.c\<close>): the ring of messages, the list of consoles and \<open>printk\<close>. A console is a
  device; what is modelled of it is whether it has a \<open>write\<close> function, its lock, and the texts it has
  been given so far.
\<close>

section \<open>The ring of messages\<close>

definition MSG_BUF_SIZE :: nat where "MSG_BUF_SIZE = 512"

definition MSGS_SIZE :: u32 where "MSGS_SIZE = 1024"

record logmessage =
  msg_sz :: nat
  msg_seq :: u32
  msg_buf :: string

record logbuffer =
  messages :: "logmessage list"
  lb_head :: u32
  lb_tail :: u32
  lb_seq :: u32

definition logbuffer_init :: "logbuffer \<Rightarrow> logbuffer" where
  "logbuffer_init lb = lb\<lparr>lb_head := 0, lb_tail := 0, lb_seq := 0,
     messages := replicate (unat MSGS_SIZE) \<lparr>msg_sz = 0, msg_seq = 0, msg_buf = replicate MSG_BUF_SIZE NUL\<rparr>\<rparr>"

text \<open>\<open>memcpy\<close> of the text and the terminator after it.\<close>

definition fill_message :: "string \<Rightarrow> nat \<Rightarrow> logmessage \<Rightarrow> logmessage" where
  "fill_message str sz msg =
     msg\<lparr>msg_buf := take sz str @ NUL # drop (sz + 1) (msg_buf msg), msg_sz := sz\<rparr>"

definition logbuffer_write :: "string \<Rightarrow> nat \<Rightarrow> (logbuffer, unit) km" where
  "logbuffer_write str sz =
     kbind (kget lb_head) (\<lambda>head.
     kbind (kget lb_tail) (\<lambda>tail.
     let next_head = (head + 1) AND (MSGS_SIZE - 1) in
     if next_head = tail then kreturn ()
     else
       kthen (kmodify (\<lambda>lb. lb\<lparr>lb_head := next_head\<rparr>))
       (kthen (kassert (sz < MSG_BUF_SIZE) ''size < MSG_BUF_SIZE'')
       (kmodify (\<lambda>lb. lb\<lparr>messages := (messages lb)[unat head := fill_message str sz (messages lb ! unat head)]\<rparr>)))))"

definition logbuffer_read :: "(logbuffer, logmessage option) km" where
  "logbuffer_read =
     kbind (kget lb_tail) (\<lambda>tail.
     kbind (kget lb_head) (\<lambda>head.
     let next_tail = (tail + 1) AND (MSGS_SIZE - 1) in
     if tail = head then kreturn None
     else kthen (kmodify (\<lambda>lb. lb\<lparr>lb_tail := next_tail\<rparr>))
            (kget (\<lambda>lb. Some (messages lb ! unat tail)))))"

section \<open>Consoles\<close>

record console =
  has_write :: bool
  con_lock :: bool
  written :: "string list"

record log_state =
  g_lb :: logbuffer
  console_list :: "nat list"
  consoles :: "nat \<Rightarrow> console"
  console_list_lock :: bool
  print_lock :: bool
  ints :: bool

definition upd_console :: "nat \<Rightarrow> (console \<Rightarrow> console) \<Rightarrow> log_state \<Rightarrow> log_state" where
  "upd_console i f s = s\<lparr>consoles := (consoles s)(i := f (consoles s i))\<rparr>"

definition con_acquire :: "nat \<Rightarrow> (log_state, unit) km" where
  "con_acquire i = spinlock_acquire (\<lambda>s. con_lock (consoles s i)) (\<lambda>f. upd_console i (con_lock_update f))"

definition con_release :: "nat \<Rightarrow> (log_state, unit) km" where
  "con_release i = spinlock_release (\<lambda>f. upd_console i (con_lock_update f))"

definition console_write :: "string \<Rightarrow> nat \<Rightarrow> nat \<Rightarrow> (log_state, unit) km" where
  "console_write buf sz i =
     kbind (kget (\<lambda>s. has_write (consoles s i))) (\<lambda>w.
     kwhen w
       (kthen (con_acquire i)
       (kthen (kmodify (upd_console i (written_update (\<lambda>ts. ts @ [take sz buf]))))
       (con_release i))))"

definition printk_consoles_write :: "string \<Rightarrow> nat \<Rightarrow> (log_state, unit) km" where
  "printk_consoles_write buf sz =
     kbind (spinlock_try_lock_intr ints ints_update console_list_lock console_list_lock_update) (\<lambda>old.
     case old of
       None \<Rightarrow> kreturn ()
     | Some old \<Rightarrow>
         kbind (kget console_list) (\<lambda>elms.
         kthen (kfor elms (console_write buf sz))
         (spinlock_release_intr ints ints_update console_list_lock_update old)))"

definition console_add :: "nat \<Rightarrow> (log_state, unit) km" where
  "console_add i =
     kbind (spinlock_acquire_intr ints ints_update console_list_lock console_list_lock_update) (\<lambda>old.
     kthen (kmodify (upd_console i (con_lock_update (\<lambda>_. False))))
     (kthen (kmodify (console_list_update (\<lambda>xs. xs @ [i])))
     (spinlock_release_intr ints ints_update console_list_lock_update old)))"

definition console_remove :: "nat \<Rightarrow> (log_state, unit) km" where
  "console_remove i =
     kbind (spinlock_acquire_intr ints ints_update console_list_lock console_list_lock_update) (\<lambda>old.
     kthen (con_acquire i)
     (kthen (kmodify (console_list_update (remove1 i)))
     (spinlock_release_intr ints ints_update console_list_lock_update old)))"

section \<open>Printing\<close>

text \<open>An operation on the ring, as an operation on the whole state.\<close>

definition on_ring :: "(logbuffer, 'a) km \<Rightarrow> (log_state, 'a) km" where
  "on_ring m = (\<lambda>s. case m (g_lb s) of Inl e \<Rightarrow> Inl e | Inr (x, lb) \<Rightarrow> Inr (x, s\<lparr>g_lb := lb\<rparr>))"

fun printk_buffer_write :: "nat \<Rightarrow> (log_state, unit) km" where
  "printk_buffer_write 0 = kfail OutOfFuel"
| "printk_buffer_write (Suc fuel) =
     kbind (on_ring logbuffer_read) (\<lambda>msg.
     case msg of
       None \<Rightarrow> kreturn ()
     | Some m \<Rightarrow> kthen (printk_consoles_write (msg_buf m) (msg_sz m)) (printk_buffer_write fuel))"

definition printk_init :: "(log_state, unit) km" where
  "printk_init = kmodify (g_lb_update logbuffer_init)"

definition log_prefix :: "string \<Rightarrow> string \<Rightarrow> string" where
  "log_prefix colour name = ''[ '' @ [CHR 0x1B] @ ''['' @ colour @ ''m'' @ name @ [CHR 0x1B] @ ''[0m] ''"

definition LOG_SPAM :: string where "LOG_SPAM = log_prefix ''35'' ''SPAM  ''"

definition LOG_DEBUG :: string where "LOG_DEBUG = log_prefix ''35'' ''DEBUG ''"

definition LOG_INFO :: string where "LOG_INFO = log_prefix ''32'' ''INFO  ''"

definition LOG_WARN :: string where "LOG_WARN = log_prefix ''33'' ''WARN  ''"

definition LOG_ERR :: string where "LOG_ERR = log_prefix ''31'' ''ERROR ''"

definition LOG_PANIC :: string where "LOG_PANIC = log_prefix ''31'' ''PANIC ''"

definition LOG_TRACE :: string where "LOG_TRACE = log_prefix ''36'' ''TRACE ''"

definition level_prefix :: "nat \<Rightarrow> string option" where
  "level_prefix lvl =
     (if lvl = 1 then Some LOG_SPAM else if lvl = 2 then Some LOG_DEBUG else if lvl = 3 then Some LOG_TRACE
      else if lvl = 4 then Some LOG_INFO else if lvl = 5 then Some LOG_WARN else if lvl = 6 then Some LOG_ERR
      else if lvl = 7 then Some LOG_PANIC else None)"

definition kresult :: "kerror + 'a \<Rightarrow> ('s, 'a) km" where
  "kresult r = (case r of Inl e \<Rightarrow> kfail e | Inr x \<Rightarrow> kreturn x)"

text \<open>
  \<open>LOG_LEVEL\<close> is the level chosen when the kernel is configured, and \<open>garbage\<close> the uninitialised
  contents of the local buffer.
\<close>

definition printk :: "nat \<Rightarrow> string \<Rightarrow> string \<Rightarrow> npf_arg list \<Rightarrow> (log_state, unit) km" where
  "printk LOG_LEVEL garbage fmt args =
     (let buf = garbage[MSG_BUF_SIZE := NUL]; lvl = of_char (at fmt) in
      if lvl \<ge> 1 \<and> lvl \<le> 6 \<and> lvl < LOG_LEVEL then kreturn ()
      else
        kbind (case level_prefix lvl of
                 None \<Rightarrow> kreturn (0, Some buf)
               | Some p \<Rightarrow> kresult (npf_snprintf (Some buf) MSG_BUF_SIZE p [])) (\<lambda>(sz, buf).
        let fmt = (if level_prefix lvl = None then fmt else tl fmt); buf = the buf; sz = nat sz in
        kbind (spinlock_acquire_intr ints ints_update print_lock print_lock_update) (\<lambda>oldstate.
        kbind (kresult (npf_vsnprintf (Some (drop sz buf)) (MSG_BUF_SIZE - sz) fmt args)) (\<lambda>(n, rest).
        let buf = take sz buf @ the rest; sz = sz + nat n in
        kthen (on_ring (logbuffer_write buf sz))
        (kthen (printk_buffer_write (unat MSGS_SIZE))
        (spinlock_release_intr ints ints_update print_lock_update oldstate))))))"

end
