(* ===== verification/Nanoprintf_Props.thy ===== *)
theory Nanoprintf_Props
  imports Nanoprintf
begin

text \<open>
  What the formatter guarantees: its output is a text that depends on the format and the arguments
  only, the buffer it is written to holds as much of it as fits, no conversion leaves its local
  buffer, a field is as wide as asked for, and numbers can be read back.
\<close>

section \<open>The text of a format\<close>

function npf_text :: "string \<Rightarrow> npf_arg list \<Rightarrow> kerror + string" where
  "npf_text [] args = Inr []"
| "npf_text (c # cs) args =
     (case if c \<noteq> CHR ''%'' then None else npf_parse_format_spec (c # cs) of
        None \<Rightarrow> map_sum id ((#) c) (npf_text cs args)
      | Some (fs, rest) \<Rightarrow>
          (case npf_field fs args of
             Inl e \<Rightarrow> Inl e
           | Inr (t, args) \<Rightarrow> map_sum id ((@) t) (npf_text rest args)))"
  by pat_completeness auto

termination
  by (relation "measure (\<lambda>(cur, args). length cur)")
    (auto split: if_splits dest!: npf_parse_format_spec_shorter)

lemma fold_putc_cnt:
  "fold (npf_putc_cnt pc) t x = x\<lparr>putc_n := putc_n x + int (length t), putc_ctx := fold pc t (putc_ctx x)\<rparr>"
  by (induction t arbitrary: x) (simp_all add: npf_putc_cnt_def)

lemma npf_vpprintf_from_text:
  "npf_vpprintf_from pc cur args x = map_sum id (\<lambda>t. fold (npf_putc_cnt pc) t x) (npf_text cur args)"
proof (induction pc cur args x rule: npf_vpprintf_from.induct)
  case (1 pc args x)
  then show ?case by simp
next
  case (2 pc c cs args x)
  show ?case
  proof (cases "if c \<noteq> CHR ''%'' then None else npf_parse_format_spec (c # cs)")
    case None
    then show ?thesis
      using 2(1) [OF None] by (simp add: map_sum.compositionality comp_def)
  next
    case (Some a)
    obtain fs rest where a: "a = (fs, rest)" by (cases a)
    show ?thesis
    proof (cases "npf_field fs args")
      case (Inl e)
      then show ?thesis using Some by (simp add: a)
    next
      case (Inr r)
      obtain t args' where r: "r = (t, args')" by (cases r)
      show ?thesis using 2(2) [OF Some a [symmetric] Inr r [symmetric]] Some Inr
        by (simp add: a r map_sum.compositionality comp_def)
    qed
  qed
qed

lemma npf_vpprintf_text:
  "npf_vpprintf pc ctx format args = map_sum id (\<lambda>t. (int (length t), fold pc t ctx)) (npf_text format args)"
  by (cases "npf_text format args") (simp_all add: npf_vpprintf_def npf_vpprintf_from_text fold_putc_cnt)

section \<open>The buffer\<close>

lemma fold_bufputc:
  assumes "cur_pos x \<le> len x" and "len x \<le> length (dst x)"
  shows "fold npf_bufputc t x =
    x\<lparr>dst := take (cur_pos x) (dst x) @ take (len x - cur_pos x) t @ drop (min (len x) (cur_pos x + length t)) (dst x),
      cur_pos := min (len x) (cur_pos x + length t)\<rparr>"
  using assms
proof (induction t arbitrary: x)
  case Nil
  then show ?case by simp
next
  case (Cons c t)
  show ?case
  proof (cases "cur_pos x < len x")
    case True
    then have step: "npf_bufputc c x = x\<lparr>dst := (dst x)[cur_pos x := c], cur_pos := cur_pos x + 1\<rparr>"
      by (simp add: npf_bufputc_def)
    obtain k where k: "len x - cur_pos x = Suc k" using True by (cases "len x - cur_pos x") auto
    then have "k = len x - (cur_pos x + 1)" by simp
    moreover have "take (cur_pos x + 1) ((dst x)[cur_pos x := c]) = take (cur_pos x) (dst x) @ [c]"
      using True Cons.prems by (simp add: take_Suc_conv_app_nth take_update_cancel)
    ultimately show ?thesis using Cons.IH [of "npf_bufputc c x"] True Cons.prems
      by (simp add: step k drop_update_cancel)
  next
    case False
    then have "npf_bufputc c x = x" "len x = cur_pos x" using Cons.prems by (auto simp: npf_bufputc_def)
    then show ?thesis using Cons.IH [of x] Cons.prems by simp
  qed
qed

lemma npf_vsnprintf_text:
  assumes "npf_text format args = Inr t" and "0 < bufsz" and "bufsz \<le> length b"
  shows "\<exists>b'. npf_vsnprintf (Some b) bufsz format args = Inr (int (length t), Some b') \<and> length b' = length b \<and>
    take (min (length t) (bufsz - 1)) b' = take (bufsz - 1) t \<and> b' ! min (length t) (bufsz - 1) = NUL \<and>
    (\<forall>i. bufsz \<le> i \<longrightarrow> i < length b \<longrightarrow> b' ! i = b ! i)"
proof -
  let ?x = "\<lparr>dst = b, len = bufsz, cur_pos = 0\<rparr>"
  let ?n = "min (length t) (bufsz - 1)"
  define y where "y = fold npf_bufputc (t @ [NUL]) ?x"
  have y: "dst y = take bufsz (t @ [NUL]) @ drop (min bufsz (Suc (length t))) b"
    using assms(3) unfolding y_def by (subst fold_bufputc) simp_all
  have run: "npf_vsnprintf (Some b) bufsz format args = Inr (int (length t), Some ((dst y)[bufsz - 1 := NUL]))"
    using assms(1,2) by (simp add: npf_vsnprintf_def npf_vpprintf_text y_def)
  have "take ?n ((dst y)[bufsz - 1 := NUL]) = take ?n (dst y)" by simp
  also have "\<dots> = take (bufsz - 1) t"
  proof (cases "length t \<le> bufsz - 1")
    case True
    then have "take bufsz (t @ [NUL]) = t @ [NUL]" using assms(2) by simp
    then show ?thesis using True by (simp add: y)
  next
    case False
    then have "bufsz \<le> length t" by linarith
    then show ?thesis using False by (simp add: y)
  qed
  finally have "take ?n ((dst y)[bufsz - 1 := NUL]) = take (bufsz - 1) t" .
  moreover have "(dst y)[bufsz - 1 := NUL] ! ?n = NUL"
  proof (cases "length t < bufsz - 1")
    case True
    then have "take bufsz (t @ [NUL]) = t @ [NUL]" using assms(2) by simp
    then show ?thesis using True by (simp add: y nth_append)
  next
    case False
    then have "?n = bufsz - 1" by linarith
    moreover have "bufsz - 1 < length (dst y)" using assms(2,3) by (simp add: y)
    ultimately show ?thesis by simp
  qed
  moreover have "(dst y)[bufsz - 1 := NUL] ! i = b ! i" if i: "bufsz \<le> i" "i < length b" for i
  proof -
    have "(dst y)[bufsz - 1 := NUL] ! i = dst y ! i" using i(1) assms(2) by simp
    also have "\<dots> = b ! i"
    proof (cases "Suc (length t) \<le> bufsz")
      case True
      then show ?thesis using i by (simp add: y nth_append)
    next
      case False
      then have "bufsz \<le> length t" "min bufsz (Suc (length t)) = bufsz" by simp_all
      then show ?thesis using i by (simp add: y nth_append)
    qed
    finally show ?thesis .
  qed
  moreover have "length ((dst y)[bufsz - 1 := NUL]) = length b" using assms(3) by (cases "Suc (length t) \<le> bufsz") (simp_all add: y)
  ultimately show ?thesis using run by blast
qed

section \<open>Digits\<close>

definition digit_val :: "char \<Rightarrow> nat" where
  "digit_val c = (let n = of_char c in if n \<ge> 97 then n - 87 else if n \<ge> 65 then n - 55 else n - 48)"

definition read_digits :: "nat \<Rightarrow> string \<Rightarrow> nat" where
  "read_digits b t = foldl (\<lambda>n c. n * b + digit_val c) 0 t"

lemma digit_val_char:
  assumes "unat d < 16" and "ca \<in> {0, 32}"
  shows "digit_val (digit_char ca d) = unat d"
proof -
  have u: "uint d = int (unat d)" by simp
  have "nat ((if int n < 10 then 0x30 else 0x41 - 10 + ca) + int n) =
      (if n < 10 then 48 + n else if ca = 0 then 55 + n else 87 + n)" for n
    using assms(2) by auto
  then have "digit_char ca d = char_of (if unat d < 10 then 48 + unat d else if ca = 0 then 55 + unat d else 87 + unat d)"
    unfolding digit_char_def u by (simp only:)
  then show ?thesis using assms(1) by (auto simp: digit_val_def Let_def)
qed

lemma npf_utoa_rev_value:
  assumes "base \<in> {8, 10, 16}" and "ca \<in> {0, 32}"
  shows "read_digits (unat base) (rev (npf_utoa_rev val base ca)) = unat val"
  using assms
proof (induction val base ca rule: npf_utoa_rev.induct)
  case (1 val base ca)
  have b: "\<not> base \<le> 1" "1 < unat base" "unat base \<le> 16" using "1.prems"(1) by (auto simp: word_le_nat_alt)
  have "unat (val mod base) < unat base" using b by (simp add: unat_mod)
  then have "unat (val mod base) < 16" using b(3) by linarith
  from digit_val_char [OF this "1.prems"(2)]
  have d: "digit_val (digit_char ca (val mod base)) = unat val mod unat base" unfolding unat_mod .
  show ?case
  proof (cases "val div base = 0")
    case True
    then have "unat val div unat base = 0" by (metis unat_div unsigned_0)
    then have "unat val mod unat base = unat val" by (metis div_mult_mod_eq mult_0 add_0)
    then show ?thesis using True by (simp add: npf_utoa_rev.simps [of val] read_digits_def d)
  next
    case False
    then show ?thesis
      using "1.IH" "1.prems" b d by (simp add: npf_utoa_rev.simps [of val] read_digits_def unat_div div_mult_mod_eq)
  qed
qed

lemma npf_utoa_rev_length:
  assumes "unat val < 8 ^ k" and "0 < k" and "8 \<le> unat base"
  shows "length (npf_utoa_rev val base ca) \<le> k"
  using assms
proof (induction k arbitrary: val)
  case (Suc k)
  show ?case
  proof (cases "base \<le> 1 \<or> val div base = 0")
    case True
    then show ?thesis by (simp add: npf_utoa_rev.simps [of val])
  next
    case False
    have "unat (val div base) \<le> unat val div 8" unfolding unat_div using Suc.prems(3) by (simp add: div_le_mono2)
    also have "\<dots> < 8 ^ k" using Suc.prems(1) by (simp add: less_mult_imp_div_less mult.commute)
    finally have lt: "unat (val div base) < 8 ^ k" .
    have "k \<noteq> 0" using lt False by (cases k) (auto simp: unat_eq_zero)
    then show ?thesis using Suc.IH [OF lt _ Suc.prems(3)] False by (simp add: npf_utoa_rev.simps [of val])
  qed
qed simp

lemma npf_utoa_rev_fits: "8 \<le> unat base \<Longrightarrow> length (npf_utoa_rev val base ca) \<le> 22"
proof -
  assume "8 \<le> unat base"
  moreover have "unat val < 8 ^ 22" using unat_lt_u64 [of val] by simp
  ultimately show ?thesis by (intro npf_utoa_rev_length) simp_all
qed

section \<open>The conversion buffer\<close>

text \<open>An operation that never leaves an array.\<close>

definition in_bounds :: "('s, 'a) km \<Rightarrow> bool" where
  "in_bounds m \<longleftrightarrow> (\<forall>s. m s \<noteq> Inl OutOfBounds)"

named_theorems in_bounds_intros

lemma in_bounds_kreturn [in_bounds_intros]: "in_bounds (kreturn x)"
  by (simp add: in_bounds_def kreturn_def)

lemma in_bounds_Undefined [in_bounds_intros]: "in_bounds (kfail Undefined)"
  by (simp add: in_bounds_def kfail_def)

lemma in_bounds_kbind [in_bounds_intros]: "in_bounds m \<Longrightarrow> (\<And>x. in_bounds (f x)) \<Longrightarrow> in_bounds (kbind m f)"
  by (auto simp: in_bounds_def kbind_def split: sum.splits)

lemma in_bounds_kthen [in_bounds_intros]: "in_bounds m \<Longrightarrow> in_bounds n \<Longrightarrow> in_bounds (kthen m n)"
  by (simp add: kthen_def in_bounds_kbind)

lemma in_bounds_kguard [in_bounds_intros]: "in_bounds (kguard b Undefined)"
  by (simp add: kguard_def in_bounds_kreturn in_bounds_Undefined)

lemma in_bounds_if [in_bounds_intros]: "(b \<Longrightarrow> in_bounds m) \<Longrightarrow> (\<not> b \<Longrightarrow> in_bounds n) \<Longrightarrow> in_bounds (if b then m else n)"
  by simp

lemma in_bounds_va_arg [in_bounds_intros]: "in_bounds va_arg"
  by (simp add: in_bounds_def va_arg_def split: list.splits)

lemma in_bounds_va [in_bounds_intros]:
  "in_bounds va_int" "in_bounds va_long" "in_bounds va_string" "in_bounds va_pointer"
  unfolding va_int_def va_long_def va_string_def va_pointer_def
  by (intro in_bounds_intros; auto intro: in_bounds_intros split: npf_arg.split)+

lemma in_bounds_extract [in_bounds_intros]: "in_bounds (extract_signed lm)" "in_bounds (extract_unsigned lm)"
  unfolding extract_signed_def extract_unsigned_def by (auto intro!: in_bounds_intros split: npf_len_mod.split)

lemma in_bounds_check_cbuf: "length (cbuf r) \<le> 23 \<Longrightarrow> in_bounds (check_cbuf r)"
  by (simp add: check_cbuf_def NANOPRINTF_CONVERSION_BUFFER_SIZE_def kguard_def in_bounds_intros)

lemma npf_utoa_rev_cbuf: "base \<in> {8, 10, 16} \<Longrightarrow> length (npf_utoa_rev val base ca) \<le> 22"
  by (rule npf_utoa_rev_fits) auto

lemma in_bounds_convert_signed [in_bounds_intros]: "in_bounds (convert_signed fs)"
proof -
  have "length (npf_utoa_rev w 10 ca) \<le> 23" for w ca using npf_utoa_rev_cbuf [of 10 w ca] by simp
  then show ?thesis
    unfolding convert_signed_def Let_def by (intro in_bounds_intros in_bounds_check_cbuf) (simp_all add: in_cbuf_def)
qed

lemma in_bounds_convert_unsigned [in_bounds_intros]: "in_bounds (convert_unsigned fs)"
proof -
  have l: "length (npf_utoa_rev w 10 ca) \<le> 23" "length (npf_utoa_rev w 16 ca) \<le> 23"
    "length (npf_utoa_rev w 8 ca) \<le> 22" "length (npf_utoa_rev w 8 ca) \<le> 23" for w ca
    using npf_utoa_rev_cbuf [of 10 w ca] npf_utoa_rev_cbuf [of 16 w ca] npf_utoa_rev_cbuf [of 8 w ca] by simp_all
  show ?thesis
    unfolding convert_unsigned_def Let_def
    by (intro in_bounds_intros in_bounds_check_cbuf) (auto simp: in_cbuf_def no_text_def l le_SucI)
qed

lemma in_bounds_npf_convert [in_bounds_intros]: "in_bounds (npf_convert fs)"
proof -
  have "length (npf_utoa_rev w 16 32) \<le> 23" for w using npf_utoa_rev_cbuf [of 16 w 32] by simp
  then have "in_bounds (check_cbuf (in_cbuf (npf_utoa_rev w 16 32) (no_text\<lparr>need_0x := CHR ''x''\<rparr>)))" for w
    by (intro in_bounds_check_cbuf) (simp add: in_cbuf_def)
  then show ?thesis
    unfolding npf_convert_def by (cases "conv_spec fs") (auto intro!: in_bounds_intros)
qed

lemma in_bounds_npf_field [in_bounds_intros]: "in_bounds (npf_field fs)"
  unfolding npf_field_def star_args_def by (auto intro!: in_bounds_intros split: prod.split)

lemma npf_text_in_bounds: "npf_text format args \<noteq> Inl OutOfBounds"
proof (induction format args rule: npf_text.induct)
  case (2 c cs args)
  show ?case
  proof (cases "if c \<noteq> CHR ''%'' then None else npf_parse_format_spec (c # cs)")
    case None
    then show ?thesis using 2(1) [OF None] by (cases "npf_text cs args") simp_all
  next
    case (Some a)
    obtain fs rest where a: "a = (fs, rest)" by (cases a)
    have f: "npf_field fs args \<noteq> Inl OutOfBounds" using in_bounds_npf_field [of fs] by (simp add: in_bounds_def)
    show ?thesis
    proof (cases "npf_field fs args")
      case (Inl e)
      then show ?thesis using Some f by (simp add: a)
    next
      case (Inr r)
      obtain t args' where r: "r = (t, args')" by (cases r)
      show ?thesis using 2(2) [OF Some a [symmetric] Inr r [symmetric]] Some Inr
        by (cases "npf_text rest args'") (simp_all add: a r)
    qed
  qed
qed simp

section \<open>Field widths\<close>

text \<open>What a conversion leaves in the local variables.\<close>

definition conv_ok :: "npf_format_spec \<Rightarrow> npf_converted \<Rightarrow> bool" where
  "conv_ok fs r \<longleftrightarrow> (conv_spec fs \<noteq> NPF_FMT_SPEC_CONV_BINARY \<longrightarrow> cbuf_len r = length (cbuf r)) \<and>
     (conv_spec fs = NPF_FMT_SPEC_CONV_STRING \<longrightarrow> sign_c r = NUL \<and> need_0x r = NUL)"

lemma kbind_Inr: "kbind m f s = Inr y \<longleftrightarrow> (\<exists>x t. m s = Inr (x, t) \<and> f x t = Inr y)"
  by (auto simp: kbind_def split: sum.splits)

lemma kreturn_Inr: "kreturn x s = Inr y \<longleftrightarrow> y = (x, s)"
  by (auto simp: kreturn_def)

lemma kguard_Inr: "kguard b e s = Inr y \<longleftrightarrow> b \<and> y = ((), s)"
  by (auto simp: kguard_def kreturn_def kfail_def)

lemmas km_Inr = kbind_Inr kreturn_Inr kguard_Inr kthen_def

lemma convert_signed_ok:
  "convert_signed fs args = Inr (r, rest) \<Longrightarrow> cbuf_len r = length (cbuf r)"
  by (auto simp: convert_signed_def check_cbuf_def km_Inr Let_def in_cbuf_def no_text_def split: if_splits)

lemma convert_unsigned_ok:
  "convert_unsigned fs args = Inr ((fs', r), rest) \<Longrightarrow>
   (fs' = fs \<or> fs' = fs\<lparr>prec := 1\<rparr>) \<and> (conv_spec fs \<noteq> NPF_FMT_SPEC_CONV_BINARY \<longrightarrow> cbuf_len r = length (cbuf r))"
  by (auto simp: convert_unsigned_def check_cbuf_def km_Inr Let_def in_cbuf_def no_text_def split: if_splits)

lemma npf_convert_ok:
  assumes "npf_convert fs args = Inr ((fs', r), rest)"
  shows "(fs' = fs \<or> fs' = fs\<lparr>prec := 1\<rparr>) \<and> conv_ok fs' r"
proof (cases "conv_spec fs")
  case NPF_FMT_SPEC_CONV_SIGNED_INT
  then show ?thesis
    using assms by (auto simp: npf_convert_def km_Inr conv_ok_def dest: convert_signed_ok)
qed (use assms convert_unsigned_ok [of fs args fs' r rest] in
  \<open>auto simp: npf_convert_def km_Inr conv_ok_def check_cbuf_def in_cbuf_def no_text_def\<close>)

lemma length_npf_put:
  assumes "conv_ok fs r" and "pad_char fs r \<noteq> NUL"
  shows "field_width fs \<le> int (length (npf_put fs r))"
proof -
  have pad: "0 \<le> prec_pad fs r" "conv_spec fs = NPF_FMT_SPEC_CONV_STRING \<Longrightarrow> prec_pad fs r = 0"
    by (simp_all add: prec_pad_def npf_max_def)
  then have body: "int (length (payload fs r)) = prec_pad fs r + int (cbuf_len r)"
    using assms(1) by (auto simp: payload_def conv_ok_def)
  have sign: "int (length (put_sign r)) = (if sign_c r \<noteq> NUL then 1 else 0)" "int (length (put_0x r)) = (if need_0x r \<noteq> NUL then 2 else 0)"
    by (simp_all add: put_sign_def put_0x_def)
  have str: "conv_spec fs = NPF_FMT_SPEC_CONV_STRING \<Longrightarrow> put_sign r = []"
    using assms(1) by (simp add: conv_ok_def put_sign_def)
  define k where "k = int (length (put_sign r)) + int (length (put_0x r)) + int (length (payload fs r))"
  have "field_pad fs r = npf_max 0 (field_width fs - k)" unfolding field_pad_def k_def body sign by (simp add: algebra_simps)
  then have w: "field_width fs \<le> k + int (nat (field_pad fs r))" by (simp add: npf_max_def)
  have "int (length (npf_put fs r)) = k + int (nat (field_pad fs r))"
    using assms(2) str by (auto simp: npf_put_def Let_def k_def)
  then show ?thesis using w by linarith
qed

section \<open>Properties\<close>

text \<open>C23: \<open>npf_vsnprintf\<close> never writes outside the buffer it is given and always terminates the text. For every
  format and arguments that are of the types the format asks for, the buffer holds as many characters
  of the text as fit before the terminator, the bytes after the buffer are untouched, and the result
  is the length of the whole text, also when it did not fit.\<close>

theorem npf_vsnprintf_bounded:
  assumes "npf_vpprintf (\<lambda>c t. t @ [c]) [] format args = Inr (n, t)" and "0 < bufsz" and "bufsz \<le> length b"
  shows "n = int (length t) \<and>
    (\<exists>b'. npf_vsnprintf (Some b) bufsz format args = Inr (n, Some b') \<and> length b' = length b \<and>
      take (min (length t) (bufsz - 1)) b' = take (bufsz - 1) t \<and> b' ! min (length t) (bufsz - 1) = NUL \<and>
      (\<forall>i. bufsz \<le> i \<longrightarrow> i < length b \<longrightarrow> b' ! i = b ! i))"
proof -
  have "fold (\<lambda>c t. t @ [c]) u v = v @ u" for u v :: string by (induction u arbitrary: v) simp_all
  then have "npf_text format args = Inr t" "n = int (length t)"
    using assms(1) by (cases "npf_text format args"; simp add: npf_vpprintf_text)+
  then show ?thesis using npf_vsnprintf_text [OF _ assms(2,3)] by blast
qed

theorem npf_vsnprintf_bounded_witness:
  "\<exists>b'. npf_vsnprintf (Some (replicate 8 CHR ''?'')) 4 ''%d!'' [ArgInt 12345] = Inr (6, Some b') \<and>
     take 3 b' = ''123'' \<and> b' ! 3 = NUL"
proof -
  have "npf_vpprintf (\<lambda>c t. t @ [c]) [] ''%d!'' [ArgInt 12345] = Inr (6, ''12345!'')" by code_simp
  then show ?thesis using npf_vsnprintf_bounded [of "''%d!''" "[ArgInt 12345]" 6 "''12345!''" 4 "replicate 8 CHR ''?''"]
    by (auto simp: numeral_3_eq_3)
qed

text \<open>C24: No conversion leaves its local buffer of 23 bytes: whatever the format and the arguments are, the
  formatter never stops with an access outside an array.\<close>

theorem npf_conversion_buffer_suffices: "npf_vpprintf pc ctx format args \<noteq> Inl OutOfBounds"
  using npf_text_in_bounds [of format args] by (cases "npf_text format args") (simp_all add: npf_vpprintf_text)



text \<open>Reading a decimal number with an optional sign.\<close>

definition read_signed :: "string \<Rightarrow> int" where
  "read_signed t = (if t \<noteq> [] \<and> hd t = CHR ''-'' then - int (read_digits 10 (tl t)) else int (read_digits 10 t))"

lemma npf_utoa_rev_decimal: "c \<in> set (npf_utoa_rev val 10 ca) \<Longrightarrow> is_dec c"
proof (induction val "10 :: u64" ca rule: npf_utoa_rev.induct)
  case (1 val ca)
  have "\<forall>n \<in> set [0..<10]. is_dec (char_of (48 + n))" by code_simp
  moreover have "unat (val mod 10) \<in> set [0..<10]" by (simp add: unat_mod)
  ultimately have "is_dec (char_of (48 + unat (val mod 10)))" by blast
  moreover have "uint (val mod 10) < 10" by (simp add: uint_mod)
  ultimately have "is_dec (digit_char ca (val mod 10))" by (simp add: digit_char_def nat_add_distrib)
  then show ?case using 1 by (auto simp: npf_utoa_rev.simps [of val] split: if_splits)
qed

lemma read_signed_utoa:
  "read_signed (rev (npf_utoa_rev val 10 32)) = int (unat val)"
  "read_signed (CHR ''-'' # rev (npf_utoa_rev val 10 32)) = - int (unat val)"
proof -
  have ne: "npf_utoa_rev val 10 32 \<noteq> []" by (simp add: npf_utoa_rev.simps [of val])
  have "hd (rev (npf_utoa_rev val 10 32)) \<in> set (npf_utoa_rev val 10 32)" using ne by (simp add: hd_rev)
  then have "is_dec (hd (rev (npf_utoa_rev val 10 32)))" by (rule npf_utoa_rev_decimal)
  then have "hd (rev (npf_utoa_rev val 10 32)) \<noteq> CHR ''-''" by (auto simp: is_dec_def)
  then show "read_signed (rev (npf_utoa_rev val 10 32)) = int (unat val)"
    and "read_signed (CHR ''-'' # rev (npf_utoa_rev val 10 32)) = - int (unat val)"
    using npf_utoa_rev_value [of 10 32 val] by (simp_all add: read_signed_def)
qed

lemma negated_word: "val < 0 \<Longrightarrow> - (2 ^ 63) \<le> val \<Longrightarrow> int (unat (0 - (word_of_int val :: u64))) = - val"
proof -
  assume "val < 0" "- (2 ^ 63) \<le> val"
  then have "uint (word_of_int (- val) :: u64) = - val" unfolding uint_word_of_int by (intro mod_pos_pos_trivial) simp_all
  then show ?thesis by simp
qed

lemma print_ld:
  "npf_text ''%ld'' [ArgLong w] =
     Inr (if sint w < 0 then CHR ''-'' # rev (npf_utoa_rev (0 - w) 10 32) else rev (npf_utoa_rev w 10 32))"
proof -
  let ?fs = "spec_start\<lparr>length_modifier := NPF_FMT_SPEC_LEN_MOD_LONG, conv_spec := NPF_FMT_SPEC_CONV_SIGNED_INT\<rparr>"
  have p: "npf_parse_format_spec ''%ld'' = Some (?fs, [])" by code_simp
  have w: "word_of_int (sint w) = w" by simp
  have l: "length (npf_utoa_rev v 10 32) \<le> 23" "length (npf_utoa_rev v 10 32) \<le> 2147483648" for v
    using npf_utoa_rev_cbuf [of 10 v 32] by simp_all
  have "npf_field ?fs [ArgLong w] =
     Inr (if sint w < 0 then CHR ''-'' # rev (npf_utoa_rev (0 - w) 10 32) else rev (npf_utoa_rev w 10 32), [])"
    by (simp add: npf_field_def star_args_def npf_convert_def convert_signed_def extract_signed_def va_long_def va_arg_def
        km_defs Let_def spec_start_def w check_cbuf_def l NANOPRINTF_CONVERSION_BUFFER_SIZE_def npf_put_def pad_char_def payload_def prec_pad_def put_sign_def put_0x_def
        npf_max_def NUL_def no_text_def in_cbuf_def)
  then show ?thesis using p by simp
qed

lemma print_unsigned:
  assumes "(c, b) \<in> {(CHR ''u'', 10), (CHR ''x'', 16)}"
  shows "npf_text [CHR ''%'', CHR ''l'', c] [ArgLong w] = Inr (rev (npf_utoa_rev w b 32))"
proof -
  let ?fs = "\<lambda>conv. spec_start\<lparr>length_modifier := NPF_FMT_SPEC_LEN_MOD_LONG, conv_spec := conv\<rparr>"
  have p: "npf_parse_format_spec ''%lu'' = Some (?fs NPF_FMT_SPEC_CONV_UNSIGNED_INT, [])"
    "npf_parse_format_spec ''%lx'' = Some (?fs NPF_FMT_SPEC_CONV_HEX_INT, [])" by code_simp+
  have l: "length (npf_utoa_rev v b 32) \<le> 23" "length (npf_utoa_rev v b 32) \<le> 2147483648" for v
    using npf_utoa_rev_cbuf [of b v 32] assms by auto
  have "npf_field (?fs (if b = 10 then NPF_FMT_SPEC_CONV_UNSIGNED_INT else NPF_FMT_SPEC_CONV_HEX_INT)) [ArgLong w] =
      Inr (rev (npf_utoa_rev w b 32), [])"
    using assms l
    by (auto simp: npf_field_def star_args_def npf_convert_def convert_unsigned_def extract_unsigned_def va_long_def va_arg_def
        km_defs Let_def spec_start_def check_cbuf_def NANOPRINTF_CONVERSION_BUFFER_SIZE_def npf_put_def pad_char_def payload_def
        prec_pad_def put_sign_def put_0x_def npf_max_def NUL_def no_text_def in_cbuf_def)
  then show ?thesis using assms p by auto
qed

text \<open>C26: Numbers survive printing: reading the digits that \<open>%ld\<close>, \<open>%lu\<close> and \<open>%lx\<close> print for a 64-bit word gives
  back its signed and its unsigned value, for every word, the smallest negative number included.\<close>

theorem npf_number_roundtrip:
  "\<exists>d u x. npf_pprintf (\<lambda>c t. t @ [c]) [] ''%ld'' [ArgLong w] = Inr (int (length d), d) \<and> read_signed d = sint w \<and>
     npf_pprintf (\<lambda>c t. t @ [c]) [] ''%lu'' [ArgLong w] = Inr (int (length u), u) \<and> read_digits 10 u = unat w \<and>
     npf_pprintf (\<lambda>c t. t @ [c]) [] ''%lx'' [ArgLong w] = Inr (int (length x), x) \<and> read_digits 16 x = unat w"
proof -
  have collect: "fold (\<lambda>c t. t @ [c]) u v = v @ u" for u v :: string by (induction u arbitrary: v) simp_all
  have "read_signed (if sint w < 0 then CHR ''-'' # rev (npf_utoa_rev (0 - w) 10 32) else rev (npf_utoa_rev w 10 32)) = sint w"
  proof (cases "sint w < 0")
    case True
    have "int (unat (0 - (word_of_int (sint w) :: u64))) = - sint w"
      by (rule negated_word) (use True sint_range_size [of w] in \<open>simp_all add: size_word_def\<close>)
    then have "int (unat (0 - w)) = - sint w" by simp
    then show ?thesis using True by (simp only: read_signed_utoa if_True)
  next
    case False
    have "uint (word_of_int (sint w) :: u64) = sint w"
      unfolding uint_word_of_int
      by (rule mod_pos_pos_trivial) (use False sint_range_size [of w] in \<open>simp_all add: size_word_def\<close>)
    then have "int (unat w) = sint w" by simp
    then show ?thesis using False by (simp only: read_signed_utoa if_False)
  qed
  then show ?thesis
    using print_ld [of w] print_unsigned [of "CHR ''u''" 10 w] print_unsigned [of "CHR ''x''" 16 w]
      npf_utoa_rev_value [of 10 32 w] npf_utoa_rev_value [of 16 32 w]
    by (simp add: npf_pprintf_def npf_vpprintf_text collect del: npf_text.simps)
qed

end
