(* ===== verification/Log_Props.thy ===== *)
theory Log_Props
  imports Log Nanoprintf_Props
begin

text \<open>
  The ring of the log as a bounded queue, and what a call of \<open>printk\<close> leaves on the consoles.
\<close>

section \<open>A bounded queue\<close>

text \<open>
  The contract of the ring: adding to a full queue drops the new element, otherwise elements come out
  in the order they went in.
\<close>

locale bounded_fifo =
  fixes inv :: "'s \<Rightarrow> bool"
    and content :: "'s \<Rightarrow> 'a list"
    and put :: "'a \<Rightarrow> ('s, unit) km"
    and get :: "('s, 'b option) km"
    and payload_of :: "'b \<Rightarrow> 'a"
    and fits :: "'a \<Rightarrow> bool"
    and cap :: nat
  assumes capacity: "inv s \<Longrightarrow> length (content s) \<le> cap"
    and put: "inv s \<Longrightarrow> fits x \<Longrightarrow>
      runs_to (put x) s (\<lambda>_ t. inv t \<and> content t = (if length (content s) < cap then content s @ [x] else content s))"
    and get_empty: "inv s \<Longrightarrow> content s = [] \<Longrightarrow> runs_to get s (\<lambda>r t. r = None \<and> t = s)"
    and get_first: "inv s \<Longrightarrow> content s = x # xs \<Longrightarrow>
      runs_to get s (\<lambda>r t. \<exists>m. r = Some m \<and> payload_of m = x \<and> inv t \<and> content t = xs)"
begin

lemma put_all:
  "inv s \<Longrightarrow> list_all fits xs \<Longrightarrow>
   runs_to (kfor xs put) s (\<lambda>_ t. inv t \<and> content t = take cap (content s @ xs))"
proof (induction xs arbitrary: s)
  case Nil
  then show ?case using capacity [of s] by (simp add: wp)
next
  case (Cons x xs)
  have p: "runs_to (put x) s (\<lambda>_ t. inv t \<and> content t = (if length (content s) < cap then content s @ [x] else content s))"
    using Cons.prems by (intro put) simp_all
  show ?case
    unfolding runs_to_kfor_Cons
  proof (rule runs_to_mono [OF p], elim conjE)
    fix t
    assume t: "inv t" "content t = (if length (content s) < cap then content s @ [x] else content s)"
    have "take cap (content t @ xs) = take cap (content s @ x # xs)"
      using t(2) capacity [OF Cons.prems(1)] by (cases "length (content s) = cap") auto
    then show "runs_to (kfor xs put) t (\<lambda>_ t. inv t \<and> content t = take cap (content s @ x # xs))"
      using Cons.IH [OF t(1)] Cons.prems(2) by simp
  qed
qed

end

section \<open>The ring\<close>

definition ring_ok :: "logbuffer \<Rightarrow> bool" where
  "ring_ok lb \<longleftrightarrow> length (messages lb) = 1024 \<and> unat (lb_head lb) < 1024 \<and> unat (lb_tail lb) < 1024 \<and>
     list_all (\<lambda>m. length (msg_buf m) = MSG_BUF_SIZE) (messages lb)"

definition ring_count :: "logbuffer \<Rightarrow> nat" where
  "ring_count lb = (unat (lb_head lb) + 1024 - unat (lb_tail lb)) mod 1024"

definition msg_text :: "logmessage \<Rightarrow> string" where
  "msg_text m = take (msg_sz m) (msg_buf m)"

definition pending :: "logbuffer \<Rightarrow> string list" where
  "pending lb = map (\<lambda>i. msg_text (messages lb ! ((unat (lb_tail lb) + i) mod 1024))) [0..<ring_count lb]"

lemma ring_succ: "unat i < 1024 \<Longrightarrow> unat ((i + 1) AND (MSGS_SIZE - 1)) = (unat i + 1) mod 1024" for i :: u32
proof -
  assume i: "unat i < 1024"
  have "MSGS_SIZE - 1 = mask 10" by (simp add: MSGS_SIZE_def mask_eq_exp_minus_1)
  then have "unat ((i + 1) AND (MSGS_SIZE - 1)) = unat (i + 1) mod 1024"
    by (simp add: take_bit_eq_mod unat_mod flip: take_bit_eq_mask)
  moreover have "unat (i + 1) = unat i + 1" using i unat_add_lem [of i 1] by simp
  ultimately show ?thesis by simp
qed

lemma length_pending [simp]: "length (pending lb) = ring_count lb"
  by (simp add: pending_def)

lemma ring_count_le: "ring_count lb \<le> 1023"
  using mod_less_divisor [of 1024 "unat (lb_head lb) + 1024 - unat (lb_tail lb)"] by (simp add: ring_count_def)

lemma ring_dist: "h < 1024 \<Longrightarrow> t < 1024 \<Longrightarrow> (h + 1024 - t) mod 1024 = (if t \<le> h then h - t else h + 1024 - t)" for h t :: nat
  by (cases "t \<le> h") (simp_all add: mod_if)

lemma ring_next: "h < 1024 \<Longrightarrow> (h + 1) mod 1024 = (if h = 1023 then 0 else h + 1)" for h :: nat
  by (simp add: mod_if)

lemma ring_index: "t < 1024 \<Longrightarrow> i < 1024 \<Longrightarrow> (t + i) mod 1024 = (if t + i < 1024 then t + i else t + i - 1024)" for t i :: nat
  by (simp add: mod_if)

lemma ring_full:
  fixes h t :: nat
  assumes "h < 1024" "t < 1024"
  shows "(h + 1) mod 1024 = t \<longleftrightarrow> (h + 1024 - t) mod 1024 = 1023"
  unfolding ring_dist [OF assms] ring_next [OF assms(1)] using assms by auto

lemma ring_push:
  fixes h t :: nat
  assumes "h < 1024" "t < 1024" "(h + 1024 - t) mod 1024 < 1023"
  shows "((h + 1) mod 1024 + 1024 - t) mod 1024 = Suc ((h + 1024 - t) mod 1024)"
proof -
  have "(h + 1) mod 1024 < 1024" by simp
  from ring_dist [OF this assms(2)] ring_next [OF assms(1)] ring_dist [OF assms(1,2)] show ?thesis
    using assms by (auto split: if_splits)
qed

lemma ring_pop:
  fixes h t :: nat
  assumes "h < 1024" "t < 1024" "h \<noteq> t"
  shows "(h + 1024 - t) mod 1024 = Suc ((h + 1024 - (t + 1) mod 1024) mod 1024)"
proof -
  have "(t + 1) mod 1024 < 1024" by simp
  from ring_dist [OF assms(1) this] ring_next [OF assms(2)] ring_dist [OF assms(1,2)] show ?thesis
    using assms by (auto split: if_splits)
qed

lemma ring_slot:
  fixes h t i :: nat
  assumes "h < 1024" "t < 1024" "i \<le> (h + 1024 - t) mod 1024"
  shows "(t + i) mod 1024 = h \<longleftrightarrow> i = (h + 1024 - t) mod 1024"
proof -
  have "i < 1024" using assms(3) mod_less_divisor [of 1024 "h + 1024 - t"] by linarith
  from ring_index [OF assms(2) this] show ?thesis using assms unfolding ring_dist [OF assms(1,2)] by (auto split: if_splits)
qed

lemma ring_end: "h < 1024 \<Longrightarrow> t < 1024 \<Longrightarrow> (t + (h + 1024 - t) mod 1024) mod 1024 = h" for h t :: nat
  using ring_slot [of h t "(h + 1024 - t) mod 1024"] by blast

lemma logbuffer_write_ok:
  assumes ok: "ring_ok lb" and len: "length str < MSG_BUF_SIZE"
  shows "runs_to (logbuffer_write (str @ rest) (length str)) lb (\<lambda>_ lb'. ring_ok lb' \<and>
    pending lb' = (if length (pending lb) < 1023 then pending lb @ [str] else pending lb))"
proof -
  let ?h = "unat (lb_head lb)" and ?t = "unat (lb_tail lb)"
  have ht: "?h < 1024" "?t < 1024" and ml: "length (messages lb) = 1024" using ok by (simp_all add: ring_ok_def)
  show ?thesis
  proof (cases "(lb_head lb + 1) AND (MSGS_SIZE - 1) = lb_tail lb")
    case True
    then have "ring_count lb = 1023" using ring_succ [OF ht(1)] ring_full [OF ht] by (simp add: ring_count_def)
    then show ?thesis using True ok by (simp add: logbuffer_write_def wp)
  next
    case False
    then have "(?h + 1) mod 1024 \<noteq> ?t" using ring_succ [OF ht(1)] by (simp add: word_unat_eq_iff)
    then have c: "ring_count lb < 1023"
      using ring_full [OF ht] ring_count_le [of lb] by (simp add: ring_count_def)
    define lb' where "lb' = lb\<lparr>lb_head := (lb_head lb + 1) AND (MSGS_SIZE - 1),
      messages := (messages lb)[?h := fill_message (str @ rest) (length str) (messages lb ! ?h)]\<rparr>"
    have h': "unat (lb_head lb') = (?h + 1) mod 1024" using ring_succ [OF ht(1)] by (simp add: lb'_def)
    have run: "runs_to (logbuffer_write (str @ rest) (length str)) lb (\<lambda>_ x. x = lb')"
      using False len by (simp add: logbuffer_write_def wp lb'_def)
    have "length (msg_buf (messages lb ! ?h)) = MSG_BUF_SIZE" using ok ht by (simp add: ring_ok_def list_all_length)
    then have ok': "ring_ok lb'" using ok ht h' len
      by (auto simp: ring_ok_def lb'_def list_all_length nth_list_update fill_message_def)
    have c': "ring_count lb' = Suc (ring_count lb)"
      using ring_push [OF ht] c h' by (simp add: ring_count_def lb'_def)
    have same: "messages lb' ! ((?t + i) mod 1024) = messages lb ! ((?t + i) mod 1024)" if "i < ring_count lb" for i
      using ring_slot [OF ht, of i] that by (simp add: lb'_def ring_count_def del: mod_add_self2 mod_add_self1)
    have new: "msg_text (messages lb' ! ((?t + ring_count lb) mod 1024)) = str"
      using ring_end [OF ht] ht ml by (simp add: lb'_def ring_count_def fill_message_def msg_text_def)
    have tail: "lb_tail lb' = lb_tail lb" by (simp add: lb'_def)
    have "pending lb' = pending lb @ [str]"
      unfolding pending_def c' tail using new same by simp
    then show ?thesis using runs_to_mono [OF run] ok' c by (simp add: pending_def)
  qed
qed

lemma logbuffer_read_empty: "ring_ok lb \<Longrightarrow> pending lb = [] \<Longrightarrow> runs_to logbuffer_read lb (\<lambda>r lb'. r = None \<and> lb' = lb)"
proof -
  assume ok: "ring_ok lb" and e: "pending lb = []"
  have ht: "unat (lb_head lb) < 1024" "unat (lb_tail lb) < 1024" using ok by (simp_all add: ring_ok_def)
  have "ring_count lb = 0" using e length_pending [of lb] by simp
  then have "unat (lb_head lb) = unat (lb_tail lb)" using ring_end [OF ht] ht by (simp add: ring_count_def)
  then have "lb_tail lb = lb_head lb" by (simp add: word_unat_eq_iff)
  then show ?thesis by (simp add: logbuffer_read_def wp)
qed

lemma logbuffer_read_first:
  assumes ok: "ring_ok lb" and p: "pending lb = x # xs"
  shows "runs_to logbuffer_read lb (\<lambda>r lb'. \<exists>m. r = Some m \<and> msg_text m = x \<and> ring_ok lb' \<and> pending lb' = xs)"
proof -
  let ?h = "unat (lb_head lb)" and ?t = "unat (lb_tail lb)"
  have ht: "?h < 1024" "?t < 1024" using ok by (simp_all add: ring_ok_def)
  have c: "ring_count lb = Suc (length xs)" using p length_pending [of lb] by simp
  then have ne: "lb_tail lb \<noteq> lb_head lb" by (auto simp: ring_count_def)
  then have "?h \<noteq> ?t" by (simp add: word_unat_eq_iff)
  define lb' where "lb' = lb\<lparr>lb_tail := (lb_tail lb + 1) AND (MSGS_SIZE - 1)\<rparr>"
  have t': "unat (lb_tail lb') = (?t + 1) mod 1024" using ring_succ [OF ht(2)] by (simp add: lb'_def)
  have c': "ring_count lb' = length xs"
    using ring_pop [OF ht \<open>?h \<noteq> ?t\<close>] c by (simp add: ring_count_def t') (simp add: lb'_def)
  have "runs_to logbuffer_read lb (\<lambda>r x. r = Some (messages lb ! ?t) \<and> x = lb')"
    using ne by (simp add: logbuffer_read_def wp lb'_def)
  moreover have "ring_ok lb'" using ok t' by (simp add: ring_ok_def) (simp add: lb'_def)
  moreover have "pending lb = msg_text (messages lb ! ?t) # pending lb'"
  proof -
    have "[0..<Suc (length xs)] = 0 # map Suc [0..<length xs]" by (simp add: upt_conv_Cons map_Suc_upt del: upt_Suc)
    moreover have "((?t + 1) mod 1024 + i) mod 1024 = (?t + Suc i) mod 1024" for i by (simp add: mod_simps)
    moreover have "messages lb' = messages lb" by (simp add: lb'_def)
    ultimately show ?thesis using ht unfolding pending_def c c' t' by (simp add: comp_def del: upt_Suc)
  qed
  ultimately show ?thesis using p by (auto elim: runs_to_mono)
qed

interpretation log_ring: bounded_fifo ring_ok pending "\<lambda>t. logbuffer_write t (length t)" logbuffer_read msg_text
  "\<lambda>t. length t < MSG_BUF_SIZE" 1023
proof unfold_locales
  show "length (pending s) \<le> 1023" for s using ring_count_le by simp
  show "runs_to (logbuffer_write x (length x)) s (\<lambda>_ t. ring_ok t \<and>
      pending t = (if length (pending s) < 1023 then pending s @ [x] else pending s))"
    if "ring_ok s" "length x < MSG_BUF_SIZE" for s x
    using logbuffer_write_ok [OF that, of "[]"] by simp
qed (auto intro: logbuffer_read_empty logbuffer_read_first)

section \<open>Delivery to the consoles\<close>

definition give :: "string list \<Rightarrow> console \<Rightarrow> console" where
  "give ts c = (if has_write c then c\<lparr>written := written c @ ts\<rparr> else c)"

lemma give_simps [simp]:
  "con_lock (give ts c) = con_lock c" "has_write (give ts c) = has_write c"
  "written (give ts c) = (if has_write c then written c @ ts else written c)"
  by (simp_all add: give_def)

definition delivered :: "string list \<Rightarrow> log_state \<Rightarrow> log_state" where
  "delivered ts s = s\<lparr>consoles := (\<lambda>i. if i \<in> set (console_list s) then give ts (consoles s i) else consoles s i)\<rparr>"

definition consoles_ready :: "log_state \<Rightarrow> bool" where
  "consoles_ready s \<longleftrightarrow> \<not> console_list_lock s \<and> distinct (console_list s) \<and>
     list_all (\<lambda>i. \<not> con_lock (consoles s i)) (console_list s)"

lemma give_unlock: "\<not> con_lock c \<Longrightarrow> con_lock_update (\<lambda>_. False) (written_update f c) = c\<lparr>written := f (written c)\<rparr>"
  by (cases c) simp

lemma runs_to_console_write:
  "\<not> con_lock (consoles s i) \<Longrightarrow>
   runs_to (console_write buf sz i) s (\<lambda>_ t. t = upd_console i (give [take sz buf]) s)"
  by (auto simp: console_write_def con_acquire_def con_release_def wp upd_console_def give_def give_unlock)

lemma runs_to_console_writes:
  assumes "distinct elms" and "\<And>i. i \<in> set elms \<Longrightarrow> \<not> con_lock (consoles s i)"
  shows "runs_to (kfor elms (console_write buf sz)) s
    (\<lambda>_ t. t = s\<lparr>consoles := (\<lambda>i. if i \<in> set elms then give [take sz buf] (consoles s i) else consoles s i)\<rparr>)"
  using assms
proof (induction elms arbitrary: s)
  case Nil
  then show ?case by (simp add: wp)
next
  case (Cons i elms)
  let ?s = "upd_console i (give [take sz buf]) s"
  have "\<not> con_lock (consoles ?s j)" if "j \<in> set elms" for j
    using Cons.prems that by (auto simp: upd_console_def give_def)
  note IH = Cons.IH [OF _ this]
  have eq: "?s\<lparr>consoles := (\<lambda>j. if j \<in> set elms then give [take sz buf] (consoles ?s j) else consoles ?s j)\<rparr> =
      s\<lparr>consoles := (\<lambda>j. if j \<in> set (i # elms) then give [take sz buf] (consoles s j) else consoles s j)\<rparr>"
    using Cons.prems(1) by (auto simp: upd_console_def fun_eq_iff)
  show ?case
    unfolding runs_to_kfor_Cons
    by (rule runs_to_mono [OF runs_to_console_write]) (use Cons.prems IH eq in simp_all)
qed

lemma runs_to_consoles_write:
  assumes "consoles_ready s"
  shows "runs_to (printk_consoles_write buf sz) s (\<lambda>_ t. t = delivered [take sz buf] s)"
proof -
  let ?s = "s\<lparr>ints := False, console_list_lock := True\<rparr>"
  have w: "runs_to (kfor (console_list s) (console_write buf sz)) ?s (\<lambda>_ t. t = ?s\<lparr>consoles :=
      (\<lambda>i. if i \<in> set (console_list s) then give [take sz buf] (consoles ?s i) else consoles ?s i)\<rparr>)"
    by (rule runs_to_console_writes) (use assms in \<open>auto simp: consoles_ready_def list_all_iff\<close>)
  have "runs_to (kfor (console_list s) (console_write buf sz)) ?s
      (\<lambda>_ t. t\<lparr>console_list_lock := False, ints := ints s\<rparr> = delivered [take sz buf] s)"
    by (rule runs_to_mono [OF w])
      (use assms in \<open>simp_all add: delivered_def consoles_ready_def cong: if_cong\<close>)
  then show ?thesis
    using assms by (simp add: printk_consoles_write_def spinlock_try_lock_intr_def wp consoles_ready_def)
qed

lemma delivered_simps [simp]:
  "g_lb (delivered ts s) = g_lb s" "console_list (delivered ts s) = console_list s"
  "print_lock (delivered ts s) = print_lock s" "ints (delivered ts s) = ints s"
  "console_list_lock (delivered ts s) = console_list_lock s"
  by (simp_all add: delivered_def)

lemma delivered_ready [simp]: "consoles_ready (delivered ts s) = consoles_ready s"
  by (auto simp: consoles_ready_def delivered_def give_def list_all_iff)

lemma ready_lb [simp]: "consoles_ready (s\<lparr>g_lb := lb\<rparr>) = consoles_ready s"
  by (simp add: consoles_ready_def)

lemma delivered_twice [simp]: "delivered us (delivered ts s) = delivered (ts @ us) s"
  by (simp add: delivered_def give_def fun_eq_iff)

lemma delivered_lb [simp]: "delivered ts (s\<lparr>g_lb := lb\<rparr>) = (delivered ts s)\<lparr>g_lb := lb\<rparr>"
  by (simp add: delivered_def cong: if_cong)

lemma give_Nil [simp]: "give [] c = c"
  by (simp add: give_def)

lemma delivered_Nil [simp]: "delivered [] s = s"
  by (simp add: delivered_def cong: if_cong)

lemma runs_to_on_ring: "runs_to (on_ring m) s Q \<longleftrightarrow> runs_to m (g_lb s) (\<lambda>x lb. Q x (s\<lparr>g_lb := lb\<rparr>))"
  by (auto simp: runs_to_def on_ring_def split: sum.splits)

lemma runs_to_buffer_write:
  assumes "ring_ok (g_lb s)" and "consoles_ready s" and "length (pending (g_lb s)) < fuel"
  shows "runs_to (printk_buffer_write fuel) s (\<lambda>_ t. \<exists>lb. t = (delivered (pending (g_lb s)) s)\<lparr>g_lb := lb\<rparr> \<and>
    ring_ok lb \<and> pending lb = [])"
  using assms
proof (induction fuel arbitrary: s)
  case (Suc fuel)
  show ?case
  proof (cases "pending (g_lb s)")
    case Nil
    have r: "runs_to logbuffer_read (g_lb s) (\<lambda>r lb'. r = None \<and> lb' = g_lb s)"
      using logbuffer_read_empty [OF Suc.prems(1) Nil] .
    show ?thesis
      unfolding printk_buffer_write.simps runs_to_kbind runs_to_on_ring
      by (rule runs_to_mono [OF r]) (use Suc.prems(1) Nil in \<open>auto simp: wp intro: exI [of _ "g_lb s"]\<close>)
  next
    case (Cons x xs)
    let ?Q = "\<lambda>_ t. \<exists>lb. t = (delivered (pending (g_lb s)) s)\<lparr>g_lb := lb\<rparr> \<and> ring_ok lb \<and> pending lb = []"
    have rest: "runs_to (kthen (printk_consoles_write (msg_buf m) (msg_sz m)) (printk_buffer_write fuel)) (s\<lparr>g_lb := lb\<rparr>) ?Q"
      if "msg_text m = x" "ring_ok lb" "pending lb = xs" for m lb
    proof -
      let ?s = "delivered [x] (s\<lparr>g_lb := lb\<rparr>)"
      have ready: "consoles_ready (s\<lparr>g_lb := lb\<rparr>)" using Suc.prems(2) by (simp add: consoles_ready_def)
      have w: "runs_to (printk_consoles_write (msg_buf m) (msg_sz m)) (s\<lparr>g_lb := lb\<rparr>) (\<lambda>_ t. t = ?s)"
        using runs_to_consoles_write [OF ready, of "msg_buf m" "msg_sz m"] that(1) by (simp add: msg_text_def)
      have rest: "runs_to (printk_buffer_write fuel) ?s ?Q"
        by (rule runs_to_mono [OF Suc.IH]) (use that ready Suc.prems(2,3) Cons in auto)
      show ?thesis unfolding runs_to_kthen by (rule runs_to_mono [OF w]) (use rest in simp)
    qed
    have r: "runs_to logbuffer_read (g_lb s) (\<lambda>r lb'. \<exists>m. r = Some m \<and> msg_text m = x \<and> ring_ok lb' \<and> pending lb' = xs)"
      using logbuffer_read_first [OF Suc.prems(1) Cons] .
    show ?thesis
      unfolding printk_buffer_write.simps runs_to_kbind runs_to_on_ring
      by (rule runs_to_mono [OF r]) (auto intro: rest)
  qed
qed simp

section \<open>A call of printk\<close>

lemma npf_text_plain: "CHR ''%'' \<notin> set p \<Longrightarrow> npf_text p args = Inr p"
  by (induction p) auto

lemma level_prefix_plain:
  assumes "level_prefix lvl = Some p"
  shows "npf_text p [] = Inr p" and "length p = 19"
proof -
  have "p \<in> {LOG_SPAM, LOG_DEBUG, LOG_TRACE, LOG_INFO, LOG_WARN, LOG_ERR, LOG_PANIC}"
    using assms by (auto simp: level_prefix_def split: if_splits)
  then show "npf_text p [] = Inr p" and "length p = 19"
    by (auto intro!: npf_text_plain simp: log_prefix_def LOG_SPAM_def LOG_DEBUG_def LOG_TRACE_def LOG_INFO_def
        LOG_WARN_def LOG_ERR_def LOG_PANIC_def)
qed

text \<open>The prefix and the format of a message after its level.\<close>

definition prefix_of :: "string \<Rightarrow> string" where
  "prefix_of fmt = (case level_prefix (of_char (at fmt)) of None \<Rightarrow> [] | Some p \<Rightarrow> p)"

definition body_of :: "string \<Rightarrow> string" where
  "body_of fmt = (if level_prefix (of_char (at fmt)) = None then fmt else tl fmt)"

definition filtered :: "nat \<Rightarrow> string \<Rightarrow> bool" where
  "filtered LOG_LEVEL fmt \<longleftrightarrow> (let lvl = of_char (at fmt) in lvl \<ge> 1 \<and> lvl \<le> 6 \<and> lvl < LOG_LEVEL)"

lemma prefix_length: "length (prefix_of fmt) \<le> 19"
  using level_prefix_plain(2) by (auto simp: prefix_of_def split: option.splits)

lemma prefix_stage:
  assumes "length garbage = MSG_BUF_SIZE + 1"
  obtains b where "(case level_prefix (of_char (at fmt)) of
        None \<Rightarrow> kreturn (0, Some (garbage[MSG_BUF_SIZE := NUL]))
      | Some p \<Rightarrow> kresult (npf_snprintf (Some (garbage[MSG_BUF_SIZE := NUL])) MSG_BUF_SIZE p [])) =
      (kreturn (int (length (prefix_of fmt)), Some b) :: (log_state, int \<times> string option) km)"
    and "length b = MSG_BUF_SIZE + 1" and "take (length (prefix_of fmt)) b = prefix_of fmt"
proof (cases "level_prefix (of_char (at fmt))")
  case None
  then show ?thesis using that [of "garbage[MSG_BUF_SIZE := NUL]"] assms by (simp add: prefix_of_def)
next
  case (Some p)
  note p = level_prefix_plain [OF Some]
  obtain b where b: "npf_vsnprintf (Some (garbage[MSG_BUF_SIZE := NUL])) MSG_BUF_SIZE p [] = Inr (int (length p), Some b)"
    "length b = MSG_BUF_SIZE + 1" "take (min (length p) (MSG_BUF_SIZE - 1)) b = take (MSG_BUF_SIZE - 1) p"
    using npf_vsnprintf_text [OF p(1), of MSG_BUF_SIZE "garbage[MSG_BUF_SIZE := NUL]"] assms
    by (auto simp: MSG_BUF_SIZE_def)
  then show ?thesis using that [of b] Some p by (simp add: prefix_of_def npf_snprintf_def kresult_def MSG_BUF_SIZE_def)
qed

lemma body_stage:
  assumes "npf_text (body_of fmt) args = Inr t" and "length b = MSG_BUF_SIZE + 1"
    and "take (length (prefix_of fmt)) b = prefix_of fmt"
  obtains b' where "npf_vsnprintf (Some (drop (length (prefix_of fmt)) b)) (MSG_BUF_SIZE - length (prefix_of fmt)) (body_of fmt) args =
      Inr (int (length t), Some b')"
    and "length (prefix_of fmt) + length t < MSG_BUF_SIZE \<Longrightarrow>
      \<exists>rest. take (length (prefix_of fmt)) b @ b' = (prefix_of fmt @ t) @ rest"
proof -
  let ?n = "length (prefix_of fmt)"
  have n: "?n \<le> 19" by (rule prefix_length)
  obtain b' where b: "npf_vsnprintf (Some (drop ?n b)) (MSG_BUF_SIZE - ?n) (body_of fmt) args = Inr (int (length t), Some b')"
    "take (min (length t) (MSG_BUF_SIZE - ?n - 1)) b' = take (MSG_BUF_SIZE - ?n - 1) t"
    using npf_vsnprintf_text [OF assms(1), of "MSG_BUF_SIZE - ?n" "drop ?n b"] assms(2) n
    by (auto simp: MSG_BUF_SIZE_def diff_le_mono)
  have "\<exists>rest. take ?n b @ b' = (prefix_of fmt @ t) @ rest" if "?n + length t < MSG_BUF_SIZE"
  proof -
    have "length t \<le> MSG_BUF_SIZE - ?n - 1" using that by linarith
    then have "take (length t) b' = t" using b(2) by (simp add: min_absorb1)
    then have "b' = t @ drop (length t) b'" by (metis append_take_drop_id)
    then show ?thesis using assms(3) by (metis append_assoc)
  qed
  then show ?thesis using that b(1) by blast
qed

lemma unlock_delivered:
  "\<not> print_lock s \<Longrightarrow> (delivered ts (s\<lparr>ints := False, print_lock := True, g_lb := lb\<rparr>))\<lparr>g_lb := lb', print_lock := False, ints := ints s\<rparr> =
     (delivered ts s)\<lparr>g_lb := lb'\<rparr>"
  by (cases s) (simp add: delivered_def cong: if_cong)

lemma runs_to_printk:
  assumes ok: "ring_ok (g_lb s)" "consoles_ready s" "\<not> print_lock s" "length (pending (g_lb s)) < 1023"
    and fmtd: "npf_text (body_of fmt) args = Inr t" "length (prefix_of fmt) + length t < MSG_BUF_SIZE"
    and call: "\<not> filtered LOG_LEVEL fmt" "length garbage = MSG_BUF_SIZE + 1"
  shows "runs_to (printk LOG_LEVEL garbage fmt args) s (\<lambda>_ u. \<exists>lb.
    u = (delivered (pending (g_lb s) @ [prefix_of fmt @ t]) s)\<lparr>g_lb := lb\<rparr> \<and> ring_ok lb \<and> pending lb = [])"
proof -
  let ?p = "prefix_of fmt"
  let ?s = "s\<lparr>ints := False, print_lock := True\<rparr>"
  obtain b where b: "(case level_prefix (of_char (at fmt)) of
        None \<Rightarrow> kreturn (0, Some (garbage[MSG_BUF_SIZE := NUL]))
      | Some p \<Rightarrow> kresult (npf_snprintf (Some (garbage[MSG_BUF_SIZE := NUL])) MSG_BUF_SIZE p [])) =
      (kreturn (int (length ?p), Some b) :: (log_state, int \<times> string option) km)" "length b = MSG_BUF_SIZE + 1" "take (length ?p) b = ?p"
    using prefix_stage [OF call(2)] .
  obtain b' rest where b': "npf_vsnprintf (Some (drop (length ?p) b)) (MSG_BUF_SIZE - length ?p) (body_of fmt) args =
      Inr (int (length t), Some b')" "?p @ b' = (?p @ t) @ rest"
    using body_stage [OF fmtd(1) b(2,3)] fmtd(2) b(3) by metis
  have w: "runs_to (logbuffer_write (?p @ b') (length ?p + length t)) (g_lb ?s) (\<lambda>_ lb. ring_ok lb \<and> pending lb = pending (g_lb s) @ [?p @ t])"
    unfolding b'(2) using logbuffer_write_ok [OF ok(1), of "?p @ t" rest] fmtd(2) ok(4) by simp
  have rest: "runs_to (printk_buffer_write (unat MSGS_SIZE)) (?s\<lparr>g_lb := lb\<rparr>)
      (\<lambda>_ t'. \<exists>lb'. t'\<lparr>print_lock := False, ints := ints s\<rparr> =
        (delivered (pending (g_lb s) @ [?p @ t]) s)\<lparr>g_lb := lb'\<rparr> \<and> ring_ok lb' \<and> pending lb' = [])"
    if lb: "ring_ok lb" "pending lb = pending (g_lb s) @ [?p @ t]" for lb
  proof (rule runs_to_mono [OF runs_to_buffer_write])
    show "length (pending (g_lb (?s\<lparr>g_lb := lb\<rparr>))) < unat MSGS_SIZE"
      using ring_count_le [of lb] by (simp add: MSGS_SIZE_def)
    fix u v
    assume "\<exists>lb'. v = delivered (pending (g_lb (?s\<lparr>g_lb := lb\<rparr>))) (?s\<lparr>g_lb := lb\<rparr>)\<lparr>g_lb := lb'\<rparr> \<and> ring_ok lb' \<and> pending lb' = []"
    then obtain lb' where v: "v = delivered (pending lb) (?s\<lparr>g_lb := lb\<rparr>)\<lparr>g_lb := lb'\<rparr>" "ring_ok lb'" "pending lb' = []"
      by (auto simp del: delivered_lb)
    then show "\<exists>lb'. v\<lparr>print_lock := False, ints := ints s\<rparr> =
        (delivered (pending (g_lb s) @ [?p @ t]) s)\<lparr>g_lb := lb'\<rparr> \<and> ring_ok lb' \<and> pending lb' = []"
      using unlock_delivered [OF ok(3), where ts = "pending lb" and lb = lb and lb' = lb'] lb(2) by auto
  qed (use lb ok in \<open>auto simp: consoles_ready_def\<close>)
  have "runs_to (on_ring (logbuffer_write (?p @ b') (length ?p + length t))) ?s
      (\<lambda>_ u. runs_to (printk_buffer_write (unat MSGS_SIZE)) u (\<lambda>_ t'. \<exists>lb'. t'\<lparr>print_lock := False, ints := ints s\<rparr> =
        (delivered (pending (g_lb s) @ [?p @ t]) s)\<lparr>g_lb := lb'\<rparr> \<and> ring_ok lb' \<and> pending lb' = []))"
    unfolding runs_to_on_ring by (rule runs_to_mono [OF w]) (use rest in auto)
  then show ?thesis
    unfolding printk_def Let_def b(1)
    using call(1) [unfolded filtered_def Let_def] ok(3) b(3) b'(1)
    by (simp add: wp kresult_def body_of_def [symmetric]) blast
qed

lemma collect_text: "npf_vpprintf (\<lambda>c t. t @ [c]) [] format args = Inr (n, t) \<Longrightarrow> npf_text format args = Inr t"
proof -
  have "fold (\<lambda>c t. t @ [c]) u v = v @ u" for u v :: string by (induction u arbitrary: v) simp_all
  then show "npf_vpprintf (\<lambda>c t. t @ [c]) [] format args = Inr (n, t) \<Longrightarrow> npf_text format args = Inr t"
    by (cases "npf_text format args") (simp_all add: npf_vpprintf_text)
qed

section \<open>Properties\<close>

text \<open>C27: The ring of the log is a bounded queue: it keeps messages in the order they were written and holds 1023 of
  them. Writing any number of messages that fit a slot never fails; those that find the ring full are
  dropped, and what is stored is never overwritten before it is read.\<close>

theorem log_ring_is_bounded_fifo:
  assumes "ring_ok lb" and "list_all (\<lambda>t. length t < MSG_BUF_SIZE) ts"
  shows "runs_to (kfor ts (\<lambda>t. logbuffer_write t (length t))) lb
    (\<lambda>_ lb'. ring_ok lb' \<and> pending lb' = take 1023 (pending lb @ ts))"
  using assms by (rule log_ring.put_all)

theorem log_ring_is_bounded_fifo_witness:
  "runs_to (kfor [''a'', ''bc''] (\<lambda>t. logbuffer_write t (length t)))
     (logbuffer_init \<lparr>messages = [], lb_head = 7, lb_tail = 5, lb_seq = 1\<rparr>)
     (\<lambda>_ lb'. ring_ok lb' \<and> pending lb' = [''a'', ''bc''])"
proof -
  let ?lb = "logbuffer_init \<lparr>messages = [], lb_head = 7, lb_tail = 5, lb_seq = 1\<rparr>"
  have "ring_ok ?lb" "pending ?lb = []"
    by (simp_all add: ring_ok_def logbuffer_init_def list_all_length pending_def ring_count_def MSGS_SIZE_def)
  then show ?thesis using log_ring_is_bounded_fifo [of ?lb "[''a'', ''bc'']"] by (simp add: MSG_BUF_SIZE_def)
qed

text \<open>C28: A call of \<open>printk\<close> with a level that is not filtered out delivers its message, prefixed with its level, to
  every registered console that can write, after the messages that were still waiting, and to no
  other console. Afterwards the ring is empty, both locks are free again and the interrupt flag is
  what it was before the call.\<close>

theorem printk_delivers:
  assumes "ring_ok (g_lb s)" and "consoles_ready s" and "\<not> print_lock s" and "length (pending (g_lb s)) < 1023"
    and "npf_vpprintf (\<lambda>c t. t @ [c]) [] (body_of fmt) args = Inr (n, t)"
    and "length (prefix_of fmt) + length t < MSG_BUF_SIZE"
    and "\<not> filtered LOG_LEVEL fmt" and "length garbage = MSG_BUF_SIZE + 1"
  shows "runs_to (printk LOG_LEVEL garbage fmt args) s (\<lambda>_ u.
    pending (g_lb u) = [] \<and> ring_ok (g_lb u) \<and> \<not> print_lock u \<and> consoles_ready u \<and> ints u = ints s \<and>
    (\<forall>i. written (consoles u i) =
      (if i \<in> set (console_list s) \<and> has_write (consoles s i)
       then written (consoles s i) @ pending (g_lb s) @ [prefix_of fmt @ t] else written (consoles s i))))"
  by (rule runs_to_mono [OF runs_to_printk [OF assms(1-4) collect_text [OF assms(5)] assms(6-8)]])
    (use assms(2,3) in \<open>auto simp: delivered_def consoles_ready_def list_all_iff\<close>)

definition demo_log :: log_state where
  "demo_log = \<lparr>g_lb = logbuffer_init \<lparr>messages = [], lb_head = 0, lb_tail = 0, lb_seq = 0\<rparr>, console_list = [1],
     consoles = (\<lambda>_. \<lparr>has_write = True, con_lock = False, written = []\<rparr>), console_list_lock = False,
     print_lock = False, ints = True\<rparr>"

lemma demo_log_ok: "ring_ok (g_lb demo_log)" "pending (g_lb demo_log) = []" "consoles_ready demo_log" "\<not> print_lock demo_log"
  by (simp_all add: ring_ok_def logbuffer_init_def list_all_length pending_def ring_count_def MSGS_SIZE_def demo_log_def
      consoles_ready_def)

theorem printk_delivers_witness:
  "runs_to (printk 4 (replicate 513 CHR ''?'') (CHR 0x04 # ''added %ld symbols'') [ArgLong 2]) demo_log
     (\<lambda>_ u. written (consoles u 1) = [LOG_INFO @ ''added 2 symbols''] \<and> written (consoles u 2) = [])"
proof -
  let ?fmt = "CHR 0x04 # ''added %ld symbols''"
  have fmt: "body_of ?fmt = ''added %ld symbols''" "prefix_of ?fmt = LOG_INFO" "\<not> filtered 4 ?fmt"
    by (simp_all add: body_of_def prefix_of_def filtered_def at_def level_prefix_def)
  have t: "npf_vpprintf (\<lambda>c t. t @ [c]) [] ''added %ld symbols'' [ArgLong 2] = Inr (15, ''added 2 symbols'')" by code_simp
  show ?thesis
    by (rule runs_to_mono [OF printk_delivers [OF demo_log_ok(1,3,4), of ?fmt "[ArgLong 2]" 15 "''added 2 symbols''"]])
      (use fmt t demo_log_ok in \<open>simp_all add: LOG_INFO_def log_prefix_def MSG_BUF_SIZE_def, simp_all add: demo_log_def\<close>)
qed

text \<open>C29: A message of 512 characters or more, prefix included, is not cut off: \<open>printk\<close> stops the kernel with a
  failed assertion, because the formatter returns the length the text would have had and not the
  length it stored.\<close>

theorem printk_long_message_asserts:
  assumes "ring_ok (g_lb s)" and "\<not> print_lock s" and "length (pending (g_lb s)) < 1023"
    and "npf_vpprintf (\<lambda>c t. t @ [c]) [] (body_of fmt) args = Inr (n, t)"
    and "MSG_BUF_SIZE \<le> length (prefix_of fmt) + length t"
    and "\<not> filtered LOG_LEVEL fmt" and "length garbage = MSG_BUF_SIZE + 1"
  shows "printk LOG_LEVEL garbage fmt args s = Inl (AssertFail ''size < MSG_BUF_SIZE'')"
proof -
  let ?p = "prefix_of fmt"
  obtain b where b: "(case level_prefix (of_char (at fmt)) of
        None \<Rightarrow> kreturn (0, Some (garbage[MSG_BUF_SIZE := NUL]))
      | Some p \<Rightarrow> kresult (npf_snprintf (Some (garbage[MSG_BUF_SIZE := NUL])) MSG_BUF_SIZE p [])) =
      (kreturn (int (length ?p), Some b) :: (log_state, int \<times> string option) km)" "length b = MSG_BUF_SIZE + 1" "take (length ?p) b = ?p"
    using prefix_stage [OF assms(7)] .
  obtain b' where b': "npf_vsnprintf (Some (drop (length ?p) b)) (MSG_BUF_SIZE - length ?p) (body_of fmt) args =
      Inr (int (length t), Some b')"
    using body_stage [OF collect_text [OF assms(4)] b(2,3)] by metis
  have ht: "unat (lb_head (g_lb s)) < 1024" "unat (lb_tail (g_lb s)) < 1024" using assms(1) by (simp_all add: ring_ok_def)
  have "(unat (lb_head (g_lb s)) + 1) mod 1024 \<noteq> unat (lb_tail (g_lb s))"
    using ring_full [OF ht] assms(3) by (simp add: ring_count_def)
  then have "(lb_head (g_lb s) + 1) AND (MSGS_SIZE - 1) \<noteq> lb_tail (g_lb s)" using ring_succ [OF ht(1)] by auto
  then have w: "logbuffer_write (?p @ b') (length ?p + length t) (g_lb s) = Inl (AssertFail ''size < MSG_BUF_SIZE'')"
    using assms(5) by (simp add: logbuffer_write_def km_defs)
  show ?thesis
    unfolding printk_def Let_def b(1)
    using assms(2) assms(6) [unfolded filtered_def Let_def] b(3) b' w
    by (simp add: kresult_def body_of_def [symmetric] km_defs on_ring_def
        spinlock_acquire_intr_def port_set_ints_def spinlock_acquire_def)
qed

theorem printk_long_message_asserts_witness:
  "printk 4 (replicate 513 CHR ''?'') (CHR 0x04 # ''%600s'') [ArgString ''x''] demo_log =
     Inl (AssertFail ''size < MSG_BUF_SIZE'')"
proof -
  let ?fmt = "CHR 0x04 # ''%600s''"
  have fmt: "body_of ?fmt = ''%600s''" "prefix_of ?fmt = LOG_INFO" "\<not> filtered 4 ?fmt"
    by (simp_all add: body_of_def prefix_of_def filtered_def at_def level_prefix_def)
  let ?fs = "spec_start\<lparr>field_width := 600, field_width_opt := NPF_FMT_SPEC_OPT_LITERAL, conv_spec := NPF_FMT_SPEC_CONV_STRING\<rparr>"
  let ?t = "replicate 599 CHR '' '' @ ''x''"
  have "npf_parse_format_spec ''%600s'' = Some (?fs, [])" by code_simp
  moreover have "npf_field ?fs [ArgString ''x''] = Inr (?t, [])"
    by (simp add: npf_field_def star_args_def npf_convert_def va_string_def va_arg_def km_defs Let_def spec_start_def npf_put_def
        pad_char_def payload_def field_pad_def prec_pad_def put_sign_def put_0x_def npf_max_def NUL_def no_text_def in_cbuf_def)
  ultimately have "npf_text ''%600s'' [ArgString ''x''] = Inr ?t" by simp
  moreover have "fold (\<lambda>c t. t @ [c]) u v = v @ u" for u v :: string by (induction u arbitrary: v) simp_all
  ultimately have "npf_vpprintf (\<lambda>c t. t @ [c]) [] ''%600s'' [ArgString ''x''] = Inr (600, ?t)"
    by (simp add: npf_vpprintf_text)
  then show ?thesis
    using printk_long_message_asserts [OF demo_log_ok(1,4), of ?fmt "[ArgString ''x'']" 600 ?t 4 "replicate 513 CHR ''?''"] fmt demo_log_ok(2)
    by (simp add: MSG_BUF_SIZE_def)
qed

end
