(* ===== verification/Ker_State.thy ===== *)
theory Ker_State
  imports Ndk_Lock
begin

text \<open>
  The state of one processor (\<open>cpudata_t\<close> of \<^verbatim>\<open>include/ndk/cpudata.h\<close>) with the objects, threads, timers
  and deferred procedure calls it works on, and the operations that need nothing else: objects
  (\<^verbatim>\<open>obj/obj.c\<close>), soft interrupts (\<^verbatim>\<open>irq/int.c\<close>) and the queue of deferred calls (\<^verbatim>\<open>irq/dpc.c\<close>).

  A pointer to a structure is a number that the state maps to the structure; a timer and its object
  header have the same address, as in C. Printing has no effect on this state and is left out.
\<close>

section \<open>Structures\<close>

definition kObjTypeAnon :: int where "kObjTypeAnon = 0"

definition kObjTypeEvent :: int where "kObjTypeEvent = 1"

definition kObjTypeEventNotif :: int where "kObjTypeEventNotif = 2"

definition kObjTypeTimer :: int where "kObjTypeTimer = 3"

definition kObjTypeMutex :: int where "kObjTypeMutex = 4"

definition STATUS_OK :: int where "STATUS_OK = 0"

definition STATUS_TIMEOUT :: int where "STATUS_TIMEOUT = 1"

definition STATUS_WAITING :: int where "STATUS_WAITING = 2"

definition STATUS_RANGE_WAIT :: int where "STATUS_RANGE_WAIT = 0x1000"

record obj_header =
  object_lock :: bool
  refcnt :: u64
  obj_ops :: "nat option"
  obj_type :: int
  signalcount :: int
  waitercount :: int
  waitblock_list :: "nat list"

record wait_block =
  wb_dequeued :: bool
  wb_unwaited :: bool
  wb_object :: nat
  wb_thread :: nat

text \<open>The functions the kernel enqueues, and those of drivers.\<close>

datatype dpc_fn = Done_queue_fn | Preemption_dpc_fn | Time_engine_progress | Driver_fn nat

record dpc =
  dpc_function :: dpc_fn
  dpc_context1 :: u64
  dpc_context2 :: u64
  dpc_enqueued :: bool

datatype timer_state = kTimerUnused | kTimerFired | kTimerQueued | kTimerCanceled

text \<open>There is one timer engine per processor, so \<open>engine\<close> is whether it is set.\<close>

record timer =
  timer_dpc :: "nat option"
  deadline :: u64
  tstate :: timer_state
  timer_engine :: bool

datatype thread_state =
    kThreadStateNull
  | kThreadStateReady
  | kThreadStateRunning
  | kThreadStateWaiting
  | kThreadStateDone
  | kThreadStateStandby

record cpu_context =
  rsp :: u64
  r12 :: u64
  r13 :: u64
  r14 :: u64
  rflags :: u64
  cs :: u64
  ss :: u64

record thread =
  thr_context :: cpu_context
  thread_lock :: bool
  kstack_top :: u64
  wait_timer :: nat
  wait_count :: int
  wait_status :: int
  wait_block_array :: "nat option"
  last_processor :: u16
  timeslice :: int
  thr_state :: thread_state
  priority :: nat

record mutex =
  tmp_hdr :: nat
  mtx_event :: nat
  owner :: "nat option"

record 'h cpu =
  cpu_id :: u16
  irql :: u8
  ints :: bool
  softint_pending :: u64
  dpcs :: "nat \<Rightarrow> dpc"
  dpcq :: "nat list"
  dpc_count :: u64
  dpc_lock :: bool
  objs :: "nat \<Rightarrow> obj_header"
  wblocks :: "nat \<Rightarrow> wait_block"
  mutexes :: "nat \<Rightarrow> mutex"
  freed :: "nat list"
  timers :: "nat \<Rightarrow> timer"
  timerlist :: 'h
  te_lock :: bool
  timer_update :: nat
  next_deadline :: u64
  armed :: "u64 list"
  clock_reads :: nat
  threads :: "nat \<Rightarrow> thread"
  stack_words :: "u64 \<Rightarrow> u64"
  idle_thread :: nat
  thread_current :: nat
  thread_next :: "nat option"
  sched_lock :: bool
  run_queues :: "nat \<Rightarrow> nat list"
  run_mask :: u16
  preemption_dpc :: nat
  preemption_timer :: nat
  done_lock :: bool
  done_queue :: "nat list"

definition upd_obj :: "nat \<Rightarrow> (obj_header \<Rightarrow> obj_header) \<Rightarrow> 'h cpu \<Rightarrow> 'h cpu" where
  "upd_obj i f s = s\<lparr>objs := (objs s)(i := f (objs s i))\<rparr>"

definition upd_dpc :: "nat \<Rightarrow> (dpc \<Rightarrow> dpc) \<Rightarrow> 'h cpu \<Rightarrow> 'h cpu" where
  "upd_dpc i f s = s\<lparr>dpcs := (dpcs s)(i := f (dpcs s i))\<rparr>"

definition upd_wb :: "nat \<Rightarrow> (wait_block \<Rightarrow> wait_block) \<Rightarrow> 'h cpu \<Rightarrow> 'h cpu" where
  "upd_wb i f s = s\<lparr>wblocks := (wblocks s)(i := f (wblocks s i))\<rparr>"

definition upd_timer :: "nat \<Rightarrow> (timer \<Rightarrow> timer) \<Rightarrow> 'h cpu \<Rightarrow> 'h cpu" where
  "upd_timer i f s = s\<lparr>timers := (timers s)(i := f (timers s i))\<rparr>"

definition upd_thread :: "nat \<Rightarrow> (thread \<Rightarrow> thread) \<Rightarrow> 'h cpu \<Rightarrow> 'h cpu" where
  "upd_thread i f s = s\<lparr>threads := (threads s)(i := f (threads s i))\<rparr>"

definition upd_mutex :: "nat \<Rightarrow> (mutex \<Rightarrow> mutex) \<Rightarrow> 'h cpu \<Rightarrow> 'h cpu" where
  "upd_mutex i f s = s\<lparr>mutexes := (mutexes s)(i := f (mutexes s i))\<rparr>"

text \<open>
  The level and the pending soft interrupts of the processor, with the dispatcher \<open>d\<close> that
  \<open>irql_lower\<close> calls. The dispatcher calls most of what follows, so the operations take it as an
  argument; the last theory of the group ties the knot.
\<close>

definition cpu_io :: "(u8 \<Rightarrow> ('h cpu, unit) km) \<Rightarrow> 'h cpu irql_ops" where
  "cpu_io d = \<lparr>irql_current = irql, irql_set = irql_update, softints = softint_pending, dispatcher = d\<rparr>"

section \<open>Objects\<close>

definition obj_init :: "nat \<Rightarrow> int \<Rightarrow> ('h cpu, unit) km" where
  "obj_init hdr ty =
     kmodify (upd_obj hdr (\<lambda>_. \<lparr>object_lock = False, refcnt = 1, obj_ops = None, obj_type = ty,
       signalcount = 0, waitercount = 0, waitblock_list = []\<rparr>))"

definition obj_retain :: "nat \<Rightarrow> ('h cpu, unit) km" where
  "obj_retain hdr = kmodify (upd_obj hdr (\<lambda>ob. ob\<lparr>refcnt := refcnt ob + 1\<rparr>))"

definition obj_release :: "nat \<Rightarrow> ('h cpu, unit) km" where
  "obj_release hdr =
     kthen (kmodify (upd_obj hdr (\<lambda>ob. ob\<lparr>refcnt := refcnt ob - 1\<rparr>)))
     (kbind (kget (\<lambda>s. objs s hdr)) (\<lambda>ob.
      kwhen (refcnt ob = 0)
        (case obj_ops ob of
           None \<Rightarrow> kfail NullDeref
         | Some _ \<Rightarrow> kmodify (\<lambda>s. s\<lparr>freed := freed s @ [hdr]\<rparr>))))"

text \<open>\<open>own\<close> is the thread that owns the object when the object is a mutex.\<close>

definition obj_is_signaled :: "nat option \<Rightarrow> nat \<Rightarrow> nat \<Rightarrow> ('h cpu, bool) km" where
  "obj_is_signaled own hdr thread =
     kbind (kget (\<lambda>s. objs s hdr)) (\<lambda>ob.
     if obj_type ob = kObjTypeMutex
     then if signalcount ob = 0 then kreturn True
          else kthen (kassert (own \<noteq> Some thread) ''mtx->owner != thread'') (kreturn False)
     else kreturn (signalcount ob \<noteq> 0))"

definition OBJ_ACQUIRE :: "(u8 \<Rightarrow> ('h cpu, unit) km) \<Rightarrow> nat \<Rightarrow> ('h cpu, u8) km" where
  "OBJ_ACQUIRE d ob =
     spinlock_acquire_raise (cpu_io d) (\<lambda>s. object_lock (objs s ob)) (\<lambda>f. upd_obj ob (object_lock_update f))"

definition OBJ_RELEASE :: "(u8 \<Rightarrow> ('h cpu, unit) km) \<Rightarrow> nat \<Rightarrow> u8 \<Rightarrow> ('h cpu, unit) km" where
  "OBJ_RELEASE d ob ipl = spinlock_release_lower (cpu_io d) (\<lambda>f. upd_obj ob (object_lock_update f)) ipl"

definition OBJ_ACQUIRE_ELEVATED :: "nat \<Rightarrow> ('h cpu, unit) km" where
  "OBJ_ACQUIRE_ELEVATED ob =
     spinlock_acquire (\<lambda>s. object_lock (objs s ob)) (\<lambda>f. upd_obj ob (object_lock_update f))"

definition OBJ_RELEASE_ELEVATED :: "nat \<Rightarrow> ('h cpu, unit) km" where
  "OBJ_RELEASE_ELEVATED ob = spinlock_release (\<lambda>f. upd_obj ob (object_lock_update f))"

section \<open>Soft interrupts\<close>

definition PENDING :: "u8 \<Rightarrow> u64" where
  "PENDING level = push_bit (unat level - 1) 1"

definition softint_issue :: "u8 \<Rightarrow> ('h cpu, unit) km" where
  "softint_issue level = kmodify (\<lambda>s. s\<lparr>softint_pending := softint_pending s OR PENDING level\<rparr>)"

definition softint_ack :: "u8 \<Rightarrow> ('h cpu, unit) km" where
  "softint_ack level = kmodify (\<lambda>s. s\<lparr>softint_pending := softint_pending s AND NOT (PENDING level)\<rparr>)"

section \<open>Deferred procedure calls\<close>

definition acquire_dpc_lock :: "('h cpu, bool) km" where
  "acquire_dpc_lock =
     kbind (port_set_ints ints ints_update False) (\<lambda>oldstate.
     kthen (spinlock_acquire dpc_lock dpc_lock_update) (kreturn oldstate))"

definition release_dpc_lock :: "bool \<Rightarrow> ('h cpu, unit) km" where
  "release_dpc_lock old =
     kthen (spinlock_release dpc_lock_update) (kthen (port_set_ints ints ints_update old) (kreturn ()))"

definition dpc_init :: "nat \<Rightarrow> dpc_fn \<Rightarrow> ('h cpu, unit) km" where
  "dpc_init p fn =
     kmodify (upd_dpc p (\<lambda>_. \<lparr>dpc_function = fn, dpc_context1 = 0, dpc_context2 = 0, dpc_enqueued = False\<rparr>))"

definition dpc_enqueue :: "nat \<Rightarrow> u64 \<Rightarrow> u64 \<Rightarrow> ('h cpu, unit) km" where
  "dpc_enqueue p context1 context2 =
     kbind acquire_dpc_lock (\<lambda>oldstate.
     kbind (kget (\<lambda>s. dpc_enqueued (dpcs s p))) (\<lambda>queued.
     if queued then release_dpc_lock oldstate
     else
       kthen (kmodify (upd_dpc p (\<lambda>q. q\<lparr>dpc_context1 := context1, dpc_context2 := context2\<rparr>)))
       (kthen (kmodify (\<lambda>s. s\<lparr>dpc_count := dpc_count s + 1\<rparr>))
       (kthen (kmodify (\<lambda>s. s\<lparr>dpcq := dpcq s @ [p]\<rparr>))
       (kthen (kmodify (upd_dpc p (\<lambda>q. q\<lparr>dpc_enqueued := True\<rparr>)))
       (kthen (softint_issue IRQL_DISPATCH)
       (release_dpc_lock oldstate)))))))"

definition dpc_dequeue :: "nat \<Rightarrow> ('h cpu, unit) km" where
  "dpc_dequeue p =
     kbind acquire_dpc_lock (\<lambda>oldstate.
     kthen (kmodify (\<lambda>s. s\<lparr>dpcq := remove1 p (dpcq s)\<rparr>))
     (release_dpc_lock oldstate))"

text \<open>One round of the loop in \<open>dpc_run_queue\<close>: the call taken from the head of the queue.\<close>

definition dpc_take :: "('h cpu, (nat \<times> u64 \<times> u64) option) km" where
  "dpc_take =
     kbind acquire_dpc_lock (\<lambda>oldstate.
     kbind (kget dpcq) (\<lambda>q.
     case q of
       [] \<Rightarrow> kthen (release_dpc_lock oldstate) (kreturn None)
     | p # rest \<Rightarrow>
         kthen (kmodify (\<lambda>s. s\<lparr>dpcq := rest, dpc_count := dpc_count s - 1\<rparr>))
         (kthen (kmodify (upd_dpc p (\<lambda>q. q\<lparr>dpc_enqueued := False\<rparr>)))
         (kbind (kget (\<lambda>s. dpcs s p)) (\<lambda>c.
          kthen (release_dpc_lock oldstate)
          (kreturn (Some (p, dpc_context1 c, dpc_context2 c))))))))"

end
