(* ===== verification/Ker_Time.thy ===== *)
theory Ker_Time
  imports Ker_State
begin

text \<open>
  Clock sources and timers (\<^verbatim>\<open>lib/time.c\<close>), up to the engine that fires them.

  The queue of a timer engine is a heap from \<^verbatim>\<open>heap.h\<close>, which is not part of the repository. Its
  operations are arguments of the model, together with the readings of the clock; they compare two
  timers by their deadlines, so they are given the deadlines. \<open>heap_laws\<close> states what the engine
  relies on.
\<close>

section \<open>What comes from outside\<close>

record 'h heap_ops =
  HEAP_NIL :: 'h
  HEAP_EMPTY :: "'h \<Rightarrow> bool"
  HEAP_PEEK :: "'h \<Rightarrow> nat"
  HEAP_INSERT :: "(nat \<Rightarrow> u64) \<Rightarrow> nat \<Rightarrow> 'h \<Rightarrow> 'h"
  HEAP_REMOVE :: "(nat \<Rightarrow> u64) \<Rightarrow> nat \<Rightarrow> 'h \<Rightarrow> 'h"
  HEAP_POP :: "(nat \<Rightarrow> u64) \<Rightarrow> 'h \<Rightarrow> nat \<times> 'h"

record 'h outside =
  heap :: "'h heap_ops"
  nanos :: "nat \<Rightarrow> u64"

text \<open>
  The contract of the heap: \<open>content\<close> gives the timers in it, and \<open>ordered key h\<close> says that it is in
  order for these keys, which only depends on the keys of the timers in it.
\<close>

definition heap_laws :: "'h heap_ops \<Rightarrow> ('h \<Rightarrow> nat set) \<Rightarrow> ((nat \<Rightarrow> u64) \<Rightarrow> 'h \<Rightarrow> bool) \<Rightarrow> bool" where
  "heap_laws hp content ordered \<longleftrightarrow>
     content (HEAP_NIL hp) = {} \<and> (\<forall>key. ordered key (HEAP_NIL hp)) \<and>
     (\<forall>h. finite (content h)) \<and> (\<forall>h. HEAP_EMPTY hp h \<longleftrightarrow> content h = {}) \<and>
     (\<forall>key key' h. ordered key h \<longrightarrow> (\<forall>t \<in> content h. key' t = key t) \<longrightarrow> ordered key' h) \<and>
     (\<forall>key h. ordered key h \<longrightarrow> content h \<noteq> {} \<longrightarrow>
        HEAP_PEEK hp h \<in> content h \<and> (\<forall>t \<in> content h. key (HEAP_PEEK hp h) \<le> key t)) \<and>
     (\<forall>key h. ordered key h \<longrightarrow> content h \<noteq> {} \<longrightarrow>
        fst (HEAP_POP hp key h) = HEAP_PEEK hp h \<and> ordered key (snd (HEAP_POP hp key h)) \<and>
        content (snd (HEAP_POP hp key h)) = content h - {HEAP_PEEK hp h}) \<and>
     (\<forall>key h t. ordered key h \<longrightarrow> t \<notin> content h \<longrightarrow>
        ordered key (HEAP_INSERT hp key t h) \<and> content (HEAP_INSERT hp key t h) = insert t (content h)) \<and>
     (\<forall>key h t. ordered key h \<longrightarrow> t \<in> content h \<longrightarrow>
        ordered key (HEAP_REMOVE hp key t h) \<and> content (HEAP_REMOVE hp key t h) = content h - {t})"

section \<open>Clock sources\<close>

record clocksource =
  clk_name :: string
  clk_priority :: int

definition register_clocksource :: "clocksource \<Rightarrow> clocksource option \<Rightarrow> clocksource option" where
  "register_clocksource csp system_clocksource =
     (case system_clocksource of
        None \<Rightarrow> Some csp
      | Some c \<Rightarrow> if clk_priority c < clk_priority csp then Some csp else Some c)"

definition current_nanos :: "'h outside \<Rightarrow> ('h cpu, u64) km" where
  "current_nanos E =
     kbind (kget clock_reads) (\<lambda>n.
     kthen (kmodify (\<lambda>s. s\<lparr>clock_reads := n + 1\<rparr>)) (kreturn (nanos E n)))"

fun time_delay_until :: "nat \<Rightarrow> 'h outside \<Rightarrow> u64 \<Rightarrow> ('h cpu, unit) km" where
  "time_delay_until 0 E until = kfail OutOfFuel"
| "time_delay_until (Suc fuel) E until =
     kbind (current_nanos E) (\<lambda>now. if now < until then time_delay_until fuel E until else kreturn ())"

definition time_delay :: "nat \<Rightarrow> 'h outside \<Rightarrow> u64 \<Rightarrow> ('h cpu, unit) km" where
  "time_delay fuel E ns = kbind (current_nanos E) (\<lambda>now. time_delay_until fuel E (now + ns))"

definition US2NS :: "u64 \<Rightarrow> u64" where "US2NS x = x * 1000"

definition MS2NS :: "u64 \<Rightarrow> u64" where "MS2NS x = US2NS (x * 1000)"

section \<open>Timers\<close>

definition deadlines :: "'h cpu \<Rightarrow> nat \<Rightarrow> u64" where
  "deadlines s t = deadline (timers s t)"

definition te_acquire_raise :: "(u8 \<Rightarrow> ('h cpu, unit) km) \<Rightarrow> ('h cpu, u8) km" where
  "te_acquire_raise d = spinlock_acquire_raise (cpu_io d) te_lock te_lock_update"

definition te_release_lower :: "(u8 \<Rightarrow> ('h cpu, unit) km) \<Rightarrow> u8 \<Rightarrow> ('h cpu, unit) km" where
  "te_release_lower d old = spinlock_release_lower (cpu_io d) te_lock_update old"

definition time_init :: "('h cpu, unit) km" where
  "time_init = kbind (kget timer_update) (\<lambda>p. dpc_init p Time_engine_progress)"

definition time_engine_init :: "'h outside \<Rightarrow> ('h cpu, unit) km" where
  "time_engine_init E = kmodify (\<lambda>s. s\<lparr>te_lock := False, timerlist := HEAP_NIL (heap E)\<rparr>)"

definition timer_init :: "nat \<Rightarrow> ('h cpu, unit) km" where
  "timer_init tp =
     kthen (obj_init tp kObjTypeTimer)
     (kmodify (upd_timer tp (\<lambda>t. t\<lparr>timer_engine := False, deadline := - 1, tstate := kTimerUnused\<rparr>)))"

text \<open>The timer goes back to its cache and is read and written once more after that.\<close>

definition timer_free :: "(u8 \<Rightarrow> ('h cpu, unit) km) \<Rightarrow> nat \<Rightarrow> ('h cpu, unit) km" where
  "timer_free d tp =
     kbind (kget (\<lambda>s. timers s tp)) (\<lambda>t.
     kbind (if timer_engine t then te_acquire_raise d else kreturn 0) (\<lambda>level.
     kthen (kassert (tstate t = kTimerUnused \<or> tstate t = kTimerFired)
       ''tp->timer_state == kTimerUnused || tp->timer_state == kTimerFired'')
     (kthen (kmodify (\<lambda>s. s\<lparr>freed := freed s @ [tp]\<rparr>))
     (kthen (kwhen (timer_engine t) (te_release_lower d level))
     (kmodify (upd_timer tp (\<lambda>t. t\<lparr>timer_engine := False\<rparr>)))))))"

definition timer_uninstall :: "'h outside \<Rightarrow> (u8 \<Rightarrow> ('h cpu, unit) km) \<Rightarrow> nat \<Rightarrow> ('h cpu, unit) km" where
  "timer_uninstall E d tp =
     kbind (kget (\<lambda>s. timer_engine (timers s tp))) (\<lambda>engine.
     if engine
     then
       kbind (te_acquire_raise d) (\<lambda>level.
       kthen (OBJ_ACQUIRE_ELEVATED tp)
       (kthen (kmodify (\<lambda>s. s\<lparr>timerlist := HEAP_REMOVE (heap E) (deadlines s) tp (timerlist s)\<rparr>))
       (kthen (kmodify (upd_timer tp (\<lambda>t. t\<lparr>timer_engine := False, tstate := kTimerCanceled\<rparr>)))
       (kbind (kget timer_update) (\<lambda>p.
        kthen (dpc_enqueue p 0 0)
        (kthen (OBJ_RELEASE_ELEVATED tp)
        (te_release_lower d level)))))))
     else
       kbind (OBJ_ACQUIRE d tp) (\<lambda>level.
       kthen (kmodify (upd_timer tp (\<lambda>t. t\<lparr>tstate := kTimerCanceled\<rparr>)))
       (OBJ_RELEASE d tp level)))"

definition timer_set :: "'h outside \<Rightarrow> (u8 \<Rightarrow> ('h cpu, unit) km) \<Rightarrow> nat \<Rightarrow> u64 \<Rightarrow> nat option \<Rightarrow> ('h cpu, unit) km" where
  "timer_set E d tp dl dpc =
     kbind (OBJ_ACQUIRE d tp) (\<lambda>level.
     kbind (kget (\<lambda>s. tstate (timers s tp))) (\<lambda>st.
     kthen (kwhen (st = kTimerQueued) (timer_uninstall E d tp))
     (kthen (kmodify (upd_timer tp (\<lambda>t. t\<lparr>timer_dpc := dpc, deadline := dl\<rparr>)))
     (OBJ_RELEASE d tp level))))"

definition timer_set_in :: "'h outside \<Rightarrow> (u8 \<Rightarrow> ('h cpu, unit) km) \<Rightarrow> nat \<Rightarrow> u64 \<Rightarrow> nat option \<Rightarrow> ('h cpu, unit) km" where
  "timer_set_in E d tp in_ns dpc = kbind (current_nanos E) (\<lambda>now. timer_set E d tp (now + in_ns) dpc)"

definition timer_install :: "'h outside \<Rightarrow> (u8 \<Rightarrow> ('h cpu, unit) km) \<Rightarrow> nat \<Rightarrow> u64 \<Rightarrow> u64 \<Rightarrow> ('h cpu, unit) km" where
  "timer_install E d tp context1 context2 =
     kbind (kget (\<lambda>s. timers s tp)) (\<lambda>t.
     kthen (kassert (tstate t \<noteq> kTimerQueued) ''tp->timer_state != kTimerQueued'')
     (kbind (te_acquire_raise d) (\<lambda>level.
      kthen (OBJ_ACQUIRE_ELEVATED tp)
      (if timer_engine t
       then kthen (OBJ_RELEASE_ELEVATED tp) (te_release_lower d level)
       else
         kthen (kmodify (upd_timer tp (\<lambda>t. t\<lparr>timer_engine := True, tstate := kTimerQueued\<rparr>)))
         (kthen (case timer_dpc t of
                   None \<Rightarrow> kreturn ()
                 | Some p \<Rightarrow> kmodify (upd_dpc p (\<lambda>q. q\<lparr>dpc_context1 := context1, dpc_context2 := context2\<rparr>)))
         (kthen (kmodify (upd_obj tp (\<lambda>ob. ob\<lparr>signalcount := 0\<rparr>)))
         (kthen (kmodify (\<lambda>s. s\<lparr>timerlist := HEAP_INSERT (heap E) (deadlines s) tp (timerlist s)\<rparr>))
         (kbind (kget timer_update) (\<lambda>p.
          kthen (dpc_enqueue p 0 0)
          (kthen (OBJ_RELEASE_ELEVATED tp)
          (te_release_lower d level)))))))))))"

end
