(* ===== verification/Ker_Sched.thy ===== *)
theory Ker_Sched
  imports Ker_Time
begin

text \<open>
  The scheduler (\<^verbatim>\<open>sched/sched.c\<close>), waiting on objects (\<^verbatim>\<open>sched/dispatch.c\<close>), events (\<^verbatim>\<open>lib/event.c\<close>) and
  mutexes (\<^verbatim>\<open>lib/mutex.c\<close>).

  Switching to another thread ends what the calling thread does for now, so a function that may switch
  is two definitions: the part up to the switch, which returns \<open>None\<close> when it did switch, and the part
  that runs when the thread is switched to again, named \<open>_resumed\<close>.
\<close>

section \<open>Run queues\<close>

definition PRIORITY_COUNT :: nat where "PRIORITY_COUNT = 16"

definition KSTACK_SIZE :: u64 where "KSTACK_SIZE = PAGE_SIZE * 4"

definition thr_acquire :: "nat \<Rightarrow> ('h cpu, unit) km" where
  "thr_acquire i = spinlock_acquire (\<lambda>s. thread_lock (threads s i)) (\<lambda>f. upd_thread i (thread_lock_update f))"

definition thr_release :: "nat \<Rightarrow> ('h cpu, unit) km" where
  "thr_release i = spinlock_release (\<lambda>f. upd_thread i (thread_lock_update f))"

definition sched_init :: "('h cpu, unit) km" where
  "sched_init =
     kthen (kmodify (\<lambda>s. s\<lparr>done_queue := [], done_lock := False, sched_lock := False, run_queues := (\<lambda>_. [])\<rparr>))
     (kbind (kget preemption_dpc) (\<lambda>p.
      kthen (dpc_init p Preemption_dpc_fn)
      (kbind (kget preemption_timer) timer_init)))"

text \<open>A new context, with the word that is stored on the new stack: the address of \<open>thread_trampoline\<close>.\<close>

definition port_initialize_context ::
    "u64 \<Rightarrow> bool \<Rightarrow> u64 \<Rightarrow> u64 \<Rightarrow> u64 \<Rightarrow> u64 \<Rightarrow> cpu_context \<Rightarrow> cpu_context \<times> (u64 \<times> u64)" where
  "port_initialize_context thread_trampoline user kstack startfn context1 context2 c =
     (let sp = kstack + KSTACK_SIZE - 2 * 8 in
      (c\<lparr>rflags := 0x200, cs := if user then 4 * 8 else 1 * 8, ss := if user then 3 * 8 else 2 * 8,
         rsp := sp, r12 := startfn, r13 := context1, r14 := context2\<rparr>,
       (sp, thread_trampoline)))"

text \<open>
  \<open>kstack_base\<close> is what \<open>vm_kalloc\<close> returned for the stack. Clearing the thread clears the timer in it.
\<close>

definition sched_init_thread :: "u64 \<Rightarrow> nat \<Rightarrow> u64 \<Rightarrow> u64 \<Rightarrow> nat \<Rightarrow> u64 \<Rightarrow> u64 \<Rightarrow> ('h cpu, unit) km" where
  "sched_init_thread thread_trampoline thread kstack_base ip prio context1 context2 =
     kbind (kget (\<lambda>s. wait_timer (threads s thread))) (\<lambda>tm.
     kthen (kmodify (upd_timer tm (\<lambda>_. \<lparr>timer_dpc = None, deadline = 0, tstate = kTimerUnused, timer_engine = False\<rparr>)))
     (kthen (kmodify (upd_obj tm (\<lambda>_. \<lparr>object_lock = False, refcnt = 0, obj_ops = None, obj_type = kObjTypeAnon,
        signalcount = 0, waitercount = 0, waitblock_list = []\<rparr>)))
     (kthen (kassert (kstack_base \<noteq> 0) ''kstack_base'')
     (let (ctx, slot) = port_initialize_context thread_trampoline False kstack_base ip context1 context2
            \<lparr>rsp = 0, r12 = 0, r13 = 0, r14 = 0, rflags = 0, cs = 0, ss = 0\<rparr> in
      kthen (kmodify (\<lambda>s. s\<lparr>stack_words := (stack_words s)(fst slot := snd slot)\<rparr>))
      (kbind (kget cpu_id) (\<lambda>me.
       kmodify (upd_thread thread (\<lambda>_.
         \<lparr>thr_context = ctx, thread_lock = False, kstack_top = kstack_base + KSTACK_SIZE, wait_timer = tm,
          wait_count = - 1, wait_status = - 1, wait_block_array = None, last_processor = me,
          timeslice = 30, thr_state = kThreadStateNull, priority = prio\<rparr>))))))))"

definition check_timer :: "'h outside \<Rightarrow> (u8 \<Rightarrow> ('h cpu, unit) km) \<Rightarrow> nat \<Rightarrow> ('h cpu, unit) km" where
  "check_timer E d thread =
     kbind (kget (\<lambda>s. threads s thread)) (\<lambda>t.
     kbind (kget run_mask) (\<lambda>mask.
     kbind (kget preemption_timer) (\<lambda>tm.
     if drop_bit (priority t) mask \<noteq> 0
     then
       kthen (timer_uninstall E d tm)
       (kbind (kget preemption_dpc) (\<lambda>p.
        kthen (timer_set_in E d tm (MS2NS (word_of_int (timeslice t))) (Some p))
        (timer_install E d tm 0 0)))
     else timer_uninstall E d tm)))"

text \<open>The recursive call has a thread to compare with, so two levels are enough.\<close>

fun sched_insert_from :: "nat \<Rightarrow> 'h outside \<Rightarrow> (u8 \<Rightarrow> ('h cpu, unit) km) \<Rightarrow> nat \<Rightarrow> ('h cpu, unit) km" where
  "sched_insert_from 0 E d thread = kfail OutOfFuel"
| "sched_insert_from (Suc fuel) E d thread =
     kbind (kget id) (\<lambda>s.
     kthen (kassert (sched_lock s) ''spinlock_held(&sched->sched_lock)'')
     (kthen (kassert (thread_lock (threads s thread)) ''spinlock_held(&thread->thread_lock)'')
     (kthen (kassert (irql s \<ge> IRQL_DISPATCH) ''irql_current() >= IRQL_DISPATCH'')
     (kthen (kmodify (upd_thread thread (\<lambda>t. t\<lparr>thr_state := kThreadStateReady\<rparr>)))
     (let current = thread_current s; nxt = thread_next s;
          compare = (case nxt of None \<Rightarrow> current | Some n \<Rightarrow> n);
          prio = priority (threads s thread) in
      if priority (threads s compare) \<ge> prio
      then
        kthen (kguard (prio < PRIORITY_COUNT) OutOfBounds)
        (kthen (kmodify (\<lambda>s. s\<lparr>run_queues := (run_queues s)(prio := run_queues s prio @ [thread])\<rparr>))
        (kthen (kmodify (\<lambda>s. s\<lparr>run_mask := run_mask s OR push_bit prio 1\<rparr>))
        (check_timer E d compare)))
      else
        kthen (kmodify (upd_thread thread (\<lambda>t. t\<lparr>thr_state := kThreadStateStandby\<rparr>)))
        (kthen (kmodify (\<lambda>s. s\<lparr>thread_next := Some thread\<rparr>))
        (if nxt \<noteq> None then sched_insert_from fuel E d thread else softint_issue IRQL_DISPATCH)))))))"

definition sched_insert :: "'h outside \<Rightarrow> (u8 \<Rightarrow> ('h cpu, unit) km) \<Rightarrow> nat \<Rightarrow> ('h cpu, unit) km" where
  "sched_insert = sched_insert_from 2"

fun sched_next_from :: "nat \<Rightarrow> nat \<Rightarrow> ('h cpu, nat option) km" where
  "sched_next_from 0 prio = kreturn None"
| "sched_next_from (Suc i) prio =
     (if \<not> Suc i > prio then kreturn None
      else
        kbind (kget (\<lambda>s. run_queues s i)) (\<lambda>q.
        case q of
          [] \<Rightarrow> sched_next_from i prio
        | tp # rest \<Rightarrow>
            kthen (kmodify (\<lambda>s. s\<lparr>run_queues := (run_queues s)(i := rest)\<rparr>))
            (kthen (kwhen (rest = [])
               (kmodify (\<lambda>s. s\<lparr>run_mask := run_mask s AND NOT (push_bit (priority (threads s tp)) 1)\<rparr>)))
            (kreturn (Some tp)))))"

definition sched_next :: "nat \<Rightarrow> ('h cpu, nat option) km" where
  "sched_next prio =
     kbind (kget sched_lock) (\<lambda>held.
     kthen (kassert held ''spinlock_held(&sched->sched_lock)'')
     (sched_next_from PRIORITY_COUNT prio))"

definition sched_reschedule :: "(u8 \<Rightarrow> ('h cpu, unit) km) \<Rightarrow> ('h cpu, unit) km" where
  "sched_reschedule d =
     kbind (kget thread_current) (\<lambda>current.
     kbind (spinlock_acquire_raise (cpu_io d) sched_lock sched_lock_update) (\<lambda>old.
     kbind (kget (\<lambda>s. priority (threads s current))) (\<lambda>prio.
     kbind (sched_next prio) (\<lambda>nxt.
     kthen (kwhen (nxt \<noteq> None) (kmodify (\<lambda>s. s\<lparr>thread_next := nxt\<rparr>)))
     (spinlock_release_lower (cpu_io d) sched_lock_update old)))))"

text \<open>
  The switch itself (\<^verbatim>\<open>platform/amd64/sched.S\<close>) saves the registers of the old thread, releases its lock
  and continues with the registers of the new one.
\<close>

definition sched_port_switch :: "nat \<Rightarrow> nat \<Rightarrow> ('h cpu, unit) km" where
  "sched_port_switch old new = thr_release old"

definition sched_switch_thread :: "'h outside \<Rightarrow> (u8 \<Rightarrow> ('h cpu, unit) km) \<Rightarrow> nat \<Rightarrow> nat \<Rightarrow> ('h cpu, unit) km" where
  "sched_switch_thread E d current thread =
     kthen (kmodify (\<lambda>s. s\<lparr>thread_current := thread\<rparr>))
     (kbind (kget (\<lambda>s. wait_timer (threads s thread))) (\<lambda>tm.
      kthen (timer_uninstall E d tm)
      (sched_port_switch current thread)))"

definition sched_preempt :: "'h outside \<Rightarrow> (u8 \<Rightarrow> ('h cpu, unit) km) \<Rightarrow> ('h cpu, unit) km" where
  "sched_preempt E d =
     kthen (spinlock_acquire sched_lock sched_lock_update)
     (kbind (kget thread_next) (\<lambda>next_thread.
      kthen (kmodify (\<lambda>s. s\<lparr>thread_next := None\<rparr>))
      (kthen (spinlock_release sched_lock_update)
      (kbind (kget thread_current) (\<lambda>current.
       kthen (thr_acquire current)
       (kbind (kget idle_thread) (\<lambda>idle.
        kthen (kwhen (current \<noteq> idle)
          (kthen (spinlock_acquire sched_lock sched_lock_update)
          (kthen (sched_insert E d current)
          (spinlock_release sched_lock_update))))
        (case next_thread of
           None \<Rightarrow> kfail NullDeref
         | Some n \<Rightarrow> sched_switch_thread E d current n))))))))"

definition sched_resume :: "'h outside \<Rightarrow> (u8 \<Rightarrow> ('h cpu, unit) km) \<Rightarrow> nat \<Rightarrow> ('h cpu, unit) km" where
  "sched_resume E d thread =
     kbind (kget (\<lambda>s. thr_state (threads s thread))) (\<lambda>st.
     if st = kThreadStateReady then kreturn ()
     else
       kbind (spinlock_acquire_raise (cpu_io d) sched_lock sched_lock_update) (\<lambda>ipl.
       kthen (thr_acquire thread)
       (kthen (sched_insert E d thread)
       (kthen (kmodify (\<lambda>s. upd_thread thread (\<lambda>t. t\<lparr>last_processor := cpu_id s\<rparr>) s))
       (kthen (thr_release thread)
       (spinlock_release_lower (cpu_io d) sched_lock_update ipl))))))"

definition sched_yield_internal :: "'h outside \<Rightarrow> (u8 \<Rightarrow> ('h cpu, unit) km) \<Rightarrow> nat \<Rightarrow> ('h cpu, unit) km" where
  "sched_yield_internal E d current =
     kthen (spinlock_acquire sched_lock sched_lock_update)
     (kbind (sched_next 0) (\<lambda>nxt.
      kthen (spinlock_release sched_lock_update)
      (kbind (kget idle_thread) (\<lambda>idle.
       sched_switch_thread E d current (case nxt of None \<Rightarrow> idle | Some n \<Rightarrow> n)))))"

definition sched_yield :: "'h outside \<Rightarrow> (u8 \<Rightarrow> ('h cpu, unit) km) \<Rightarrow> ('h cpu, unit) km" where
  "sched_yield E d =
     kbind (kget thread_current) (\<lambda>current.
     kbind (kget (\<lambda>s. thread_lock (threads s current))) (\<lambda>held.
     kthen (kassert held ''spinlock_held(&current->thread_lock)'')
     (sched_yield_internal E d current)))"

definition sched_jump_into_idle_thread :: "('h cpu, unit) km" where
  "sched_jump_into_idle_thread = kmodify (\<lambda>s. s\<lparr>thread_current := idle_thread s\<rparr>)"

text \<open>The thread that exits is never switched to again.\<close>

definition sched_exit_destroy :: "'h outside \<Rightarrow> (u8 \<Rightarrow> ('h cpu, unit) km) \<Rightarrow> ('h cpu, unit) km" where
  "sched_exit_destroy E d =
     kbind (kget thread_current) (\<lambda>current.
     kbind (irql_raise (cpu_io d) IRQL_DISPATCH) (\<lambda>_.
     kthen (spinlock_acquire done_lock done_lock_update)
     (kthen (kmodify (\<lambda>s. s\<lparr>done_queue := done_queue s @ [current]\<rparr>))
     (kthen (thr_acquire current)
     (kthen (spinlock_release done_lock_update)
     (sched_yield_internal E d current))))))"

text \<open>A failing try of the lock returns with interrupts switched off.\<close>

definition done_queue_fn :: "('h cpu, unit) km" where
  "done_queue_fn =
     kbind (port_set_ints ints ints_update False) (\<lambda>old.
     kbind (spinlock_try_lock done_lock done_lock_update) (\<lambda>got.
     if \<not> got then kreturn ()
     else
       kthen (kmodify (\<lambda>s. s\<lparr>done_queue := []\<rparr>))
       (kthen (spinlock_release done_lock_update)
       (kthen (port_set_ints ints ints_update old) (kreturn ())))))"

section \<open>Waiting\<close>

definition dequeue_wb :: "nat \<Rightarrow> ('h cpu, unit) km" where
  "dequeue_wb wb =
     kbind (kget (\<lambda>s. wblocks s wb)) (\<lambda>w.
     kthen (OBJ_ACQUIRE_ELEVATED (wb_object w))
     (kthen (kwhen (\<not> wb_dequeued w)
        (kthen (kmodify (upd_obj (wb_object w) (\<lambda>ob. ob\<lparr>waitblock_list := remove1 wb (waitblock_list ob)\<rparr>)))
        (kbind (kget (\<lambda>s. waitercount (objs s (wb_object w)))) (\<lambda>n.
         kthen (kguard (n \<noteq> 0) (Panic ''underflow''))
         (kmodify (upd_obj (wb_object w) (\<lambda>ob. ob\<lparr>waitercount := waitercount ob - 1\<rparr>)))))))
     (OBJ_RELEASE_ELEVATED (wb_object w))))"

definition wait_thread :: "'h outside \<Rightarrow> (u8 \<Rightarrow> ('h cpu, unit) km) \<Rightarrow> nat \<Rightarrow> ('h cpu, unit) km" where
  "wait_thread E d thread =
     kthen (kmodify (upd_thread thread (\<lambda>t. t\<lparr>thr_state := kThreadStateWaiting\<rparr>)))
     (sched_yield E d)"

definition wait_thread_resumed :: "nat \<Rightarrow> ('h cpu, int) km" where
  "wait_thread_resumed thread =
     kbind (kget (\<lambda>s. threads s thread)) (\<lambda>t.
     kthen (case wait_block_array t of
              None \<Rightarrow> kfail NullDeref
            | Some wb \<Rightarrow> kfor [wb..<wb + nat (wait_count t)] dequeue_wb)
     (kget (\<lambda>s. wait_status (threads s thread))))"

text \<open>\<open>wb\<close> is the wait block on the stack of the waiting thread.\<close>

definition sched_wait_single :: "'h outside \<Rightarrow> (u8 \<Rightarrow> ('h cpu, unit) km) \<Rightarrow> nat \<Rightarrow> nat \<Rightarrow> ('h cpu, int option) km" where
  "sched_wait_single E d wb hdr =
     kbind (kget thread_current) (\<lambda>thread.
     kbind (kget (\<lambda>s. obj_type (objs s hdr))) (\<lambda>ty.
     kthen (kassert (ty \<noteq> 123) ''hdr->type != 123'')
     (kbind (irql_raise (cpu_io d) IRQL_DISPATCH) (\<lambda>level.
      kthen (kmodify (upd_wb wb (\<lambda>_. \<lparr>wb_dequeued = False, wb_unwaited = False, wb_object = hdr, wb_thread = thread\<rparr>)))
      (kthen (kmodify (upd_thread thread (\<lambda>t. t\<lparr>wait_status := STATUS_WAITING, wait_block_array := Some wb, wait_count := 1\<rparr>)))
      (kthen (OBJ_ACQUIRE_ELEVATED hdr)
      (kbind (kget (\<lambda>s. signalcount (objs s hdr))) (\<lambda>n.
       if n \<noteq> 0
       then
         kthen (kwhen (ty \<noteq> kObjTypeEventNotif) (kmodify (upd_obj hdr (\<lambda>ob. ob\<lparr>signalcount := signalcount ob - 1\<rparr>))))
         (kthen (OBJ_RELEASE_ELEVATED hdr)
         (kthen (kmodify (upd_thread thread (\<lambda>t. t\<lparr>wait_status := STATUS_OK\<rparr>)))
         (kthen (irql_lower (cpu_io d) level)
         (kreturn (Some STATUS_OK)))))
       else
         kthen (kmodify (upd_obj hdr (\<lambda>ob. ob\<lparr>waitblock_list := waitblock_list ob @ [wb], waitercount := waitercount ob + 1\<rparr>)))
         (kthen (OBJ_RELEASE_ELEVATED hdr)
         (kthen (thr_acquire thread)
         (kthen (wait_thread E d thread)
         (kreturn None))))))))))))"

definition sched_wait_single_resumed :: "(u8 \<Rightarrow> ('h cpu, unit) km) \<Rightarrow> nat \<Rightarrow> u8 \<Rightarrow> ('h cpu, int) km" where
  "sched_wait_single_resumed d thread level =
     kbind (wait_thread_resumed thread) (\<lambda>status.
     kthen (irql_lower (cpu_io d) level) (kreturn status))"

definition sched_unwait :: "'h outside \<Rightarrow> (u8 \<Rightarrow> ('h cpu, unit) km) \<Rightarrow> nat \<Rightarrow> int \<Rightarrow> ('h cpu, unit) km" where
  "sched_unwait E d thread status =
     kbind (kget (\<lambda>s. threads s thread)) (\<lambda>t.
     kthen (kassert (thr_state t = kThreadStateWaiting) ''thread->state == kThreadStateWaiting'')
     (if wait_status t \<noteq> STATUS_WAITING then kreturn ()
      else
        kthen (kmodify (upd_thread thread (\<lambda>t. t\<lparr>wait_status := status\<rparr>)))
        (kthen (case wait_block_array t of
                  None \<Rightarrow> kfail NullDeref
                | Some wb \<Rightarrow>
                    kfor [wb..<wb + nat (wait_count t)] (\<lambda>w. kmodify (upd_wb w (\<lambda>b. b\<lparr>wb_unwaited := True\<rparr>))))
        (sched_resume E d thread))))"

fun satisfy_loop :: "nat \<Rightarrow> 'h outside \<Rightarrow> (u8 \<Rightarrow> ('h cpu, unit) km) \<Rightarrow> nat \<Rightarrow> bool \<Rightarrow> ('h cpu, unit) km" where
  "satisfy_loop 0 E d hdr wake_all = kfail OutOfFuel"
| "satisfy_loop (Suc fuel) E d hdr wake_all =
     kbind (kget (\<lambda>s. waitblock_list (objs s hdr))) (\<lambda>wbs.
     (case wbs of
        [] \<Rightarrow> kreturn ()
      | wb # rest \<Rightarrow>
          kbind (kget (\<lambda>s. wb_thread (wblocks s wb))) (\<lambda>thread.
          kthen (thr_acquire thread)
          (kbind (kget (\<lambda>s. threads s thread)) (\<lambda>t.
           kthen (kassert (wait_count t \<noteq> - 1) ''thread->wait_count != -1'')
           (kthen (kmodify (upd_wb wb (\<lambda>b. b\<lparr>wb_dequeued := True\<rparr>)))
           (kthen (kmodify (upd_obj hdr (\<lambda>ob. ob\<lparr>waitblock_list := rest, waitercount := waitercount ob - 1\<rparr>)))
           (kbind (kget (\<lambda>s. wb_unwaited (wblocks s wb))) (\<lambda>unwaited.
            if unwaited then kthen (thr_release thread) (satisfy_loop fuel E d hdr wake_all)
            else
              kthen (sched_unwait E d thread
                (STATUS_RANGE_WAIT + (int wb - int (case wait_block_array t of None \<Rightarrow> 0 | Some a \<Rightarrow> a))))
              (kthen (thr_release thread)
              (if wake_all then satisfy_loop fuel E d hdr wake_all else kreturn ())))))))))))"

definition obj_satisfy :: "nat \<Rightarrow> 'h outside \<Rightarrow> (u8 \<Rightarrow> ('h cpu, unit) km) \<Rightarrow> nat \<Rightarrow> bool \<Rightarrow> ('h cpu, unit) km" where
  "obj_satisfy fuel E d hdr wake_all =
     kbind (kget (\<lambda>s. object_lock (objs s hdr))) (\<lambda>held.
     kthen (kassert held ''spinlock_held(&hdr->object_lock)'')
     (satisfy_loop fuel E d hdr wake_all))"

definition wait_timer_exp :: "'h outside \<Rightarrow> (u8 \<Rightarrow> ('h cpu, unit) km) \<Rightarrow> nat \<Rightarrow> ('h cpu, unit) km" where
  "wait_timer_exp E d thread =
     kthen (spinlock_acquire sched_lock sched_lock_update)
     (kthen (thr_acquire thread)
     (kbind (kget (\<lambda>s. thr_state (threads s thread))) (\<lambda>st.
      kthen (kwhen (st = kThreadStateWaiting) (sched_unwait E d thread STATUS_TIMEOUT))
      (kthen (thr_release thread)
      (spinlock_release sched_lock_update)))))"

definition sched_sleep :: "'h outside \<Rightarrow> (u8 \<Rightarrow> ('h cpu, unit) km) \<Rightarrow> nat \<Rightarrow> nat \<Rightarrow> u64 \<Rightarrow> ('h cpu, int option) km" where
  "sched_sleep E d wb timer ns =
     kthen (timer_init timer)
     (kthen (timer_set_in E d timer ns None)
     (kthen (timer_install E d timer 0 0)
     (kbind (kget (\<lambda>s. waitercount (objs s timer))) (\<lambda>n.
      kthen (kassert (n = 0) ''timer.hdr.waitercount == 0'')
      (kbind (kget (\<lambda>s. wait_count (threads s (thread_current s)))) (\<lambda>c.
       kthen (kassert (c = - 1) ''curthread()->wait_count == -1'')
       (sched_wait_single E d wb timer)))))))"

section \<open>Events\<close>

definition event_reset :: "(u8 \<Rightarrow> ('h cpu, unit) km) \<Rightarrow> nat \<Rightarrow> ('h cpu, int) km" where
  "event_reset d event =
     kbind (OBJ_ACQUIRE d event) (\<lambda>level.
     kbind (kget (\<lambda>s. signalcount (objs s event))) (\<lambda>old.
     kthen (kmodify (upd_obj event (\<lambda>ob. ob\<lparr>signalcount := 0\<rparr>)))
     (kthen (OBJ_RELEASE d event level)
     (kreturn old))))"

definition event_init :: "nat \<Rightarrow> bool \<Rightarrow> bool \<Rightarrow> ('h cpu, unit) km" where
  "event_init event notif signaled =
     kthen (obj_init event (if notif then kObjTypeEventNotif else kObjTypeEvent))
     (kmodify (upd_obj event (\<lambda>ob. ob\<lparr>signalcount := if signaled then 1 else 0\<rparr>)))"

definition event_signal :: "nat \<Rightarrow> 'h outside \<Rightarrow> (u8 \<Rightarrow> ('h cpu, unit) km) \<Rightarrow> nat \<Rightarrow> ('h cpu, int) km" where
  "event_signal fuel E d event =
     kbind (OBJ_ACQUIRE d event) (\<lambda>level.
     kbind (kget (\<lambda>s. objs s event)) (\<lambda>ob.
     if signalcount ob \<noteq> 0
     then kthen (OBJ_RELEASE d event level) (kreturn 1)
     else
       kthen
         (if waitercount ob \<noteq> 0
          then if obj_type ob = kObjTypeEventNotif
               then kthen (obj_satisfy fuel E d event True)
                      (kmodify (upd_obj event (\<lambda>ob. ob\<lparr>signalcount := 1\<rparr>)))
               else obj_satisfy fuel E d event False
          else kmodify (upd_obj event (\<lambda>ob. ob\<lparr>signalcount := 1\<rparr>)))
       (kthen (OBJ_RELEASE d event level) (kreturn 0))))"

section \<open>Mutexes\<close>

definition mutex_init :: "nat \<Rightarrow> ('h cpu, unit) km" where
  "mutex_init m =
     kbind (kget (\<lambda>s. mutexes s m)) (\<lambda>mx.
     kthen (obj_init (tmp_hdr mx) 123)
     (kthen (event_init (mtx_event mx) False True)
     (kmodify (upd_mutex m (\<lambda>mx. mx\<lparr>owner := None\<rparr>)))))"

text \<open>One round of the loop: \<open>True\<close> when the mutex was taken.\<close>

definition mutex_try :: "(u8 \<Rightarrow> ('h cpu, unit) km) \<Rightarrow> nat \<Rightarrow> ('h cpu, bool) km" where
  "mutex_try d m =
     kbind (kget (\<lambda>s. mtx_event (mutexes s m))) (\<lambda>ev.
     kbind (OBJ_ACQUIRE d ev) (\<lambda>level.
     kbind (kget (\<lambda>s. signalcount (objs s ev))) (\<lambda>n.
     if n = 1
     then
       kbind (kget (\<lambda>s. owner (mutexes s m))) (\<lambda>ow.
       kthen (kassert (ow = None) ''mutex->owner == nullptr'')
       (kthen (kmodify (\<lambda>s. upd_mutex m (\<lambda>mx. mx\<lparr>owner := Some (thread_current s)\<rparr>) s))
       (kthen (kmodify (upd_obj ev (\<lambda>ob. ob\<lparr>signalcount := 0\<rparr>)))
       (kthen (OBJ_RELEASE d ev level) (kreturn True)))))
     else kthen (OBJ_RELEASE d ev level) (kreturn False))))"

fun mutex_acquire :: "nat \<Rightarrow> 'h outside \<Rightarrow> (u8 \<Rightarrow> ('h cpu, unit) km) \<Rightarrow> nat \<Rightarrow> nat \<Rightarrow> ('h cpu, int option) km" where
  "mutex_acquire 0 E d wb m = kfail OutOfFuel"
| "mutex_acquire (Suc fuel) E d wb m =
     kbind (mutex_try d m) (\<lambda>got.
     if got then kreturn (Some STATUS_OK)
     else
       kbind (kget (\<lambda>s. mtx_event (mutexes s m))) (\<lambda>ev.
       kbind (sched_wait_single E d wb ev) (\<lambda>r.
       case r of
         None \<Rightarrow> kreturn None
       | Some status \<Rightarrow> if status \<noteq> 0 then kreturn (Some STATUS_TIMEOUT) else mutex_acquire fuel E d wb m)))"

definition mutex_acquire_resumed ::
    "nat \<Rightarrow> 'h outside \<Rightarrow> (u8 \<Rightarrow> ('h cpu, unit) km) \<Rightarrow> nat \<Rightarrow> nat \<Rightarrow> nat \<Rightarrow> u8 \<Rightarrow> ('h cpu, int option) km" where
  "mutex_acquire_resumed fuel E d wb m thread level =
     kbind (sched_wait_single_resumed d thread level) (\<lambda>status.
     if status \<noteq> 0 then kreturn (Some STATUS_TIMEOUT) else mutex_acquire fuel E d wb m)"

text \<open>The release gives up the ownership under the lock of the event and then signals the event.\<close>

definition mutex_disown :: "(u8 \<Rightarrow> ('h cpu, unit) km) \<Rightarrow> nat \<Rightarrow> ('h cpu, unit) km" where
  "mutex_disown d m =
     kbind (kget id) (\<lambda>s.
     kthen (kassert (owner (mutexes s m) = Some (thread_current s)) ''mutex->owner == curthread()'')
     (let ev = mtx_event (mutexes s m) in
      kbind (OBJ_ACQUIRE d ev) (\<lambda>level.
      kthen (kmodify (upd_mutex m (\<lambda>mx. mx\<lparr>owner := None\<rparr>)))
      (OBJ_RELEASE d ev level))))"

definition mutex_release :: "nat \<Rightarrow> 'h outside \<Rightarrow> (u8 \<Rightarrow> ('h cpu, unit) km) \<Rightarrow> nat \<Rightarrow> ('h cpu, int) km" where
  "mutex_release fuel E d m =
     kthen (mutex_disown d m)
     (kbind (kget (\<lambda>s. mtx_event (mutexes s m))) (\<lambda>ev. event_signal fuel E d ev))"

end
