(* ===== verification/Ker_Dispatch.thy ===== *)
theory Ker_Dispatch
  imports Ker_Sched
begin

text \<open>
  The timer engine (\<open>time_engine_progress\<close> of \<^verbatim>\<open>lib/time.c\<close>), the loop over the deferred calls
  (\<^verbatim>\<open>irq/dpc.c\<close>) and the dispatcher of soft interrupts (\<^verbatim>\<open>irq/int.c\<close>), which is what \<open>irql_lower\<close> calls.

  Every loop takes a bound on its rounds, and so does the dispatcher, because what it runs lowers the
  level again. The functions of drivers are an argument. When a thread is to be preempted the
  dispatcher does not return to its caller; the model then ends with \<open>Blocked\<close>.
\<close>

definition UINT64_MAX :: u64 where "UINT64_MAX = - 1"

definition arm :: "u64 \<Rightarrow> ('h cpu, unit) km" where
  "arm dl = kmodify (\<lambda>s. s\<lparr>armed := armed s @ [dl]\<rparr>)"

text \<open>What one round does with a timer whose deadline has passed, up to the call of its function.\<close>

definition timer_fire :: "nat \<Rightarrow> 'h outside \<Rightarrow> (u8 \<Rightarrow> ('h cpu, unit) km) \<Rightarrow> ('h cpu, nat option) km" where
  "timer_fire fuel E d =
     kbind (kget (\<lambda>s. HEAP_POP (heap E) (deadlines s) (timerlist s))) (\<lambda>(root, rest).
     kthen (kmodify (\<lambda>s. s\<lparr>timerlist := rest\<rparr>))
     (kthen (OBJ_ACQUIRE_ELEVATED root)
     (kthen (kmodify (upd_timer root (\<lambda>t. t\<lparr>timer_engine := False\<rparr>)))
     (kthen (spinlock_release te_lock_update)
     (kthen (kmodify (upd_timer root (\<lambda>t. t\<lparr>tstate := kTimerFired\<rparr>)))
     (kbind (kget (\<lambda>s. waitercount (objs s root))) (\<lambda>n.
      kthen (kwhen (n > 0)
        (kthen (obj_satisfy fuel E d root True)
        (kmodify (upd_obj root (\<lambda>ob. ob\<lparr>signalcount := 1\<rparr>)))))
      (kbind (kget (\<lambda>s. timer_dpc (timers s root))) (\<lambda>p.
       kthen (OBJ_RELEASE_ELEVATED root)
       (kreturn p)))))))))) "

fun time_engine_progress ::
    "nat \<Rightarrow> 'h outside \<Rightarrow> (u8 \<Rightarrow> ('h cpu, unit) km) \<Rightarrow> (nat \<Rightarrow> u64 \<Rightarrow> u64 \<Rightarrow> ('h cpu, unit) km) \<Rightarrow> ('h cpu, unit) km" where
  "time_engine_progress 0 E d run = kfail OutOfFuel"
| "time_engine_progress (Suc fuel) E d run =
     kbind (current_nanos E) (\<lambda>now.
     kbind (kget irql) (\<lambda>level.
     kthen (kassert (level = IRQL_DISPATCH) ''irql_current() == IRQL_DISPATCH'')
     (kthen (spinlock_acquire te_lock te_lock_update)
     (kbind (kget timerlist) (\<lambda>h.
      if HEAP_EMPTY (heap E) h
      then
        kthen (kmodify (\<lambda>s. s\<lparr>next_deadline := UINT64_MAX\<rparr>))
        (kthen (arm 0)
        (spinlock_release te_lock_update))
      else
        kbind (kget (\<lambda>s. deadlines s (HEAP_PEEK (heap E) h))) (\<lambda>dl.
        if dl > now
        then
          kthen (kmodify (\<lambda>s. s\<lparr>next_deadline := dl\<rparr>))
          (kthen (arm dl)
          (spinlock_release te_lock_update))
        else
          kbind (timer_fire fuel E d) (\<lambda>p.
          kthen (case p of
                   None \<Rightarrow> kreturn ()
                 | Some q \<Rightarrow> kbind (kget (\<lambda>s. dpcs s q)) (\<lambda>c. run q (dpc_context1 c) (dpc_context2 c)))
          (time_engine_progress fuel E d run))))))))"

text \<open>The call of a deferred function.\<close>

fun dpc_call ::
    "nat \<Rightarrow> 'h outside \<Rightarrow> (nat \<Rightarrow> u64 \<Rightarrow> u64 \<Rightarrow> ('h cpu, unit) km) \<Rightarrow> (u8 \<Rightarrow> ('h cpu, unit) km)
     \<Rightarrow> nat \<Rightarrow> u64 \<Rightarrow> u64 \<Rightarrow> ('h cpu, unit) km" where
  "dpc_call 0 E drv d p c1 c2 = kfail OutOfFuel"
| "dpc_call (Suc fuel) E drv d p c1 c2 =
     kbind (kget (\<lambda>s. dpc_function (dpcs s p))) (\<lambda>f.
     case f of
       Done_queue_fn \<Rightarrow> done_queue_fn
     | Preemption_dpc_fn \<Rightarrow> sched_reschedule d
     | Time_engine_progress \<Rightarrow> time_engine_progress fuel E d (dpc_call fuel E drv d)
     | Driver_fn k \<Rightarrow> drv k c1 c2)"

fun dpc_run_queue :: "nat \<Rightarrow> (nat \<Rightarrow> u64 \<Rightarrow> u64 \<Rightarrow> ('h cpu, unit) km) \<Rightarrow> ('h cpu, unit) km" where
  "dpc_run_queue 0 run = kfail OutOfFuel"
| "dpc_run_queue (Suc fuel) run =
     kbind dpc_take (\<lambda>r.
     case r of
       None \<Rightarrow> kreturn ()
     | Some (p, c1, c2) \<Rightarrow> kthen (run p c1 c2) (dpc_run_queue fuel run))"

definition dpc_interrupt ::
    "nat \<Rightarrow> 'h outside \<Rightarrow> (nat \<Rightarrow> u64 \<Rightarrow> u64 \<Rightarrow> ('h cpu, unit) km) \<Rightarrow> (u8 \<Rightarrow> ('h cpu, unit) km) \<Rightarrow> ('h cpu, unit) km" where
  "dpc_interrupt fuel E drv d =
     kthen (softint_ack IRQL_DISPATCH)
     (kthen (kmodify (\<lambda>s. s\<lparr>irql := IRQL_DISPATCH\<rparr>))
     (kthen (kmodify (\<lambda>s. s\<lparr>ints := True\<rparr>))
     (kthen (dpc_run_queue fuel (dpc_call fuel E drv d))
     (kbind (kget thread_next) (\<lambda>nxt.
      kthen (kwhen (nxt \<noteq> None) (kthen (sched_preempt E d) (kfail Blocked)))
      (kmodify (\<lambda>s. s\<lparr>ints := False\<rparr>)))))))"

fun softint_loop :: "nat \<Rightarrow> ('h cpu, unit) km \<Rightarrow> u8 \<Rightarrow> ('h cpu, unit) km" where
  "softint_loop 0 interrupt newirql = kfail OutOfFuel"
| "softint_loop (Suc fuel) interrupt newirql =
     kbind (kget softint_pending) (\<lambda>pending.
     if pending AND push_bit (unat newirql) 0xff = 0 then kreturn ()
     else
       kthen (kwhen (pending AND PENDING IRQL_DISPATCH \<noteq> 0) interrupt)
       (softint_loop fuel interrupt newirql))"

fun softint_dispatch ::
    "nat \<Rightarrow> 'h outside \<Rightarrow> (nat \<Rightarrow> u64 \<Rightarrow> u64 \<Rightarrow> ('h cpu, unit) km) \<Rightarrow> u8 \<Rightarrow> ('h cpu, unit) km" where
  "softint_dispatch 0 E drv newirql = kfail OutOfFuel"
| "softint_dispatch (Suc fuel) E drv newirql =
     kbind (port_set_ints ints ints_update False) (\<lambda>old.
     kthen (softint_loop fuel (dpc_interrupt fuel E drv (softint_dispatch fuel E drv)) newirql)
     (kthen (kmodify (\<lambda>s. s\<lparr>irql := newirql\<rparr>))
     (kthen (port_set_ints ints ints_update old) (kreturn ()))))"

end
