(* ===== verification/Ker_Props.thy ===== *)
theory Ker_Props
  imports Ker_Dispatch
begin

text \<open>
  The scheduler keeps its run queues and their mask consistent and picks the most urgent thread; the
  queue of deferred calls, the timer engine and mutexes do what their callers rely on; signalling an
  event that a thread waits for does not work.
\<close>

section \<open>A processor to try things on\<close>

text \<open>The heap of timers as a sorted list, a clock that advances by ten between two readings, and a processor at
  dispatch level with threads whose priority is their number modulo 16.\<close>

definition list_heap :: "nat list heap_ops" where
  "list_heap = \<lparr>HEAP_NIL = [], HEAP_EMPTY = (\<lambda>h. h = []), HEAP_PEEK = hd,
     HEAP_INSERT = (\<lambda>key t h. insort_key key t h), HEAP_REMOVE = (\<lambda>key t h. remove1 t h),
     HEAP_POP = (\<lambda>key h. (hd h, tl h))\<rparr>"

definition demo_outside :: "nat list outside" where
  "demo_outside = \<lparr>heap = list_heap, nanos = (\<lambda>n. 10 * of_nat n)\<rparr>"

definition demo_thread :: "nat \<Rightarrow> thread" where
  "demo_thread i = \<lparr>thr_context = \<lparr>rsp = 0, r12 = 0, r13 = 0, r14 = 0, rflags = 0, cs = 0, ss = 0\<rparr>,
     thread_lock = False, kstack_top = 0, wait_timer = 60, wait_count = - 1, wait_status = - 1,
     wait_block_array = None, last_processor = 0, timeslice = 30, thr_state = kThreadStateNull, priority = i mod 16\<rparr>"

definition demo_cpu :: "nat list cpu" where
  "demo_cpu = \<lparr>cpu_id = 0, irql = IRQL_DISPATCH, ints = True, softint_pending = 0,
     dpcs = (\<lambda>_. \<lparr>dpc_function = Done_queue_fn, dpc_context1 = 0, dpc_context2 = 0, dpc_enqueued = False\<rparr>),
     dpcq = [], dpc_count = 0, dpc_lock = False,
     objs = (\<lambda>_. \<lparr>object_lock = False, refcnt = 1, obj_ops = None, obj_type = kObjTypeEvent, signalcount = 0,
       waitercount = 0, waitblock_list = []\<rparr>),
     wblocks = (\<lambda>_. \<lparr>wb_dequeued = False, wb_unwaited = False, wb_object = 0, wb_thread = 0\<rparr>),
     mutexes = (\<lambda>_. \<lparr>tmp_hdr = 20, mtx_event = 21, owner = None\<rparr>), freed = [],
     timers = (\<lambda>_. \<lparr>timer_dpc = None, deadline = 0, tstate = kTimerUnused, timer_engine = False\<rparr>),
     timerlist = [], te_lock = False, timer_update = 0, next_deadline = 0, armed = [], clock_reads = 0,
     threads = demo_thread, stack_words = (\<lambda>_. 0), idle_thread = 0, thread_current = 1, thread_next = None, sched_lock = False,
     run_queues = (\<lambda>_. []), run_mask = 0, preemption_dpc = 1, preemption_timer = 50, done_lock = False,
     done_queue = []\<rparr>"

section \<open>Locks and levels\<close>

lemma cpu_io_simps [simp]:
  "irql_current (cpu_io d) = irql" "irql_set (cpu_io d) = irql_update" "softints (cpu_io d) = softint_pending"
  "dispatcher (cpu_io d) = d"
  by (simp_all add: cpu_io_def)

lemma upd_simps [simp]:
  "objs (upd_obj i f s) = (objs s)(i := f (objs s i))" "dpcs (upd_dpc i g s) = (dpcs s)(i := g (dpcs s i))"
  "wblocks (upd_wb i w s) = (wblocks s)(i := w (wblocks s i))" "timers (upd_timer i h s) = (timers s)(i := h (timers s i))"
  "threads (upd_thread i k s) = (threads s)(i := k (threads s i))" "mutexes (upd_mutex i m s) = (mutexes s)(i := m (mutexes s i))"
  by (simp_all add: upd_obj_def upd_dpc_def upd_wb_def upd_timer_def upd_thread_def upd_mutex_def)

lemma upd_frames [simp]:
  "mutexes (upd_thread i k s) = mutexes s" "objs (upd_thread i k s) = objs s"
  "mutexes (upd_wb i w s) = mutexes s" "objs (upd_wb i w s) = objs s"
  "mutexes (upd_dpc i g s) = mutexes s" "objs (upd_dpc i g s) = objs s"
  "mutexes (upd_timer i h s) = mutexes s" "objs (upd_timer i h s) = objs s" "timers (upd_obj i f s) = timers s"
  by (simp_all add: upd_obj_def upd_dpc_def upd_wb_def upd_timer_def upd_thread_def)

text \<open>An update as the update of one field, which does not repeat the state.\<close>

lemma upd_defs:
  "upd_obj i f = objs_update (\<lambda>m. m(i := f (m i)))" "upd_dpc i g = dpcs_update (\<lambda>m. m(i := g (m i)))"
  "upd_wb i w = wblocks_update (\<lambda>m. m(i := w (m i)))" "upd_timer i h = timers_update (\<lambda>m. m(i := h (m i)))"
  "upd_thread i k = threads_update (\<lambda>m. m(i := k (m i)))" "upd_mutex i x = mutexes_update (\<lambda>m. m(i := x (m i)))"
  by (auto simp: fun_eq_iff upd_obj_def upd_dpc_def upd_wb_def upd_timer_def upd_thread_def upd_mutex_def)

lemma runs_to_OBJ [wp]:
  "runs_to (OBJ_ACQUIRE d ob) s P \<longleftrightarrow> irql s \<le> IRQL_DISPATCH \<and> \<not> object_lock (objs s ob) \<and>
     P (irql s) (upd_obj ob (object_lock_update (\<lambda>_. True)) (s\<lparr>irql := IRQL_DISPATCH\<rparr>))"
  "runs_to (OBJ_ACQUIRE_ELEVATED ob) s Q \<longleftrightarrow> \<not> object_lock (objs s ob) \<and>
     Q () (upd_obj ob (object_lock_update (\<lambda>_. True)) s)"
  "runs_to (OBJ_RELEASE_ELEVATED ob) s Q \<longleftrightarrow> Q () (upd_obj ob (object_lock_update (\<lambda>_. False)) s)"
  by (simp_all add: OBJ_ACQUIRE_def OBJ_ACQUIRE_ELEVATED_def OBJ_RELEASE_ELEVATED_def wp)

text \<open>At dispatch level, with nothing pending above it, lowering to the same level does nothing.\<close>

definition quiet :: "'h cpu \<Rightarrow> bool" where
  "quiet s \<longleftrightarrow> irql s = IRQL_DISPATCH \<and> drop_bit 2 (softint_pending s) = 0"

lemma quiet_simps [simp]: "quiet s \<Longrightarrow> irql s = IRQL_DISPATCH"
  by (simp add: quiet_def)

lemma pending_dispatch [simp]: "drop_bit 2 (PENDING IRQL_DISPATCH) = 0"
  by (simp add: PENDING_def IRQL_DISPATCH_def)

lemma runs_to_lower_quiet:
  assumes "irql s = IRQL_DISPATCH" and "drop_bit 2 (softint_pending s) = 0"
  shows "runs_to (irql_lower (cpu_io d) IRQL_DISPATCH) s Q \<longleftrightarrow> Q () s"
proof -
  have "unat IRQL_DISPATCH = 2" by (simp add: IRQL_DISPATCH_def)
  then show ?thesis using assms by (cases s) (simp add: irql_lower_def wp)
qed

lemma runs_to_OBJ_RELEASE_quiet:
  assumes "irql s = IRQL_DISPATCH" and "drop_bit 2 (softint_pending s) = 0"
  shows "runs_to (OBJ_RELEASE d ob IRQL_DISPATCH) s Q \<longleftrightarrow> Q () (upd_obj ob (object_lock_update (\<lambda>_. False)) s)"
  using assms by (simp add: OBJ_RELEASE_def spinlock_release_lower_def wp runs_to_lower_quiet upd_defs)

section \<open>Deferred calls\<close>

definition enqueued :: "nat \<Rightarrow> u64 \<Rightarrow> u64 \<Rightarrow> 'h cpu \<Rightarrow> 'h cpu" where
  "enqueued p c1 c2 s =
     (if dpc_enqueued (dpcs s p) then s
      else s\<lparr>dpcs := (dpcs s)(p := (dpcs s p)\<lparr>dpc_context1 := c1, dpc_context2 := c2, dpc_enqueued := True\<rparr>),
             dpc_count := dpc_count s + 1, dpcq := dpcq s @ [p],
             softint_pending := softint_pending s OR PENDING IRQL_DISPATCH\<rparr>)"

lemma enqueued_simps [simp]:
  "irql (enqueued p c1 c2 s) = irql s" "objs (enqueued p c1 c2 s) = objs s" "timers (enqueued p c1 c2 s) = timers s"
  "timerlist (enqueued p c1 c2 s) = timerlist s" "te_lock (enqueued p c1 c2 s) = te_lock s"
  "dpc_lock (enqueued p c1 c2 s) = dpc_lock s" "threads (enqueued p c1 c2 s) = threads s"
  "run_queues (enqueued p c1 c2 s) = run_queues s" "run_mask (enqueued p c1 c2 s) = run_mask s"
  "thread_current (enqueued p c1 c2 s) = thread_current s" "thread_next (enqueued p c1 c2 s) = thread_next s"
  "sched_lock (enqueued p c1 c2 s) = sched_lock s" "preemption_timer (enqueued p c1 c2 s) = preemption_timer s"
  "preemption_dpc (enqueued p c1 c2 s) = preemption_dpc s"
  "drop_bit 2 (softint_pending (enqueued p c1 c2 s)) = drop_bit 2 (softint_pending s)"
  by (auto simp: enqueued_def)

lemma runs_to_dpc_enqueue [wp]:
  "runs_to (dpc_enqueue p c1 c2) s Q \<longleftrightarrow> \<not> dpc_lock s \<and> Q () (enqueued p c1 c2 s)"
  by (cases s) (auto simp: dpc_enqueue_def acquire_dpc_lock_def release_dpc_lock_def softint_issue_def wp
      enqueued_def upd_dpc_def)

text \<open>The queue, the flags of the calls and the counter agree; and the calls the queue stands for.\<close>

definition dpcs_ok :: "'h cpu \<Rightarrow> bool" where
  "dpcs_ok s \<longleftrightarrow> distinct (dpcq s) \<and> (\<forall>p. dpc_enqueued (dpcs s p) \<longleftrightarrow> p \<in> set (dpcq s)) \<and>
     dpc_count s = of_nat (length (dpcq s))"

definition queued_calls :: "'h cpu \<Rightarrow> (nat \<times> u64 \<times> u64) list" where
  "queued_calls s = map (\<lambda>p. (p, dpc_context1 (dpcs s p), dpc_context2 (dpcs s p))) (dpcq s)"

lemma enqueued_ok: "dpcs_ok s \<Longrightarrow> dpcs_ok (enqueued p c1 c2 s)"
  by (auto simp: dpcs_ok_def enqueued_def)

lemma queued_calls_enqueued:
  "dpcs_ok s \<Longrightarrow> queued_calls (enqueued p c1 c2 s) =
     (if p \<in> set (dpcq s) then queued_calls s else queued_calls s @ [(p, c1, c2)])"
  by (auto simp: dpcs_ok_def enqueued_def queued_calls_def)

lemma enqueued_pending: "\<not> dpc_enqueued (dpcs s p) \<Longrightarrow> bit (softint_pending (enqueued p c1 c2 s)) 1"
  by (simp add: enqueued_def PENDING_def IRQL_DISPATCH_def bit_simps)

text \<open>The state after the first call was taken.\<close>

definition taken :: "'h cpu \<Rightarrow> 'h cpu" where
  "taken s = s\<lparr>dpcq := tl (dpcq s), dpc_count := dpc_count s - 1,
     dpcs := (dpcs s)(hd (dpcq s) := (dpcs s (hd (dpcq s)))\<lparr>dpc_enqueued := False\<rparr>)\<rparr>"

lemma runs_to_dpc_take [wp]:
  "runs_to dpc_take s Q \<longleftrightarrow> \<not> dpc_lock s \<and>
     (if dpcq s = [] then Q None s else Q (Some (hd (queued_calls s))) (taken s))"
  by (cases s; cases "dpcq s")
    (auto simp: dpc_take_def acquire_dpc_lock_def release_dpc_lock_def wp taken_def upd_dpc_def queued_calls_def)

lemma taken_ok:
  assumes "dpcs_ok s" and "dpcq s \<noteq> []"
  shows "dpcs_ok (taken s)" and "queued_calls s = hd (queued_calls s) # queued_calls (taken s)"
  using assms by (cases "dpcq s"; auto simp: dpcs_ok_def taken_def queued_calls_def)+

lemma queued_calls_Nil [simp]: "queued_calls s = [] \<longleftrightarrow> dpcq s = []"
  by (simp add: queued_calls_def)

text \<open>C37: a deferred call is queued at most once, and calls leave the queue in the order in which they entered it.
  As long as the flags of the calls, the queue and its counter agree, enqueuing and taking keep it
  so. Enqueuing a call that is queued already changes nothing; otherwise the call comes last, with
  its arguments, and the soft interrupt of the dispatch level is pending. Taking yields the first
  call with the arguments it was queued with, or nothing when the queue is empty.\<close>

theorem dpc_queue_fifo:
  assumes "dpcs_ok s" and "\<not> dpc_lock s"
  shows "runs_to (dpc_enqueue p c1 c2) s (\<lambda>_ t. dpcs_ok t \<and> \<not> dpc_lock t \<and>
      (if p \<in> set (dpcq s) then queued_calls t = queued_calls s
       else queued_calls t = queued_calls s @ [(p, c1, c2)] \<and> bit (softint_pending t) 1)) \<and>
    runs_to dpc_take s (\<lambda>r t. dpcs_ok t \<and> \<not> dpc_lock t \<and> (case r of
        None \<Rightarrow> queued_calls s = [] \<and> queued_calls t = []
      | Some call \<Rightarrow> queued_calls s = call # queued_calls t))"
proof -
  have "dpc_enqueued (dpcs s p) \<longleftrightarrow> p \<in> set (dpcq s)" using assms(1) by (simp add: dpcs_ok_def)
  moreover have "\<not> dpc_lock (taken s)" using assms(2) by (simp add: taken_def)
  ultimately show ?thesis
    using assms enqueued_ok [OF assms(1)] queued_calls_enqueued [OF assms(1)] enqueued_pending [of s p] taken_ok [OF assms(1)]
    by (simp add: wp)
qed

definition demo_calls :: "nat list cpu" where
  "demo_calls = demo_cpu\<lparr>dpcq := [6], dpc_count := 1, dpcs := (dpcs demo_cpu)(6 := \<lparr>dpc_function = Driver_fn 0,
     dpc_context1 = 11, dpc_context2 = 12, dpc_enqueued = True\<rparr>)\<rparr>"

lemma demo_calls_ok: "dpcs_ok demo_calls" "\<not> dpc_lock demo_calls" "dpcq demo_calls = [6]" "queued_calls demo_calls = [(6, 11, 12)]"
  by (simp_all add: dpcs_ok_def queued_calls_def demo_calls_def demo_cpu_def)

theorem dpc_queue_fifo_witness:
  "runs_to (dpc_enqueue 8 21 22) demo_calls (\<lambda>_ t. queued_calls t = [(6, 11, 12), (8, 21, 22)]) \<and>
   runs_to dpc_take demo_calls (\<lambda>r t. r = Some (6, 11, 12) \<and> queued_calls t = [])"
proof -
  note f = dpc_queue_fifo [OF demo_calls_ok(1,2), of 8 21 22]
  show ?thesis
    by (intro conjI; rule runs_to_mono [OF conjunct1 [OF f]] runs_to_mono [OF conjunct2 [OF f]])
      (auto simp: demo_calls_ok simp del: queued_calls_Nil split: option.splits if_splits)
qed



section \<open>Run queues\<close>

definition queues_ok :: "'h cpu \<Rightarrow> bool" where
  "queues_ok s \<longleftrightarrow> (\<forall>i < 16. (bit (run_mask s) i \<longleftrightarrow> run_queues s i \<noteq> []) \<and>
     (\<forall>t \<in> set (run_queues s i). priority (threads s t) = i))"

lemma queues_okD: "queues_ok s \<Longrightarrow> i < 16 \<Longrightarrow> bit (run_mask s) i \<longleftrightarrow> run_queues s i \<noteq> []"
  "queues_ok s \<Longrightarrow> i < 16 \<Longrightarrow> t \<in> set (run_queues s i) \<Longrightarrow> priority (threads s t) = i"
  by (auto simp: queues_ok_def)

text \<open>The first thread of a queue is taken from it.\<close>

definition popped :: "nat \<Rightarrow> nat list \<Rightarrow> 'h cpu \<Rightarrow> 'h cpu" where
  "popped i rest s = s\<lparr>run_queues := (run_queues s)(i := rest),
     run_mask := if rest = [] then run_mask s AND NOT (push_bit i 1) else run_mask s\<rparr>"

lemma popped_ok:
  assumes "queues_ok s" and "i < 16" and "run_queues s i = t # rest"
  shows "queues_ok (popped i rest s)"
proof -
  have "bit (run_mask s AND NOT (push_bit i 1)) j \<longleftrightarrow> bit (run_mask s) j \<and> j \<noteq> i" if "j < 16" for j
    using that by (auto simp: bit_simps)
  then show ?thesis using assms by (auto simp: queues_ok_def popped_def)
qed

lemma runs_to_sched_next_from:
  assumes "queues_ok s" and "n \<le> 16"
  shows "runs_to (sched_next_from n p) s (\<lambda>r t. case r of
      None \<Rightarrow> t = s \<and> (\<forall>j. p \<le> j \<longrightarrow> j < n \<longrightarrow> run_queues s j = [])
    | Some th \<Rightarrow> \<exists>i rest. p \<le> i \<and> i < n \<and> run_queues s i = th # rest \<and>
        (\<forall>j. i < j \<longrightarrow> j < n \<longrightarrow> run_queues s j = []) \<and> t = popped i rest s)"
  using assms
proof (induction n)
  case 0
  then show ?case by (simp add: wp)
next
  case (Suc n)
  show ?case
  proof (cases "run_queues s n")
    case Nil
    let ?Q = "\<lambda>n r t. case r of
        None \<Rightarrow> t = s \<and> (\<forall>j. p \<le> j \<longrightarrow> j < n \<longrightarrow> run_queues s j = [])
      | Some th \<Rightarrow> \<exists>i rest. p \<le> i \<and> i < n \<and> run_queues s i = th # rest \<and>
          (\<forall>j. i < j \<longrightarrow> j < n \<longrightarrow> run_queues s j = []) \<and> t = popped i rest s"
    have "runs_to (sched_next_from n p) s (?Q (Suc n))"
      by (rule runs_to_mono [OF Suc.IH]) (use Suc.prems Nil in \<open>force simp: less_Suc_eq split: option.splits\<close>)+
    then show ?thesis using Nil by (auto simp: wp)
  next
    case (Cons th rest)
    have pr: "priority (threads s th) = n" using queues_okD(2) [OF Suc.prems(1), of n th] Suc.prems(2) Cons by simp
    let ?Q = "\<lambda>r t. case r of
        None \<Rightarrow> t = s \<and> (\<forall>j. p \<le> j \<longrightarrow> j < Suc n \<longrightarrow> run_queues s j = [])
      | Some th \<Rightarrow> \<exists>i rest. p \<le> i \<and> i < Suc n \<and> run_queues s i = th # rest \<and>
          (\<forall>j. i < j \<longrightarrow> j < Suc n \<longrightarrow> run_queues s j = []) \<and> t = popped i rest s"
    have "?Q (Some th) (popped n rest s)" if "p \<le> n"
      using that Cons by (auto intro!: exI [of _ n] exI [of _ rest])
    then have "p \<le> n \<Longrightarrow> ?Q (Some th) (popped n rest s)" and "\<not> p \<le> n \<Longrightarrow> ?Q None s" by auto
    moreover have "runs_to (sched_next_from (Suc n) p) s Q \<longleftrightarrow>
        (if p \<le> n then Q (Some th) (popped n rest s) else Q None s)" for Q
      using Cons pr by (auto simp: wp popped_def)
    ultimately show ?thesis by presburger
  qed
qed


section \<open>The preemption timer\<close>

text \<open>A timer can be handled at dispatch level, and what handling it leaves alone.\<close>

definition calm :: "nat \<Rightarrow> 'h cpu \<Rightarrow> bool" where
  "calm tm s \<longleftrightarrow> quiet s \<and> \<not> te_lock s \<and> \<not> dpc_lock s \<and> \<not> object_lock (objs s tm)"

definition sched_kept :: "'h cpu \<Rightarrow> 'h cpu \<Rightarrow> bool" where
  "sched_kept s t \<longleftrightarrow> threads t = threads s \<and> run_queues t = run_queues s \<and> run_mask t = run_mask s \<and>
     thread_current t = thread_current s \<and> thread_next t = thread_next s \<and> sched_lock t = sched_lock s \<and>
     preemption_timer t = preemption_timer s \<and> preemption_dpc t = preemption_dpc s"

lemma sched_kept_refl: "sched_kept s s"
  by (simp add: sched_kept_def)

lemma sched_kept_trans: "sched_kept s t \<Longrightarrow> sched_kept t u \<Longrightarrow> sched_kept s u"
  by (simp add: sched_kept_def)

lemma runs_to_te_acquire_raise [wp]:
  "runs_to (te_acquire_raise d) s Q \<longleftrightarrow> irql s \<le> IRQL_DISPATCH \<and> \<not> te_lock s \<and>
     Q (irql s) (s\<lparr>irql := IRQL_DISPATCH, te_lock := True\<rparr>)"
  by (simp add: te_acquire_raise_def wp)

lemma runs_to_te_release_lower:
  assumes "irql s = IRQL_DISPATCH" and "drop_bit 2 (softint_pending s) = 0"
  shows "runs_to (te_release_lower d IRQL_DISPATCH) s Q \<longleftrightarrow> Q () (s\<lparr>te_lock := False\<rparr>)"
  using assms by (simp add: te_release_lower_def spinlock_release_lower_def wp runs_to_lower_quiet)

lemmas calm_defs = calm_def quiet_def sched_kept_def upd_defs

lemma runs_to_timer_uninstall:
  assumes "calm tm s"
  shows "runs_to (timer_uninstall E d tm) s
    (\<lambda>_ t. calm tm t \<and> sched_kept s t \<and> \<not> timer_engine (timers t tm) \<and> tstate (timers t tm) = kTimerCanceled)"
  using assms
  by (cases "timer_engine (timers s tm)")
    (simp_all add: timer_uninstall_def wp calm_defs runs_to_OBJ_RELEASE_quiet runs_to_te_release_lower)

lemma runs_to_timer_set_in:
  assumes "calm tm s" and "tstate (timers s tm) \<noteq> kTimerQueued"
  shows "runs_to (timer_set_in E d tm ns p) s
    (\<lambda>_ t. calm tm t \<and> sched_kept s t \<and> timer_engine (timers t tm) = timer_engine (timers s tm) \<and>
       tstate (timers t tm) = tstate (timers s tm))"
  using assms by (simp add: timer_set_in_def timer_set_def current_nanos_def wp calm_defs runs_to_OBJ_RELEASE_quiet runs_to_te_release_lower)

lemma runs_to_timer_install:
  assumes "calm tm s" and "tstate (timers s tm) \<noteq> kTimerQueued"
  shows "runs_to (timer_install E d tm c1 c2) s (\<lambda>_ t. calm tm t \<and> sched_kept s t)"
  using assms
  by (cases "timer_engine (timers s tm)"; cases "timer_dpc (timers s tm)")
    (simp_all add: timer_install_def wp calm_defs runs_to_OBJ_RELEASE_quiet runs_to_te_release_lower)

lemma runs_to_check_timer:
  assumes "calm (preemption_timer s) s"
  shows "runs_to (check_timer E d thread) s (\<lambda>_ t. calm (preemption_timer t) t \<and> sched_kept s t)"
proof -
  let ?tm = "preemption_timer s"
  have "runs_to (timer_set_in E d ?tm ns p) t (\<lambda>_ u. runs_to (timer_install E d ?tm 0 0) u
      (\<lambda>_ v. calm (preemption_timer v) v \<and> sched_kept s v))"
    if "calm ?tm t" "sched_kept s t" "tstate (timers t ?tm) = kTimerCanceled" for t ns p
    by (rule runs_to_mono [OF runs_to_timer_set_in], rule that, use that in simp,
        rule runs_to_mono [OF runs_to_timer_install])
      (use that in \<open>auto simp: sched_kept_def\<close>)
  then show ?thesis
    unfolding check_timer_def
    by (auto simp: wp intro!: runs_to_mono [OF runs_to_timer_uninstall [OF assms]]) (auto simp: sched_kept_def)
qed

section \<open>Insertion into the run queues\<close>

abbreviation prio :: "'h cpu \<Rightarrow> nat \<Rightarrow> nat" where
  "prio s th \<equiv> priority (threads s th)"

text \<open>The state in which a thread may be inserted.\<close>

definition insertable :: "nat \<Rightarrow> 'h cpu \<Rightarrow> bool" where
  "insertable th s \<longleftrightarrow> queues_ok s \<and> sched_lock s \<and> thread_lock (threads s th) \<and> prio s th < 16 \<and>
     calm (preemption_timer s) s"

definition compared :: "'h cpu \<Rightarrow> nat" where
  "compared s = (case thread_next s of None \<Rightarrow> thread_current s | Some n \<Rightarrow> n)"

definition requeued :: "nat \<Rightarrow> 'h cpu \<Rightarrow> nat \<Rightarrow> nat list" where
  "requeued th s = (run_queues s)(prio s th := run_queues s (prio s th) @ [th])"

lemma bit_or_push: "i < 16 \<Longrightarrow> bit ((m :: u16) OR 2 ^ p) i \<longleftrightarrow> bit m i \<or> i = p"
  by (auto simp: bit_simps)

lemma queues_ok_append:
  assumes "queues_ok s" and "\<And>x. prio t x = prio s x" and "run_queues t = requeued th s"
    and "run_mask t = run_mask s OR push_bit (prio s th) 1"
  shows "queues_ok t"
  using assms by (auto simp: queues_ok_def requeued_def bit_or_push)

lemma queues_ok_same:
  assumes "queues_ok s" and "\<And>x. prio t x = prio s x" and "run_queues t = run_queues s" and "run_mask t = run_mask s"
  shows "queues_ok t"
  using assms by (auto simp: queues_ok_def)

lemma runs_to_insert_queue:
  assumes "insertable th s" and "prio s th \<le> prio s (compared s)"
  shows "runs_to (sched_insert_from (Suc f) E d th) s (\<lambda>_ t. queues_ok t \<and> sched_lock t \<and> run_queues t = requeued th s \<and>
    thread_next t = thread_next s)"
proof -
  define u where "u = s\<lparr>threads := (threads s)(th := (threads s th)\<lparr>thr_state := kThreadStateReady\<rparr>),
    run_queues := requeued th s, run_mask := run_mask s OR push_bit (prio s th) 1\<rparr>"
  have ok: "queues_ok u"
    by (rule queues_ok_append [of s _ th]) (use assms in \<open>auto simp: u_def insertable_def\<close>)
  have "calm (preemption_timer u) u" using assms by (simp add: u_def insertable_def calm_def quiet_def)
  note c = runs_to_check_timer [OF this, of E d "compared s"]
  have "runs_to (sched_insert_from (Suc f) E d th) s Q \<longleftrightarrow> runs_to (check_timer E d (compared s)) u Q" for Q
    using assms by (cases "thread_next s") (simp_all add: wp u_def insertable_def compared_def calm_def requeued_def
        upd_thread_def PRIORITY_COUNT_def Let_def)
  moreover have "runs_to (check_timer E d (compared s)) u (\<lambda>_ t. queues_ok t \<and> sched_lock t \<and>
      run_queues t = requeued th s \<and> thread_next t = thread_next s)"
    by (rule runs_to_mono [OF c])
      (use assms ok in \<open>auto simp: sched_kept_def u_def insertable_def intro: queues_ok_same\<close>)
  ultimately show ?thesis by simp
qed

lemma runs_to_insert_standby:
  assumes "insertable th s" and "prio s (compared s) < prio s th"
  shows "runs_to (sched_insert_from (Suc (Suc f)) E d th) s (\<lambda>_ t. queues_ok t \<and> sched_lock t \<and>
    thread_next t = Some th \<and> run_queues t = (if thread_next s = None then run_queues s else requeued th s))"
proof -
  define u where "u = s\<lparr>threads := (threads s)(th := (threads s th)\<lparr>thr_state := kThreadStateStandby\<rparr>),
    thread_next := Some th\<rparr>"
  have pr: "prio u x = prio s x" for x by (simp add: u_def)
  have ok: "queues_ok u"
    by (rule queues_ok_same [of s]) (use assms in \<open>auto simp: u_def insertable_def\<close>)
  then have ins: "insertable th u" using assms by (auto simp: u_def insertable_def calm_def quiet_def)
  have rq: "requeued th u = requeued th s" by (simp add: requeued_def u_def)
  have "runs_to (sched_insert_from (Suc (Suc f)) E d th) s Q \<longleftrightarrow>
      (if thread_next s = None then runs_to (softint_issue IRQL_DISPATCH) u Q
       else runs_to (sched_insert_from (Suc f) E d th) u Q)" for Q
    using assms unfolding sched_insert_from.simps(2) [of "Suc f"]
    by (cases "thread_next s")
      (simp_all add: wp u_def insertable_def compared_def calm_def upd_thread_def Let_def del: sched_insert_from.simps)
  moreover have "runs_to (softint_issue IRQL_DISPATCH) u (\<lambda>_ t. queues_ok t \<and> sched_lock t \<and>
      thread_next t = Some th \<and> run_queues t = run_queues s)"
    using ok ins by (auto simp: softint_issue_def wp u_def insertable_def intro: queues_ok_same)
  moreover have "runs_to (sched_insert_from (Suc f) E d th) u (\<lambda>_ t. queues_ok t \<and> sched_lock t \<and>
      thread_next t = Some th \<and> run_queues t = requeued th s)"
    by (rule runs_to_mono [OF runs_to_insert_queue [OF ins]]) (auto simp: compared_def u_def rq [symmetric])
  ultimately show ?thesis by (simp del: sched_insert_from.simps)
qed

text \<open>C32: taking a thread from the run queues. With queues and mask in agreement, the scheduler returns the
  thread that has waited longest among those of the highest priority, provided that priority is at
  least the one asked for; it removes this thread only and keeps queues and mask in agreement. It
  returns nothing exactly when no thread of that priority or higher is queued, and then changes
  nothing.\<close>

theorem sched_next_takes_most_urgent:
  assumes "queues_ok s" and "sched_lock s"
  shows "runs_to (sched_next p) s (\<lambda>r t. queues_ok t \<and> (case r of
      None \<Rightarrow> t = s \<and> (\<forall>j. p \<le> j \<longrightarrow> j < PRIORITY_COUNT \<longrightarrow> run_queues s j = [])
    | Some th \<Rightarrow> p \<le> prio s th \<and> (\<exists>rest. run_queues s (prio s th) = th # rest \<and>
        run_queues t = (run_queues s)(prio s th := rest)) \<and>
        (\<forall>j. prio s th < j \<longrightarrow> j < PRIORITY_COUNT \<longrightarrow> run_queues s j = [])))"
  unfolding sched_next_def
  apply (simp add: wp assms)
  apply (rule runs_to_mono [OF runs_to_sched_next_from])
  using assms popped_ok [OF assms(1)] queues_okD(2) [OF assms(1)]
  by (auto simp: PRIORITY_COUNT_def popped_def split: option.splits)

definition demo_ready :: "nat list cpu" where
  "demo_ready = demo_cpu\<lparr>sched_lock := True, run_queues := (\<lambda>_. [])(3 := [3, 19], 7 := [7]), run_mask := 0x88\<rparr>"

lemma demo_ready_ok: "queues_ok demo_ready" "sched_lock demo_ready"
proof -
  have "(0x88 :: u16) = (0 OR 2 ^ 3) OR 2 ^ 7" by simp
  then have "bit (0x88 :: u16) i \<longleftrightarrow> i = 3 \<or> i = 7" if "i < 16" for i
    using bit_or_push [OF that] by (metis bit_0_eq bot_apply bot_bool_def)
  then show "queues_ok demo_ready"
    by (auto simp: queues_ok_def demo_ready_def demo_cpu_def demo_thread_def)
qed (simp add: demo_ready_def)

theorem sched_next_takes_most_urgent_witness:
  "queues_ok demo_ready \<and> sched_lock demo_ready \<and>
   runs_to (sched_next 0) demo_ready (\<lambda>r t. r = Some 7 \<and> run_queues t 7 = [] \<and> run_queues t 3 = [3, 19])"
proof (intro conjI demo_ready_ok, rule runs_to_mono [OF sched_next_takes_most_urgent [OF demo_ready_ok]])
  fix r and t :: "nat list cpu"
  assume a: "queues_ok t \<and> (case r of
      None \<Rightarrow> t = demo_ready \<and> (\<forall>j. 0 \<le> j \<longrightarrow> j < PRIORITY_COUNT \<longrightarrow> run_queues demo_ready j = [])
    | Some th \<Rightarrow> 0 \<le> prio demo_ready th \<and> (\<exists>rest. run_queues demo_ready (prio demo_ready th) = th # rest \<and>
        run_queues t = (run_queues demo_ready)(prio demo_ready th := rest)) \<and>
        (\<forall>j. prio demo_ready th < j \<longrightarrow> j < PRIORITY_COUNT \<longrightarrow> run_queues demo_ready j = []))"
  have q: "run_queues demo_ready 7 = [7]" "run_queues demo_ready 3 = [3, 19]"
      "\<And>j. 7 < j \<Longrightarrow> run_queues demo_ready j = []"
    by (simp_all add: demo_ready_def)
  have "(7 :: nat) < PRIORITY_COUNT" by (simp add: PRIORITY_COUNT_def)
  with a q(1) obtain th where r: "r = Some th" by (cases r) auto
  then obtain rest where h: "run_queues demo_ready (prio demo_ready th) = th # rest"
      "run_queues t = (run_queues demo_ready)(prio demo_ready th := rest)" using a by auto
  have "\<not> prio demo_ready th < 7" using a r q(1) \<open>7 < PRIORITY_COUNT\<close> by auto
  moreover have "\<not> 7 < prio demo_ready th" using h(1) q(3) by fastforce
  ultimately have "prio demo_ready th = 7" by simp
  then show "r = Some 7 \<and> run_queues t 7 = [] \<and> run_queues t 3 = [3, 19]" using r h q by simp
qed

text \<open>C36: putting a thread into the run queues. The thread is appended to the queue of its priority, or
  becomes the next thread when it is more urgent than the running one; queues and mask stay in
  agreement. When another thread was to run next, and is less urgent, the inserted thread
  becomes the next one and is queued as well, while the thread it displaces is not put back into any
  queue.\<close>

theorem sched_insert_places_thread:
  assumes "insertable th s"
  shows "runs_to (sched_insert E d th) s (\<lambda>_ t. queues_ok t \<and> sched_lock t \<and> (case thread_next s of
      None \<Rightarrow> if prio s th \<le> prio s (thread_current s)
              then thread_next t = None \<and> run_queues t = requeued th s
              else thread_next t = Some th \<and> run_queues t = run_queues s
    | Some n \<Rightarrow> run_queues t = requeued th s \<and> thread_next t = (if prio s th \<le> prio s n then Some n else Some th)))"
proof (cases "prio s th \<le> prio s (compared s)")
  case True
  show ?thesis unfolding sched_insert_def numeral_2_eq_2
    by (rule runs_to_mono [OF runs_to_insert_queue [OF assms True]])
      (use True in \<open>auto simp: compared_def split: option.splits\<close>)
next
  case False
  then have "prio s (compared s) < prio s th" by simp
  note w = runs_to_insert_standby [OF assms this]
  show ?thesis unfolding sched_insert_def numeral_2_eq_2
    by (rule runs_to_mono [OF w]) (use False in \<open>auto simp: compared_def split: option.splits\<close>)
qed

definition demo_inserting :: "nat list cpu" where
  "demo_inserting = demo_ready\<lparr>threads := demo_thread(5 := (demo_thread 5)\<lparr>thread_lock := True\<rparr>)\<rparr>"

theorem sched_insert_places_thread_witness:
  "insertable 5 demo_inserting \<and>
   runs_to (sched_insert demo_outside (\<lambda>_. kreturn ()) 5) demo_inserting (\<lambda>_ t. thread_next t = Some 5)"
proof -
  have "queues_ok demo_inserting"
    by (rule queues_ok_same [OF demo_ready_ok(1)]) (simp_all add: demo_inserting_def demo_ready_def demo_cpu_def)
  then have i: "insertable 5 demo_inserting"
    by (simp add: insertable_def calm_def quiet_def demo_inserting_def demo_ready_def demo_cpu_def demo_thread_def)
  have "runs_to (sched_insert demo_outside (\<lambda>_. kreturn ()) 5) demo_inserting (\<lambda>_ t. thread_next t = Some 5)"
    by (rule runs_to_mono [OF sched_insert_places_thread [OF i]])
      (simp add: demo_inserting_def demo_ready_def demo_cpu_def demo_thread_def)
  with i show ?thesis by simp
qed

section \<open>Signalling\<close>

text \<open>A thread waits on an object the way \<open>sched_wait_single\<close> leaves it.\<close>

definition waits_on :: "nat \<Rightarrow> nat \<Rightarrow> nat \<Rightarrow> 'h cpu \<Rightarrow> bool" where
  "waits_on th wb hdr s \<longleftrightarrow> waitercount (objs s hdr) \<noteq> 0 \<and>
     (\<exists>rest. waitblock_list (objs s hdr) = wb # rest) \<and>
     wb_thread (wblocks s wb) = th \<and> \<not> wb_unwaited (wblocks s wb) \<and> \<not> thread_lock (threads s th) \<and>
     thr_state (threads s th) = kThreadStateWaiting \<and> wait_status (threads s th) = STATUS_WAITING \<and>
     wait_block_array (threads s th) = Some wb \<and> wait_count (threads s th) = 1"

lemmas deadlock_defs = thr_acquire_def spinlock_acquire_raise_def spinlock_acquire_def irql_raise_def km_defs upd_defs

lemma sched_resume_locked:
  assumes "thr_state (threads s th) \<noteq> kThreadStateReady" and "irql s \<le> IRQL_DISPATCH" and "\<not> sched_lock s"
    and "thread_lock (threads s th)"
  shows "sched_resume E d th s = Inl Deadlock"
  using assms by (simp add: sched_resume_def deadlock_defs)

lemma sched_unwait_locked:
  assumes "thr_state (threads s th) = kThreadStateWaiting" and "wait_status (threads s th) = STATUS_WAITING"
    and "wait_block_array (threads s th) = Some wb" and "wait_count (threads s th) = 1"
    and "irql s \<le> IRQL_DISPATCH" and "\<not> sched_lock s" and "thread_lock (threads s th)"
  shows "sched_unwait E d th status s = Inl Deadlock"
  using assms by (simp add: sched_unwait_def km_defs sched_resume_locked upd_defs)

lemma obj_satisfy_deadlocks:
  assumes "waits_on th wb hdr s" and "object_lock (objs s hdr)" and "irql s \<le> IRQL_DISPATCH" and "\<not> sched_lock s"
  shows "obj_satisfy (Suc f) E d hdr wake_all s = Inl Deadlock"
  using assms by (auto simp: waits_on_def obj_satisfy_def thr_acquire_def spinlock_acquire_def km_defs
      sched_unwait_locked upd_defs)

text \<open>C35: signalling an event that a thread waits for never returns. The loop that wakes the waiter holds the
  waiter's lock while it calls \<open>sched_unwait\<close>, which reaches \<open>sched_resume\<close>, and that takes the
  same lock again; the spin ends in the deadlock assertion. This holds for both kinds of event, and
  whatever the heap, the clock and the dispatcher are.\<close>

theorem event_signal_with_waiter_deadlocks:
  assumes "waits_on th wb event s" and "signalcount (objs s event) = 0" and "\<not> object_lock (objs s event)"
    and "irql s \<le> IRQL_DISPATCH" and "\<not> sched_lock s" and "0 < fuel"
  shows "event_signal fuel E d event s = Inl Deadlock"
proof -
  obtain f where f: "fuel = Suc f" using assms(6) gr0_conv_Suc by blast
  define u where "u = upd_obj event (object_lock_update (\<lambda>_. True)) (s\<lparr>irql := IRQL_DISPATCH\<rparr>)"
  have "waits_on th wb event u" and "object_lock (objs u event)" and "irql u \<le> IRQL_DISPATCH" and "\<not> sched_lock u"
    using assms by (auto simp: u_def waits_on_def upd_defs)
  note dead = obj_satisfy_deadlocks [OF this, of f E d]
  have "OBJ_ACQUIRE d event s = Inr (irql s, u)"
    using assms by (simp add: OBJ_ACQUIRE_def spinlock_acquire_raise_def spinlock_acquire_def irql_raise_def km_defs u_def)
  moreover have "signalcount (objs u event) = 0" and "waitercount (objs u event) \<noteq> 0"
    using assms by (auto simp: u_def waits_on_def upd_defs)
  ultimately show ?thesis using dead by (simp add: event_signal_def f kbind_def kget_def kthen_def)
qed

definition demo_waiting :: "nat list cpu" where
  "demo_waiting = demo_cpu\<lparr>objs := (objs demo_cpu)(9 := (objs demo_cpu 9)\<lparr>waitercount := 1, waitblock_list := [4]\<rparr>),
     wblocks := (wblocks demo_cpu)(4 := \<lparr>wb_dequeued = False, wb_unwaited = False, wb_object = 9, wb_thread = 2\<rparr>),
     threads := demo_thread(2 := (demo_thread 2)\<lparr>thr_state := kThreadStateWaiting, wait_status := STATUS_WAITING,
       wait_block_array := Some 4, wait_count := 1\<rparr>)\<rparr>"

theorem event_signal_with_waiter_deadlocks_witness:
  "event_signal 3 demo_outside (\<lambda>_. kreturn ()) 9 demo_waiting = Inl Deadlock"
  by (rule event_signal_with_waiter_deadlocks [of 2 4])
    (simp_all add: waits_on_def demo_waiting_def demo_cpu_def demo_thread_def)

end
