(* ===== verification/Ker_Mutex.thy ===== *)
theory Ker_Mutex
  imports Ker_Props
begin

text \<open>
  Mutual exclusion for the mutexes of \<^verbatim>\<open>lib/mutex.c\<close>, over every interleaving of the threads that use one.
\<close>

section \<open>Operations that respect a relation\<close>

text \<open>Every result of an operation is related to the state it started in.\<close>

definition keeps :: "('s \<Rightarrow> 's \<Rightarrow> bool) \<Rightarrow> ('s, 'a) km \<Rightarrow> bool" where
  "keeps R m \<longleftrightarrow> (\<forall>s x t. m s = Inr (x, t) \<longrightarrow> R s t)"

lemma keepsD: "keeps R m \<Longrightarrow> m s = Inr (x, t) \<Longrightarrow> R s t"
  by (auto simp: keeps_def)

locale preorder_relation =
  fixes R :: "'s \<Rightarrow> 's \<Rightarrow> bool"
  assumes refl: "R s s"
    and trans: "R s t \<Longrightarrow> R t u \<Longrightarrow> R s u"
begin

lemma keeps_kreturn: "keeps R (kreturn x)"
  by (simp add: keeps_def kreturn_def refl)

lemma keeps_kfail: "keeps R (kfail e)"
  by (simp add: keeps_def kfail_def)

lemma keeps_kget: "keeps R (kget f)"
  by (simp add: keeps_def kget_def refl)

lemma keeps_kassert: "keeps R (kassert b msg)"
  by (simp add: kassert_def keeps_kreturn keeps_kfail)

lemma keeps_kguard: "keeps R (kguard b e)"
  by (simp add: kguard_def keeps_kreturn keeps_kfail)

lemma keeps_kbind:
  assumes "keeps R m" and "\<And>x. keeps R (f x)"
  shows "keeps R (kbind m f)"
  unfolding keeps_def
proof (intro allI impI)
  fix s x t assume "kbind m f s = Inr (x, t)"
  then obtain y u where "m s = Inr (y, u)" and "f y u = Inr (x, t)"
    by (auto simp: kbind_def split: sum.splits prod.splits)
  then show "R s t" using assms trans by (meson keepsD)
qed

lemma keeps_kthen: "keeps R m \<Longrightarrow> keeps R n \<Longrightarrow> keeps R (kthen m n)"
  by (simp add: kthen_def keeps_kbind)

lemma keeps_kwhen: "keeps R m \<Longrightarrow> keeps R (kwhen b m)"
  by (simp add: kwhen_def keeps_kreturn)

lemma keeps_kfor: "(\<And>x. keeps R (body x)) \<Longrightarrow> keeps R (kfor xs body)"
  by (induction xs) (simp_all add: keeps_kreturn keeps_kthen)

lemma keeps_if: "keeps R m \<Longrightarrow> keeps R n \<Longrightarrow> keeps R (if b then m else n)"
  by simp

lemma keeps_option: "keeps R m \<Longrightarrow> (\<And>x. keeps R (f x)) \<Longrightarrow> keeps R (case v of None \<Rightarrow> m | Some x \<Rightarrow> f x)"
  by (simp split: option.split)

lemma keeps_list: "keeps R m \<Longrightarrow> (\<And>x y. keeps R (f x y)) \<Longrightarrow> keeps R (case v of [] \<Rightarrow> m | x # y \<Rightarrow> f x y)"
  by (simp split: list.split)

lemmas keeps_rules = keeps_kreturn keeps_kfail keeps_kget keeps_kassert keeps_kguard keeps_kbind keeps_kthen
  keeps_kwhen keeps_kfor keeps_if keeps_option keeps_list

end

lemma keeps_kmodify: "(\<And>s. R s (f s)) \<Longrightarrow> keeps R (kmodify f)"
  by (simp add: keeps_def kmodify_def)

section \<open>What the scheduler does to a mutex\<close>

text \<open>The mutex is not touched, and its event is not signalled.\<close>

definition sparing :: "nat \<Rightarrow> 'h cpu \<Rightarrow> 'h cpu \<Rightarrow> bool" where
  "sparing m s t \<longleftrightarrow> mutexes t m = mutexes s m \<and>
     (let ev = mtx_event (mutexes s m) in
      obj_type (objs t ev) = obj_type (objs s ev) \<and>
      (0 \<le> signalcount (objs s ev) \<longrightarrow>
        0 \<le> signalcount (objs t ev) \<and> signalcount (objs t ev) \<le> signalcount (objs s ev)))"

interpretation sp: preorder_relation "sparing m"
  by unfold_locales (auto simp: sparing_def Let_def)

named_theorems spares

declare sp.keeps_rules [spares]

lemma sparing_same:
  "mutexes t = mutexes s \<Longrightarrow> (\<And>ob. obj_type (objs t ob) = obj_type (objs s ob)) \<Longrightarrow>
   (\<And>ob. signalcount (objs t ob) = signalcount (objs s ob)) \<Longrightarrow> sparing m s t"
  by (simp add: sparing_def Let_def)

lemma spares_modify [spares]:
  "(\<And>s. mutexes (f s) = mutexes s \<and> objs (f s) = objs s) \<Longrightarrow> keeps (sparing m) (kmodify f)"
  by (intro keeps_kmodify sparing_same) auto

lemma spares_upd_obj [spares]:
  "(\<And>ob. obj_type (f ob) = obj_type ob \<and> (signalcount (f ob) = signalcount ob \<or> signalcount (f ob) = 0)) \<Longrightarrow>
   keeps (sparing m) (kmodify (upd_obj i f))"
proof (rule keeps_kmodify)
  fix s assume f: "\<And>ob. obj_type (f ob) = obj_type ob \<and> (signalcount (f ob) = signalcount ob \<or> signalcount (f ob) = 0)"
  show "sparing m s (upd_obj i f s)"
    using f [of "objs s i"] by (auto simp: sparing_def Let_def upd_defs)
qed

lemma spares_spinlock [spares]:
  "(\<And>b s. mutexes (upd (\<lambda>_. b) s) = mutexes s \<and> objs (upd (\<lambda>_. b) s) = objs s) \<Longrightarrow>
   keeps (sparing m) (spinlock_acquire flag upd)"
  "(\<And>b s. mutexes (upd (\<lambda>_. b) s) = mutexes s \<and> objs (upd (\<lambda>_. b) s) = objs s) \<Longrightarrow>
   keeps (sparing m) (spinlock_release upd)"
  unfolding spinlock_acquire_def spinlock_release_def by (auto intro!: spares)

lemma spares_obj_lock [spares]:
  "keeps (sparing m) (OBJ_ACQUIRE_ELEVATED ob)" "keeps (sparing m) (OBJ_RELEASE_ELEVATED ob)"
  unfolding OBJ_ACQUIRE_ELEVATED_def OBJ_RELEASE_ELEVATED_def spinlock_acquire_def spinlock_release_def
  by (auto intro!: spares)

lemma spares_irql_raise [spares]: "keeps (sparing m) (irql_raise (cpu_io d) level)"
  unfolding irql_raise_def by (auto intro!: spares)

lemma spares_OBJ_ACQUIRE [spares]: "keeps (sparing m) (OBJ_ACQUIRE d ob)"
  unfolding OBJ_ACQUIRE_def spinlock_acquire_raise_def spinlock_acquire_def by (auto intro!: spares)

lemma spares_acquire_raise [spares]:
  "keeps (sparing m) (spinlock_acquire_raise (cpu_io d) sched_lock sched_lock_update)"
  "keeps (sparing m) (te_acquire_raise d)"
  unfolding te_acquire_raise_def spinlock_acquire_raise_def by (auto intro!: spares)

lemma spares_dpc_enqueue [spares]: "keeps (sparing m) (dpc_enqueue p c1 c2)"
  unfolding keeps_def
proof (intro allI impI)
  fix s x t assume e: "dpc_enqueue p c1 c2 s = Inr (x, t)"
  then have "\<not> dpc_lock s" and "t = enqueued p c1 c2 s"
    using runs_to_dpc_enqueue [of p c1 c2 s "\<lambda>_ u. u = t"] by (auto simp: runs_to_def)
  then show "sparing m s t" by (intro sparing_same) (simp_all add: enqueued_def)
qed

lemma spares_thread_lock [spares]: "keeps (sparing m) (thr_acquire th)" "keeps (sparing m) (thr_release th)"
  unfolding thr_acquire_def thr_release_def by (auto intro!: spares)

lemma spares_current_nanos [spares]: "keeps (sparing m) (current_nanos E)"
  unfolding current_nanos_def by (auto intro!: spares)

text \<open>What may lower the level runs the dispatcher, which is assumed to spare the mutex.\<close>

lemma spares_lower:
  assumes "\<And>l. keeps (sparing m) (d l)"
  shows "keeps (sparing m) (irql_lower (cpu_io d) level)" and "keeps (sparing m) (OBJ_RELEASE d ob level)"
    and "keeps (sparing m) (te_release_lower d level)"
    and "keeps (sparing m) (spinlock_release_lower (cpu_io d) sched_lock_update level)"
  unfolding irql_lower_def OBJ_RELEASE_def te_release_lower_def spinlock_release_lower_def spinlock_release_def
  by (auto intro!: spares assms)

lemma spares_timer:
  assumes d: "\<And>l. keeps (sparing m) (d l)"
  shows "keeps (sparing m) (timer_uninstall E d tp)" and "keeps (sparing m) (timer_set E d tp dl p)"
    and "keeps (sparing m) (timer_install E d tp c1 c2)"
proof -
  show un: "keeps (sparing m) (timer_uninstall E d tp)"
    unfolding timer_uninstall_def by (auto intro!: spares spares_lower [OF d])
  show "keeps (sparing m) (timer_set E d tp dl p)"
    unfolding timer_set_def by (auto intro!: spares spares_lower [OF d] un)
  show "keeps (sparing m) (timer_install E d tp c1 c2)"
    unfolding timer_install_def by (auto intro!: spares spares_lower [OF d])
qed

lemma spares_check_timer:
  assumes d: "\<And>l. keeps (sparing m) (d l)"
  shows "keeps (sparing m) (check_timer E d th)"
  unfolding check_timer_def timer_set_in_def by (auto intro!: spares spares_timer [OF d])

lemma spares_insert_from:
  assumes d: "\<And>l. keeps (sparing m) (d l)"
  shows "keeps (sparing m) (sched_insert_from f E d th)"
  by (induction f)
    (auto intro!: spares spares_check_timer [OF d] simp: Let_def softint_issue_def)

lemma spares_resume:
  assumes d: "\<And>l. keeps (sparing m) (d l)"
  shows "keeps (sparing m) (sched_resume E d th)" and "keeps (sparing m) (sched_unwait E d th status)"
proof -
  show res: "keeps (sparing m) (sched_resume E d th)"
    unfolding sched_resume_def sched_insert_def
    by (auto intro!: spares spares_lower [OF d] spares_insert_from [OF d])
  show "keeps (sparing m) (sched_unwait E d th status)"
    unfolding sched_unwait_def by (auto intro!: spares res)
qed

lemma spares_satisfy_loop:
  assumes d: "\<And>l. keeps (sparing m) (d l)"
  shows "keeps (sparing m) (satisfy_loop f E d hdr wake_all)"
  by (induction f) (auto intro!: spares spares_resume [OF d])

lemma spares_sched_next_from [spares]: "keeps (sparing m) (sched_next_from n p)"
  by (induction n) (auto intro!: spares)

lemma spares_sched_yield:
  assumes d: "\<And>l. keeps (sparing m) (d l)"
  shows "keeps (sparing m) (sched_yield E d)"
  unfolding sched_yield_def sched_yield_internal_def sched_next_def sched_switch_thread_def sched_port_switch_def
  by (auto intro!: spares spares_timer [OF d])

lemma spares_consume:
  fixes X Y :: "('h cpu, 'a) km"
  assumes "keeps (sparing m) X" and "keeps (sparing m) Y"
  shows "keeps (sparing m) (kbind (kget (\<lambda>s. signalcount (objs s hdr))) (\<lambda>n.
    if n \<noteq> 0
    then kthen (kwhen b (kmodify (upd_obj hdr (\<lambda>ob. ob\<lparr>signalcount := signalcount ob - 1\<rparr>)))) X
    else Y))"
  unfolding keeps_def
proof (intro allI impI)
  fix s t :: "'h cpu" and x
  let ?u = "upd_obj hdr (\<lambda>ob. ob\<lparr>signalcount := signalcount ob - 1\<rparr>) s"
  assume e: "kbind (kget (\<lambda>s. signalcount (objs s hdr))) (\<lambda>n.
    if n \<noteq> 0
    then kthen (kwhen b (kmodify (upd_obj hdr (\<lambda>ob. ob\<lparr>signalcount := signalcount ob - 1\<rparr>)))) X
    else Y) s = Inr (x, t)"
  have "sparing m s ?u" if "signalcount (objs s hdr) \<noteq> 0"
    using that by (auto simp: sparing_def Let_def upd_defs)
  moreover have "sparing m s t" if "X s = Inr (x, t)" using assms(1) that by (rule keepsD)
  moreover have "sparing m s t" if "Y s = Inr (x, t)" using assms(2) that by (rule keepsD)
  moreover have "sparing m ?u t" if "X ?u = Inr (x, t)" using assms(1) that by (rule keepsD)
  ultimately show "sparing m s t" using e sp.trans
    by (auto simp: km_defs split: if_splits)
qed

lemma spares_wait_single:
  assumes d: "\<And>l. keeps (sparing m) (d l)"
  shows "keeps (sparing m) (sched_wait_single E d wb hdr)"
  unfolding sched_wait_single_def wait_thread_def
  by (rule spares_consume spares_upd_obj spares spares_lower [OF d] spares_sched_yield [OF d] | simp)+

text \<open>So does the part of a wait that runs after the waiting thread was switched to again.\<close>

lemma spares_wait_resumed:
  assumes d: "\<And>l. keeps (sparing m) (d l)"
  shows "keeps (sparing m) (sched_wait_single_resumed d th level)"
  unfolding sched_wait_single_resumed_def wait_thread_resumed_def dequeue_wb_def
  by (auto intro!: spares spares_lower [OF d])

section \<open>Taking and giving up a mutex\<close>

abbreviation count :: "nat \<Rightarrow> 'h cpu \<Rightarrow> int" where
  "count m s \<equiv> signalcount (objs s (mtx_event (mutexes s m)))"

lemma sparing_count: "sparing m s t \<Longrightarrow> 0 \<le> count m s \<Longrightarrow> 0 \<le> count m t \<and> count m t \<le> count m s"
  "sparing m s t \<Longrightarrow> mutexes t m = mutexes s m"
  by (auto simp: sparing_def Let_def)

lemma mutex_try_result:
  assumes d: "\<And>l. keeps (sparing m) (d l)" and r: "mutex_try d m s = Inr (got, t)"
  shows "if got then count m s = 1 \<and> count m t = 0 \<and> owner (mutexes s m) = None \<and>
      mutexes t m = (mutexes s m)\<lparr>owner := Some (thread_current s)\<rparr>
    else sparing m s t"
proof -
  let ?ev = "mtx_event (mutexes s m)"
  define u where "u = upd_obj ?ev (object_lock_update (\<lambda>_. True)) (s\<lparr>irql := IRQL_DISPATCH\<rparr>)"
  define v where "v = upd_obj ?ev (\<lambda>ob. ob\<lparr>signalcount := 0\<rparr>) (upd_mutex m (\<lambda>mx. mx\<lparr>owner := Some (thread_current s)\<rparr>) u)"
  have "sparing m s u" by (simp add: sparing_def Let_def u_def upd_defs)
  have "runs_to (mutex_try d m) s (\<lambda>x y. x = got \<and> y = t)" using r by (simp add: runs_to_def)
  then have w: "if count m s = 1 then owner (mutexes s m) = None \<and> runs_to (OBJ_RELEASE d ?ev (irql s)) v (\<lambda>_ y. got \<and> y = t)
     else runs_to (OBJ_RELEASE d ?ev (irql s)) u (\<lambda>_ y. \<not> got \<and> y = t)"
    by (simp add: mutex_try_def wp u_def v_def upd_defs split: if_splits)
  have rel: "sparing m a t" if "runs_to (OBJ_RELEASE d ?ev (irql s)) a (\<lambda>_ y. b \<and> y = t)" for a b
    using that keepsD [OF spares_lower(2) [OF d]] by (auto simp: runs_to_def)
  show ?thesis
  proof (cases "count m s = 1")
    case True
    then have "got" and "owner (mutexes s m) = None" and "sparing m v t"
      using w rel by (auto simp: runs_to_def)
    moreover have "mutexes v m = (mutexes s m)\<lparr>owner := Some (thread_current s)\<rparr>" and "count m v = 0"
      by (simp_all add: v_def u_def upd_defs)
    ultimately show ?thesis using True sparing_count [of m v t] by auto
  next
    case False
    then have "\<not> got" and "sparing m u t" using w rel by (auto simp: runs_to_def)
    then show ?thesis using sp.trans [OF \<open>sparing m s u\<close>] by simp
  qed
qed

lemma mutex_disown_result:
  assumes d: "\<And>l. keeps (sparing m) (d l)" and r: "mutex_disown d m s = Inr (x, t)" and "0 \<le> count m s"
  shows "owner (mutexes s m) = Some (thread_current s) \<and> owner (mutexes t m) = None \<and> 0 \<le> count m t \<and> count m t \<le> count m s"
proof -
  let ?ev = "mtx_event (mutexes s m)"
  define u where "u = upd_mutex m (\<lambda>mx. mx\<lparr>owner := None\<rparr>)
    (upd_obj ?ev (object_lock_update (\<lambda>_. True)) (s\<lparr>irql := IRQL_DISPATCH\<rparr>))"
  have "runs_to (mutex_disown d m) s (\<lambda>_ y. y = t)" using r by (simp add: runs_to_def)
  then have own: "owner (mutexes s m) = Some (thread_current s)" and "runs_to (OBJ_RELEASE d ?ev (irql s)) u (\<lambda>_ y. y = t)"
    by (simp_all add: mutex_disown_def wp Let_def u_def upd_defs)
  then have "sparing m u t" using keepsD [OF spares_lower(2) [OF d]] by (auto simp: runs_to_def)
  moreover have "owner (mutexes u m) = None" and "count m u = count m s" by (simp_all add: u_def upd_defs)
  ultimately show ?thesis using own assms(3) sparing_count [of m u t] by simp
qed

text \<open>What an event may look like while it is being signalled.\<close>

definition settled :: "mutex \<Rightarrow> nat \<Rightarrow> 'h cpu \<Rightarrow> bool" where
  "settled mx m s \<longleftrightarrow> mutexes s m = mx \<and> 0 \<le> count m s \<and> count m s \<le> 1"

lemma settled_sparing: "keeps (sparing m) p \<Longrightarrow> p s = Inr (x, t) \<Longrightarrow> settled mx m s \<Longrightarrow> settled mx m t"
  using keepsD [of "sparing m" p s x t] sparing_count [of m s t] by (auto simp: settled_def)

lemma settled_signal: "settled mx m s \<Longrightarrow> settled mx m (upd_obj (mtx_event mx) (\<lambda>ob. ob\<lparr>signalcount := 1\<rparr>) s)"
  by (simp add: settled_def upd_defs)

lemma settled_wake:
  assumes d: "\<And>l. keeps (sparing m) (d l)" and s: "settled mx m s"
    and r: "(if w then if n then kthen (obj_satisfy f E d (mtx_event mx) True)
                            (kmodify (upd_obj (mtx_event mx) (\<lambda>ob. ob\<lparr>signalcount := 1\<rparr>)))
                       else obj_satisfy f E d (mtx_event mx) False
             else kmodify (upd_obj (mtx_event mx) (\<lambda>ob. ob\<lparr>signalcount := 1\<rparr>))) s = Inr (x, t)"
  shows "settled mx m t"
proof -
  have k: "keeps (sparing m) (obj_satisfy f E d (mtx_event mx) all)" for all
    unfolding obj_satisfy_def by (auto intro!: spares spares_satisfy_loop [OF d])
  consider (notif) y b where "obj_satisfy f E d (mtx_event mx) True s = Inr (y, b)"
      "t = upd_obj (mtx_event mx) (\<lambda>ob. ob\<lparr>signalcount := 1\<rparr>) b"
    | (sync) "obj_satisfy f E d (mtx_event mx) False s = Inr (x, t)"
    | (none) "t = upd_obj (mtx_event mx) (\<lambda>ob. ob\<lparr>signalcount := 1\<rparr>) s"
    using r by (auto simp: kthen_def kbind_def kmodify_def split: if_splits sum.splits)
  then show ?thesis
  proof cases
    case notif
    then show ?thesis using settled_signal [OF settled_sparing [OF k notif(1) s]] by simp
  next
    case sync
    then show ?thesis by (rule settled_sparing [OF k _ s])
  next
    case none
    then show ?thesis using settled_signal [OF s] by simp
  qed
qed

lemma event_signal_result:
  assumes d: "\<And>l. keeps (sparing m) (d l)" and r: "event_signal f E d (mtx_event (mutexes s m)) s = Inr (x, t)"
    and c: "count m s = 0"
  shows "mutexes t m = mutexes s m \<and> 0 \<le> count m t \<and> count m t \<le> 1"
proof -
  let ?ev = "mtx_event (mutexes s m)"
  define u where "u = upd_obj ?ev (object_lock_update (\<lambda>_. True)) (s\<lparr>irql := IRQL_DISPATCH\<rparr>)"
  let ?body = "if waitercount (objs u ?ev) \<noteq> 0
          then if obj_type (objs u ?ev) = kObjTypeEventNotif
               then kthen (obj_satisfy f E d ?ev True) (kmodify (upd_obj ?ev (\<lambda>ob. ob\<lparr>signalcount := 1\<rparr>)))
               else obj_satisfy f E d ?ev False
          else kmodify (upd_obj ?ev (\<lambda>ob. ob\<lparr>signalcount := 1\<rparr>))"
  have u: "settled (mutexes s m) m u" and cu: "signalcount (objs u ?ev) = 0"
    using c by (simp_all add: settled_def u_def upd_defs)
  have "runs_to (event_signal f E d ?ev) s (\<lambda>_ y. y = t)" using r by (simp add: runs_to_def)
  then have "runs_to ?body u (\<lambda>_ a. runs_to (OBJ_RELEASE d ?ev (irql s)) a (\<lambda>_ y. y = t))"
    using cu by (auto simp: event_signal_def wp u_def [symmetric] simp del: upd_simps split: if_splits)
  then obtain y a z where m: "?body u = Inr (y, a)" and z: "OBJ_RELEASE d ?ev (irql s) a = Inr (z, t)"
    unfolding runs_to_def by blast
  have "settled (mutexes s m) m t"
    by (rule settled_sparing [OF spares_lower(2) [OF d] z settled_wake [OF d u m]])
  then show ?thesis unfolding settled_def .
qed

section \<open>Mutual exclusion\<close>

text \<open>
  The threads that use a mutex, interleaved. A state holds the processor, the threads that have taken
  the mutex and not yet given it up, and those in \<open>mutex_release\<close> that still have to signal.
  A round of \<open>mutex_acquire\<close> is a step that takes the mutex or a step that does not, followed by a
  wait. Everything else, switches between threads included, is a step that does not touch the mutex.
\<close>

type_synonym 'h mutex_users = "'h cpu \<times> nat set \<times> nat set"

inductive mutex_step :: "'h outside \<Rightarrow> (u8 \<Rightarrow> ('h cpu, unit) km) \<Rightarrow> nat \<Rightarrow> 'h mutex_users \<Rightarrow> 'h mutex_users \<Rightarrow> bool"
  for E d m where
  take: "mutex_try d m s = Inr (True, t) \<Longrightarrow> mutex_step E d m (s, H, L) (t, insert (thread_current s) H, L)"
| busy: "mutex_try d m s = Inr (False, t) \<Longrightarrow> mutex_step E d m (s, H, L) (t, H, L)"
| wait: "sched_wait_single E d wb (mtx_event (mutexes s m)) s = Inr (r, t) \<Longrightarrow> mutex_step E d m (s, H, L) (t, H, L)"
| woken: "sched_wait_single_resumed d th level s = Inr (r', t) \<Longrightarrow> mutex_step E d m (s, H, L) (t, H, L)"
| disown: "mutex_disown d m s = Inr (u, t) \<Longrightarrow>
    mutex_step E d m (s, H, L) (t, H - {thread_current s}, insert (thread_current s) L)"
| signal: "thread_current s \<in> L \<Longrightarrow> event_signal f E d (mtx_event (mutexes s m)) s = Inr (r'', t) \<Longrightarrow>
    mutex_step E d m (s, H, L) (t, H, L - {thread_current s})"
| other: "sparing m s t \<Longrightarrow> mutex_step E d m (s, H, L) (t, H, L)"

text \<open>The signal, the threads inside and the threads that are leaving add up to one at most.\<close>

fun mutex_inv :: "nat \<Rightarrow> 'h mutex_users \<Rightarrow> bool" where
  "mutex_inv m (s, H, L) \<longleftrightarrow> finite H \<and> finite L \<and> 0 \<le> count m s \<and> count m s + int (card H) + int (card L) \<le> 1 \<and>
     (\<forall>th. owner (mutexes s m) = Some th \<longleftrightarrow> th \<in> H)"

lemma mutex_inv_sparing: "mutex_inv m (s, H, L) \<Longrightarrow> sparing m s t \<Longrightarrow> mutex_inv m (t, H, L)"
  using sparing_count [of m s t] by auto

lemma at_most_one:
  assumes "finite H" and "finite L" and "0 \<le> c" and "c + int (card H) + int (card L) \<le> 1"
  shows "c = 1 \<Longrightarrow> H = {} \<and> L = {}" and "th \<in> H \<Longrightarrow> H = {th} \<and> L = {} \<and> c = 0"
    and "th \<in> L \<Longrightarrow> L = {th} \<and> H = {} \<and> c = 0"
proof -
  have pos: "x \<in> A \<Longrightarrow> finite A \<Longrightarrow> card A = Suc (card (A - {x}))" for x :: 'a and A
    by (metis card_Suc_Diff1)
  have posb: "x \<in> A \<Longrightarrow> finite A \<Longrightarrow> card A = Suc (card (A - {x}))" for x :: 'b and A
    by (metis card_Suc_Diff1)
  show "H = {} \<and> L = {}" if "c = 1"
  proof -
    have "card H = 0" "card L = 0" using that assms(4) by linarith+
    then show ?thesis using assms by simp
  qed
  show "H = {th} \<and> L = {} \<and> c = 0" if "th \<in> H" for th
  proof -
    have "card (H - {th}) = 0" "card L = 0" "c = 0" using pos [OF that assms(1)] assms(3,4) by linarith+
    then have "H - {th} = {}" "L = {}" using assms(1,2) by (metis card_0_eq finite_Diff)+
    then show ?thesis using that \<open>c = 0\<close> by blast
  qed
  show "L = {th} \<and> H = {} \<and> c = 0" if "th \<in> L" for th
  proof -
    have "card (L - {th}) = 0" "card H = 0" "c = 0" using posb [OF that assms(2)] assms(3,4) by linarith+
    then have "L - {th} = {}" "H = {}" using assms(1,2) by (metis card_0_eq finite_Diff)+
    then show ?thesis using that \<open>c = 0\<close> by blast
  qed
qed

lemma mutex_inv_cases:
  assumes "mutex_inv m (s, H, L)"
  shows "count m s = 1 \<Longrightarrow> H = {} \<and> L = {}" and "th \<in> H \<Longrightarrow> H = {th} \<and> L = {} \<and> count m s = 0"
    and "th \<in> L \<Longrightarrow> L = {th} \<and> H = {} \<and> count m s = 0"
proof -
  have a: "finite H" "finite L" "0 \<le> count m s" "count m s + int (card H) + int (card L) \<le> 1" using assms by simp_all
  show "count m s = 1 \<Longrightarrow> H = {} \<and> L = {}" by (rule at_most_one(1) [OF a])
  show "th \<in> H \<Longrightarrow> H = {th} \<and> L = {} \<and> count m s = 0" by (rule at_most_one(2) [OF a])
  show "th \<in> L \<Longrightarrow> L = {th} \<and> H = {} \<and> count m s = 0" by (rule at_most_one(3) [OF a])
qed

lemma mutex_inv_step:
  assumes d: "\<And>l. keeps (sparing m) (d l)" and "mutex_step E d m x y" and "mutex_inv m x"
  shows "mutex_inv m y"
  using assms(2)
proof cases
  case (take s t H L)
  have r: "count m s = 1" "count m t = 0" "owner (mutexes t m) = Some (thread_current s)"
    using mutex_try_result [OF d take(3)] by auto
  have "mutex_inv m (s, H, L)" using assms(3) unfolding take(1) .
  then have "H = {}" "L = {}" using mutex_inv_cases(1) r(1) by blast+
  then show ?thesis unfolding take(2) using r by auto
next
  case (busy s t H L)
  have "sparing m s t" using mutex_try_result [OF d busy(3)] by simp
  then show ?thesis using mutex_inv_sparing assms(3) unfolding busy(1,2) by blast
next
  case (wait wb s r t H L)
  show ?thesis using keepsD [OF spares_wait_single [OF d] wait(3)] mutex_inv_sparing assms(3) unfolding wait(1,2) by blast
next
  case (woken th level s r' t H L)
  show ?thesis using keepsD [OF spares_wait_resumed [OF d] woken(3)] mutex_inv_sparing assms(3) unfolding woken(1,2) by blast
next
  case (disown s u t H L)
  have inv: "mutex_inv m (s, H, L)" using assms(3) unfolding disown(1) .
  then have "0 \<le> count m s" and own: "\<And>th. owner (mutexes s m) = Some th \<Longrightarrow> th \<in> H" by auto
  note r = mutex_disown_result [OF d disown(3) this(1)]
  then have "H = {thread_current s}" "L = {}" "count m s = 0"
    using mutex_inv_cases(2) [OF inv own, of "thread_current s"] by blast+
  then show ?thesis unfolding disown(2) using r by simp
next
  case (signal s L f r'' t H)
  have inv: "mutex_inv m (s, H, L)" using assms(3) unfolding signal(1) .
  have c: "L = {thread_current s}" "H = {}" "count m s = 0"
    using mutex_inv_cases(3) [OF inv signal(3)] by blast+
  have "owner (mutexes s m) \<noteq> Some th" for th using inv c(2) by simp
  moreover have "mutexes t m = mutexes s m" "0 \<le> count m t" "count m t \<le> 1"
    using event_signal_result [OF d signal(4) c(3)] by blast+
  ultimately show ?thesis unfolding signal(2) using c(1,2) by simp
next
  case (other s t H L)
  show ?thesis using other(3) mutex_inv_sparing assms(3) unfolding other(1,2) by blast
qed

lemma mutex_inv_steps:
  assumes d: "\<And>l. keeps (sparing m) (d l)" and "(mutex_step E d m)\<^sup>*\<^sup>* x y" and "mutex_inv m x"
  shows "mutex_inv m y"
  using assms(2,3) by (induction rule: rtranclp_induct) (auto intro: mutex_inv_step [OF d])

lemma mutex_init_inv: "mutex_init m s = Inr (u, t) \<Longrightarrow> mutex_inv m (t, {}, {})"
  by (auto simp: mutex_init_def obj_init_def event_init_def km_defs upd_defs)

text \<open>C33: a mutex is held by one thread at a time. In every state that the threads using a freshly initialised
  mutex can reach, in whatever order their steps are interleaved and whatever runs in between without
  touching the mutex, two threads that both got the mutex and have not given it up are the same
  thread, the recorded owner, and no thread is still on its way out.\<close>

theorem mutex_mutual_exclusion:
  assumes "mutex_init m s0 = Inr (u, s)" and "\<And>l. keeps (sparing m) (d l)"
    and "(mutex_step E d m)\<^sup>*\<^sup>* (s, {}, {}) (t, H, L)" and "th1 \<in> H" and "th2 \<in> H"
  shows "th1 = th2 \<and> owner (mutexes t m) = Some th1 \<and> L = {}"
proof -
  have inv: "mutex_inv m (t, H, L)" using mutex_inv_steps [OF assms(2,3) mutex_init_inv [OF assms(1)]] .
  then have "owner (mutexes t m) = Some th1" using assms(4) by auto
  then show ?thesis using mutex_inv_cases(2) [OF inv assms(4)] assms(5) by blast
qed

text \<open>A thread takes the mutex, a second one tries in vain, and the first one is still the only one inside.\<close>

theorem mutex_mutual_exclusion_witness:
  "\<exists>s t. mutex_init 0 demo_cpu = Inr ((), s) \<and>
     (mutex_step demo_outside (\<lambda>_. kreturn ()) 0)\<^sup>*\<^sup>* (s, {}, {}) (t, {1}, {}) \<and> thread_current t = 2 \<and>
     owner (mutexes t 0) = Some 1"
proof -
  let ?d = "\<lambda>_. kreturn () :: (nat list cpu, unit) km" and ?q = "\<lambda>s. irql s = IRQL_DISPATCH \<and> drop_bit 2 (softint_pending s) = 0"
  let ?ev = "\<lambda>s. objs s (mtx_event (mutexes s 0))"
  define s where "s = (case mutex_init 0 demo_cpu of Inr (_, s) \<Rightarrow> s)"
  have s: "mutex_init 0 demo_cpu = Inr ((), s)" "?q s" "count 0 s = 1" "\<not> object_lock (?ev s)" "owner (mutexes s 0) = None"
      "thread_current s = 1"
    by (simp_all add: s_def mutex_init_def obj_init_def event_init_def km_defs upd_defs demo_cpu_def)
  have "runs_to (mutex_try ?d 0) s (\<lambda>r t. r = True \<and> ?q t \<and> \<not> object_lock (?ev t) \<and> count 0 t = 0)"
    using s by (simp add: mutex_try_def wp upd_defs runs_to_OBJ_RELEASE_quiet)
  then obtain u where u: "mutex_try ?d 0 s = Inr (True, u)" "?q u" "\<not> object_lock (?ev u)" "count 0 u = 0"
    by (auto simp: runs_to_def)
  let ?v = "u\<lparr>thread_current := 2\<rparr>"
  have "runs_to (mutex_try ?d 0) ?v (\<lambda>r t. r = False \<and> thread_current t = 2)"
    using u by (simp add: mutex_try_def wp upd_defs runs_to_OBJ_RELEASE_quiet)
  then obtain t where t: "mutex_try ?d 0 ?v = Inr (False, t)" "thread_current t = 2" by (auto simp: runs_to_def)
  have "mutex_step demo_outside ?d 0 (s, {}, {}) (u, {1}, {})"
    using mutex_step.take [OF u(1), of demo_outside "{}" "{}"] s(6) by simp
  moreover have "mutex_step demo_outside ?d 0 (u, {1}, {}) (?v, {1}, {})"
    by (rule mutex_step.other) (simp add: sparing_def)
  moreover have "mutex_step demo_outside ?d 0 (?v, {1}, {}) (t, {1}, {})" by (rule mutex_step.busy [OF t(1)])
  ultimately have steps: "(mutex_step demo_outside ?d 0)\<^sup>*\<^sup>* (s, {}, {}) (t, {1}, {})"
    by (meson rtranclp.rtrancl_into_rtrancl rtranclp.rtrancl_refl)
  have "keeps (sparing 0) (?d l)" for l by (rule spares)
  from mutex_mutual_exclusion [OF s(1) this steps, of 1 1] have "owner (mutexes t 0) = Some 1" by simp
  then show ?thesis using s(1) steps t(2) by blast
qed

end
