(* ===== verification/Ker_Engine.thy ===== *)
theory Ker_Engine
  imports Ker_Props
begin

text \<open>
  The timer engine: with a heap that does what \<open>heap_laws\<close> asks for, one run of the engine fires every
  timer that is due and arms the hardware for the earliest of the others.
\<close>

text \<open>The timers can be handled: the engine is free, and nobody waits for a timer or holds its lock.\<close>

definition engine_ready :: "'h heap_ops \<Rightarrow> ('h \<Rightarrow> nat set) \<Rightarrow> ((nat \<Rightarrow> u64) \<Rightarrow> 'h \<Rightarrow> bool) \<Rightarrow> 'h cpu \<Rightarrow> bool" where
  "engine_ready hp content ordered s \<longleftrightarrow> heap_laws hp content ordered \<and> ordered (deadlines s) (timerlist s) \<and>
     irql s = IRQL_DISPATCH \<and> \<not> te_lock s \<and>
     (\<forall>t \<in> content (timerlist s). \<not> object_lock (objs s t) \<and> waitercount (objs s t) = 0)"

text \<open>What a function that is run for a timer must leave alone.\<close>

definition engine_kept :: "'h cpu \<Rightarrow> 'h cpu \<Rightarrow> bool" where
  "engine_kept s t \<longleftrightarrow> timers t = timers s \<and> timerlist t = timerlist s \<and> te_lock t = te_lock s \<and> irql t = irql s \<and>
     objs t = objs s \<and> clock_reads t = clock_reads s \<and> armed t = armed s"

definition timer_fired :: "timer \<Rightarrow> timer" where
  "timer_fired t = t\<lparr>timer_engine := False, tstate := kTimerFired\<rparr>"

lemma heap_lawsD:
  assumes "heap_laws hp content ordered"
  shows "finite (content h)" and "HEAP_EMPTY hp h \<longleftrightarrow> content h = {}"
    and "ordered key h \<Longrightarrow> (\<And>t. t \<in> content h \<Longrightarrow> key' t = key t) \<Longrightarrow> ordered key' h"
    and "ordered key h \<Longrightarrow> content h \<noteq> {} \<Longrightarrow> HEAP_PEEK hp h \<in> content h"
    and "ordered key h \<Longrightarrow> content h \<noteq> {} \<Longrightarrow> t \<in> content h \<Longrightarrow> key (HEAP_PEEK hp h) \<le> key t"
    and "ordered key h \<Longrightarrow> content h \<noteq> {} \<Longrightarrow> fst (HEAP_POP hp key h) = HEAP_PEEK hp h"
    and "ordered key h \<Longrightarrow> content h \<noteq> {} \<Longrightarrow> ordered key (snd (HEAP_POP hp key h))"
    and "ordered key h \<Longrightarrow> content h \<noteq> {} \<Longrightarrow> content (snd (HEAP_POP hp key h)) = content h - {HEAP_PEEK hp h}"
proof -
  note laws = assms [unfolded heap_laws_def]
  show "finite (content h)" and "HEAP_EMPTY hp h \<longleftrightarrow> content h = {}" using laws by simp_all
  have same: "\<forall>key key' h. ordered key h \<longrightarrow> (\<forall>t \<in> content h. key' t = key t) \<longrightarrow> ordered key' h" using laws by (elim conjE)
  show "ordered key h \<Longrightarrow> (\<And>t. t \<in> content h \<Longrightarrow> key' t = key t) \<Longrightarrow> ordered key' h" using same by blast
  have peek: "\<forall>key h. ordered key h \<longrightarrow> content h \<noteq> {} \<longrightarrow>
      HEAP_PEEK hp h \<in> content h \<and> (\<forall>t \<in> content h. key (HEAP_PEEK hp h) \<le> key t)" using laws by (elim conjE)
  show "ordered key h \<Longrightarrow> content h \<noteq> {} \<Longrightarrow> HEAP_PEEK hp h \<in> content h"
    and "ordered key h \<Longrightarrow> content h \<noteq> {} \<Longrightarrow> t \<in> content h \<Longrightarrow> key (HEAP_PEEK hp h) \<le> key t" using peek by blast+
  have pop: "\<forall>key h. ordered key h \<longrightarrow> content h \<noteq> {} \<longrightarrow> fst (HEAP_POP hp key h) = HEAP_PEEK hp h \<and>
      ordered key (snd (HEAP_POP hp key h)) \<and> content (snd (HEAP_POP hp key h)) = content h - {HEAP_PEEK hp h}"
    using laws by (elim conjE)
  show "ordered key h \<Longrightarrow> content h \<noteq> {} \<Longrightarrow> fst (HEAP_POP hp key h) = HEAP_PEEK hp h"
    and "ordered key h \<Longrightarrow> content h \<noteq> {} \<Longrightarrow> ordered key (snd (HEAP_POP hp key h))"
    and "ordered key h \<Longrightarrow> content h \<noteq> {} \<Longrightarrow> content (snd (HEAP_POP hp key h)) = content h - {HEAP_PEEK hp h}"
    using pop by blast+
qed

lemma runs_to_timer_fire:
  assumes "engine_ready (heap E) content ordered s" and "content (timerlist s) \<noteq> {}"
  defines "root \<equiv> HEAP_PEEK (heap E) (timerlist s)"
  shows "runs_to (timer_fire f E d) (s\<lparr>clock_reads := n, te_lock := True\<rparr>) (\<lambda>p t. p = timer_dpc (timers s root) \<and>
    engine_ready (heap E) content ordered t \<and> content (timerlist t) = content (timerlist s) - {root} \<and>
    timers t = (timers s)(root := timer_fired (timers s root)) \<and> clock_reads t = n \<and> armed t = armed s)"
proof -
  have laws: "heap_laws (heap E) content ordered" and ord: "ordered (deadlines s) (timerlist s)"
    using assms(1) by (simp_all add: engine_ready_def)
  note pop = heap_lawsD(4,6-8) [OF laws ord assms(2), folded root_def]
  obtain rest where rest: "HEAP_POP (heap E) (deadlines s) (timerlist s) = (root, rest)"
    using pop(2) by (cases "HEAP_POP (heap E) (deadlines s) (timerlist s)") simp
  have free: "\<not> object_lock (objs s root)" "waitercount (objs s root) = 0"
    using assms(1) pop(1) by (simp_all add: engine_ready_def)
  define t where "t = upd_obj root (object_lock_update (\<lambda>_. False)) (upd_timer root (\<lambda>t. t\<lparr>tstate := kTimerFired\<rparr>)
    ((upd_timer root (\<lambda>t. t\<lparr>timer_engine := False\<rparr>) (upd_obj root (object_lock_update (\<lambda>_. True))
      (s\<lparr>clock_reads := n, te_lock := True, timerlist := rest\<rparr>)))\<lparr>te_lock := False\<rparr>))"
  have fields: "timers t = (timers s)(root := timer_fired (timers s root))" "timerlist t = rest" "te_lock t = False"
      "irql t = irql s" "clock_reads t = n" "armed t = armed s"
      "objs t = (objs s)(root := (objs s root)\<lparr>object_lock := False\<rparr>)"
    by (simp_all add: t_def upd_defs timer_fired_def)
  have "deadlines t x = deadlines s x" for x by (simp add: fields deadlines_def timer_fired_def)
  then have "ordered (deadlines t) rest" using pop(3) heap_lawsD(3) [OF laws] rest by simp
  then have "engine_ready (heap E) content ordered t"
    using assms(1) pop(4) rest by (auto simp: engine_ready_def fields)
  moreover have "deadlines (s\<lparr>clock_reads := n, te_lock := True\<rparr>) = deadlines s" by (simp add: fun_eq_iff deadlines_def)
  then have "runs_to (timer_fire f E d) (s\<lparr>clock_reads := n, te_lock := True\<rparr>) Q \<longleftrightarrow> Q (timer_dpc (timers s root)) t" for Q
    using rest free by (simp add: timer_fire_def wp t_def)
  ultimately show ?thesis using pop(4) rest by (simp add: fields)
qed

text \<open>What one run of the engine achieves.\<close>

definition engine_result :: "(nat \<Rightarrow> u64) \<Rightarrow> ('h \<Rightarrow> nat set) \<Rightarrow> 'h cpu \<Rightarrow> 'h cpu \<Rightarrow> bool" where
  "engine_result clock content s t \<longleftrightarrow>
     (let old = content (timerlist s); new = content (timerlist t); fired = old - new in
      new \<subseteq> old \<and> \<not> te_lock t \<and>
      (\<forall>x. timers t x = (if x \<in> fired then timer_fired (timers s x) else timers s x)) \<and>
      (\<forall>x \<in> fired. \<exists>k. clock_reads s \<le> k \<and> k < clock_reads t \<and> deadlines s x \<le> clock k) \<and>
      (\<forall>x \<in> new. clock (clock_reads t - 1) < deadlines s x) \<and>
      (if new = {} then next_deadline t = UINT64_MAX \<and> armed t = armed s @ [0]
       else next_deadline t \<in> deadlines s ` new \<and> (\<forall>x \<in> new. next_deadline t \<le> deadlines s x) \<and>
         armed t = armed s @ [next_deadline t]))"

lemma engine_result_step:
  assumes r: "engine_result clock content u t" and root: "root \<in> content (timerlist s)"
    and u: "content (timerlist u) = content (timerlist s) - {root}"
      "timers u = (timers s)(root := timer_fired (timers s root))"
      "clock_reads u = Suc (clock_reads s)" "armed u = armed s"
    and due: "deadlines s root \<le> clock (clock_reads s)" and mono: "clock_reads u < clock_reads t"
  shows "engine_result clock content s t"
proof -
  let ?old = "content (timerlist s)" and ?mid = "content (timerlist u)" and ?new = "content (timerlist t)"
  have d: "deadlines u x = deadlines s x" for x by (simp add: deadlines_def u timer_fired_def)
  have du: "deadlines u = deadlines s" using d by blast
  have parts: "?new \<subseteq> ?mid" "\<not> te_lock t"
      "\<forall>x. timers t x = (if x \<in> ?mid - ?new then timer_fired (timers u x) else timers u x)"
      "\<forall>x \<in> ?mid - ?new. \<exists>k. clock_reads u \<le> k \<and> k < clock_reads t \<and> deadlines s x \<le> clock k"
      "\<forall>x \<in> ?new. clock (clock_reads t - 1) < deadlines s x"
      "if ?new = {} then next_deadline t = UINT64_MAX \<and> armed t = armed s @ [0]
       else next_deadline t \<in> deadlines s ` ?new \<and> (\<forall>x \<in> ?new. next_deadline t \<le> deadlines s x) \<and>
         armed t = armed s @ [next_deadline t]"
    using r unfolding engine_result_def Let_def du u(4) by - (elim conjE, assumption)+
  note sub = parts(1) and tm = parts(3) [rule_format] and early = parts(4) [rule_format]
  have fired: "?old - ?new = insert root (?mid - ?new)" using sub root u(1) by auto
  have "\<forall>x. timers t x = (if x \<in> ?old - ?new then timer_fired (timers s x) else timers s x)"
  proof
    show "timers t x = (if x \<in> ?old - ?new then timer_fired (timers s x) else timers s x)" for x
      using tm [of x] u(1,2) sub unfolding fired by auto
  qed
  moreover have "\<forall>x \<in> ?old - ?new. \<exists>k. clock_reads s \<le> k \<and> k < clock_reads t \<and> deadlines s x \<le> clock k"
  proof
    fix x assume that: "x \<in> ?old - ?new"
    show "\<exists>k. clock_reads s \<le> k \<and> k < clock_reads t \<and> deadlines s x \<le> clock k"
    proof (cases "x = root")
      case True
      then show ?thesis using due mono u(3) by (intro exI [of _ "clock_reads s"]) simp
    next
      case False
      then have "x \<in> ?mid - ?new" using that unfolding fired by simp
      then obtain k where "clock_reads u \<le> k \<and> k < clock_reads t \<and> deadlines s x \<le> clock k" using early by metis
      then show ?thesis using u(3) by (intro exI [of _ k]) simp
    qed
  qed
  moreover have "?new \<subseteq> ?old" using sub u(1) by auto
  ultimately show ?thesis using parts(2,5,6) unfolding engine_result_def Let_def by (intro conjI) assumption+
qed

lemma runs_to_engine_round:
  assumes "engine_ready (heap E) content ordered s"
  defines "n \<equiv> clock_reads s"
  shows "runs_to (time_engine_progress (Suc f) E d run) s Q \<longleftrightarrow>
    (let h = timerlist s; l = s\<lparr>clock_reads := Suc n, te_lock := True\<rparr>; dl = deadlines s (HEAP_PEEK (heap E) h) in
     if content h = {} then Q () (s\<lparr>clock_reads := Suc n, next_deadline := UINT64_MAX, armed := armed s @ [0], te_lock := False\<rparr>)
     else if dl > nanos E n then Q () (s\<lparr>clock_reads := Suc n, next_deadline := dl, armed := armed s @ [dl], te_lock := False\<rparr>)
     else runs_to (timer_fire f E d) l (\<lambda>p t.
       runs_to (case p of
           None \<Rightarrow> kreturn ()
         | Some q \<Rightarrow> kbind (kget (\<lambda>s. dpcs s q)) (\<lambda>c. run q (dpc_context1 c) (dpc_context2 c))) t
         (\<lambda>_ u. runs_to (time_engine_progress f E d run) u Q)))"
proof -
  have "heap_laws (heap E) content ordered" using assms(1) by (simp add: engine_ready_def)
  note empty = heap_lawsD(2) [OF this]
  have "deadlines (s\<lparr>clock_reads := Suc n, te_lock := True\<rparr>) = deadlines s" by (simp add: fun_eq_iff deadlines_def)
  then show ?thesis
    using assms by (simp add: current_nanos_def engine_ready_def wp empty arm_def Let_def
        del: runs_to_case_option)
qed

lemma engine_ready_kept: "engine_ready hp content ordered s \<Longrightarrow> engine_kept s t \<Longrightarrow> engine_ready hp content ordered t"
  by (simp add: engine_ready_def engine_kept_def deadlines_def [abs_def])

lemma engine_result_empty:
  assumes "content (timerlist s) = {}"
  shows "engine_result clock content s
    (s\<lparr>clock_reads := Suc (clock_reads s), next_deadline := UINT64_MAX, armed := armed s @ [0], te_lock := False\<rparr>)"
  using assms by (simp add: engine_result_def)

lemma engine_result_later:
  assumes "engine_ready hp content ordered s" and "content (timerlist s) \<noteq> {}"
    and "clock (clock_reads s) < deadlines s (HEAP_PEEK hp (timerlist s))"
  defines "dl \<equiv> deadlines s (HEAP_PEEK hp (timerlist s))"
  shows "engine_result clock content s
    (s\<lparr>clock_reads := Suc (clock_reads s), next_deadline := dl, armed := armed s @ [dl], te_lock := False\<rparr>)"
proof -
  have "heap_laws hp content ordered" and "ordered (deadlines s) (timerlist s)"
    using assms(1) by (simp_all add: engine_ready_def)
  note peek = heap_lawsD(4,5) [OF this assms(2)]
  have "clock (clock_reads s) < deadlines s x" if "x \<in> content (timerlist s)" for x
    using assms(3) peek(2) [OF that] by simp
  then show ?thesis using assms(2) peek by (simp add: engine_result_def dl_def)
qed

text \<open>After a timer was popped, the rest of the run is the run on the remaining timers.\<close>

lemma engine_continues:
  assumes ready: "engine_ready (heap E) content ordered s" and ne: "content (timerlist s) \<noteq> {}"
    and due: "deadlines s (HEAP_PEEK (heap E) (timerlist s)) \<le> nanos E (clock_reads s)"
    and IH: "\<And>u. engine_ready (heap E) content ordered u \<Longrightarrow> card (content (timerlist u)) < card (content (timerlist s)) \<Longrightarrow>
      runs_to m u (\<lambda>_ v. engine_result (nanos E) content u v \<and> clock_reads u < clock_reads v)"
  shows "runs_to (timer_fire f E d) (s\<lparr>clock_reads := Suc (clock_reads s), te_lock := True\<rparr>) (\<lambda>p t. \<forall>u. engine_kept t u \<longrightarrow>
    runs_to m u (\<lambda>_ v. engine_result (nanos E) content s v \<and> clock_reads s < clock_reads v))"
proof (rule runs_to_mono [OF runs_to_timer_fire [OF ready ne]], elim conjE, intro allI impI)
  let ?root = "HEAP_PEEK (heap E) (timerlist s)"
  have laws: "heap_laws (heap E) content ordered" and ord: "ordered (deadlines s) (timerlist s)"
    using ready by (simp_all add: engine_ready_def)
  have root: "?root \<in> content (timerlist s)" by (rule heap_lawsD(4) [OF laws ord ne])
  fix t u
  assume t: "engine_ready (heap E) content ordered t" "content (timerlist t) = content (timerlist s) - {?root}"
    "timers t = (timers s)(?root := timer_fired (timers s ?root))" "clock_reads t = Suc (clock_reads s)" "armed t = armed s"
    and kept: "engine_kept t u"
  have u: "content (timerlist u) = content (timerlist s) - {?root}" "timers u = (timers s)(?root := timer_fired (timers s ?root))"
      "clock_reads u = Suc (clock_reads s)" "armed u = armed s"
    using kept t by (simp_all add: engine_kept_def)
  have "card (content (timerlist u)) < card (content (timerlist s))"
    using card_Suc_Diff1 [OF heap_lawsD(1) [OF laws] root] unfolding u(1) by linarith
  from IH [OF engine_ready_kept [OF t(1) kept] this]
  show "runs_to m u (\<lambda>_ v. engine_result (nanos E) content s v \<and> clock_reads s < clock_reads v)"
  proof (rule runs_to_mono, elim conjE)
    fix v assume v: "engine_result (nanos E) content u v" "clock_reads u < clock_reads v"
    show "engine_result (nanos E) content s v \<and> clock_reads s < clock_reads v"
      using engine_result_step [OF v(1) root u due v(2)] v(2) u(3) by simp
  qed
qed

lemma runs_to_timer_function:
  assumes run: "\<And>q a b s. runs_to (run q a b) s (\<lambda>_ t. engine_kept s t)" and "\<forall>u. engine_kept t u \<longrightarrow> Q u"
  shows "runs_to (case p of
      None \<Rightarrow> kreturn ()
    | Some q \<Rightarrow> kbind (kget (\<lambda>s. dpcs s q)) (\<lambda>c. run q (dpc_context1 c) (dpc_context2 c))) t (\<lambda>_ u. Q u)"
proof (cases p)
  case None
  have "engine_kept t t" by (simp add: engine_kept_def)
  then show ?thesis using assms(2) None by (simp add: wp)
next
  case (Some q)
  have "runs_to (run q a b) t (\<lambda>_ u. Q u)" for a b by (rule runs_to_mono [OF run]) (use assms(2) in blast)
  then show ?thesis using Some by (simp add: wp)
qed

lemma runs_to_engine:
  assumes run: "\<And>q a b s. runs_to (run q a b) s (\<lambda>_ t. engine_kept s t)"
    and "engine_ready (heap E) content ordered s" and "card (content (timerlist s)) < fuel"
  shows "runs_to (time_engine_progress fuel E d run) s
    (\<lambda>_ t. engine_result (nanos E) content s t \<and> clock_reads s < clock_reads t)"
  using assms(2,3)
proof (induction fuel arbitrary: s)
  case 0
  then show ?case by simp
next
  case (Suc fuel)
  let ?ok = "\<lambda>u. runs_to (time_engine_progress fuel E d run) u
      (\<lambda>_ v. engine_result (nanos E) content s v \<and> clock_reads s < clock_reads v)"
  have "runs_to (timer_fire fuel E d) (s\<lparr>clock_reads := Suc (clock_reads s), te_lock := True\<rparr>) (\<lambda>p t.
      runs_to (case p of
          None \<Rightarrow> kreturn ()
        | Some q \<Rightarrow> kbind (kget (\<lambda>s. dpcs s q)) (\<lambda>c. run q (dpc_context1 c) (dpc_context2 c))) t (\<lambda>_ u. ?ok u))"
    if "content (timerlist s) \<noteq> {}" and "deadlines s (HEAP_PEEK (heap E) (timerlist s)) \<le> nanos E (clock_reads s)"
  proof (rule runs_to_mono [OF engine_continues [OF Suc.prems(1) that]])
    show "runs_to (time_engine_progress fuel E d run) u (\<lambda>_ v. engine_result (nanos E) content u v \<and> clock_reads u < clock_reads v)"
      if "engine_ready (heap E) content ordered u" and "card (content (timerlist u)) < card (content (timerlist s))" for u
      by (rule Suc.IH [OF that(1)]) (use that(2) Suc.prems(2) in linarith)
  qed (rule runs_to_timer_function [OF run])
  then show ?case
    unfolding runs_to_engine_round [OF Suc.prems(1)] Let_def
    using engine_result_empty [of content s "nanos E"] engine_result_later [OF Suc.prems(1), of "nanos E"]
    by (auto simp: not_less)
qed


text \<open>A sorted list is such a heap.\<close>

definition list_ordered :: "(nat \<Rightarrow> u64) \<Rightarrow> nat list \<Rightarrow> bool" where
  "list_ordered key h \<longleftrightarrow> sorted (map key h) \<and> distinct h"

lemma list_heap_laws: "heap_laws list_heap set list_ordered"
  unfolding heap_laws_def
proof (intro conjI allI impI)
  fix key key' :: "nat \<Rightarrow> u64" and h t
  show "list_ordered key (HEAP_NIL list_heap)" and "set (HEAP_NIL list_heap) = {}" and "finite (set h)"
    and "HEAP_EMPTY list_heap h \<longleftrightarrow> set h = {}"
    by (simp_all add: list_ordered_def list_heap_def)
  { assume "list_ordered key h" and "\<forall>t \<in> set h. key' t = key t"
    then show "list_ordered key' h" by (simp add: list_ordered_def cong: map_cong) }
  { assume "list_ordered key h" and "set h \<noteq> {}"
    then show "HEAP_PEEK list_heap h \<in> set h" and "\<forall>t \<in> set h. key (HEAP_PEEK list_heap h) \<le> key t"
        and "fst (HEAP_POP list_heap key h) = HEAP_PEEK list_heap h" and "list_ordered key (snd (HEAP_POP list_heap key h))"
        and "set (snd (HEAP_POP list_heap key h)) = set h - {HEAP_PEEK list_heap h}"
      by (cases h; auto simp: list_heap_def list_ordered_def)+ }
  { assume "list_ordered key h" and "t \<notin> set h"
    then show "list_ordered key (HEAP_INSERT list_heap key t h)" and "set (HEAP_INSERT list_heap key t h) = insert t (set h)"
      by (simp_all add: list_heap_def list_ordered_def sorted_insort_key distinct_insort set_insort_key) }
  { assume "list_ordered key h" and "t \<in> set h"
    then show "list_ordered key (HEAP_REMOVE list_heap key t h)" and "set (HEAP_REMOVE list_heap key t h) = set h - {t}"
      by (simp_all add: list_heap_def list_ordered_def sorted_map_remove1) }
qed

definition demo_timers :: "nat list cpu" where
  "demo_timers = demo_cpu\<lparr>timerlist := [3, 4], timers := (\<lambda>i. \<lparr>timer_dpc = None, deadline = if i = 3 then 5 else 25,
     tstate = kTimerQueued, timer_engine = True\<rparr>)\<rparr>"


end
