(* ===== verification/Irq.thy ===== *)
theory Irq
  imports Ndk_Lock
begin

text \<open>
  Interrupt vectors and the objects attached to them (\<^verbatim>\<open>irq/irq.c\<close>), and the table of handlers and the
  descriptor table of amd64 (\<^verbatim>\<open>platform/amd64/int.c\<close>).

  An interrupt object is a number that the state maps to the object. What a driver's handler does is
  an argument of the operations that call it.
\<close>

section \<open>Structures\<close>

definition IRQ_SHAREABLE :: u32 where "IRQ_SHAREABLE = push_bit 0 1"

definition IRQ_VECTOR_MAX :: u32 where "IRQ_VECTOR_MAX = 256 - 32"

definition IRQL_VECTOR_COUNT_PER :: u32 where "IRQL_VECTOR_COUNT_PER = 16"

definition IRQL_TO_VECTOR :: "u8 \<Rightarrow> u32" where
  "IRQL_TO_VECTOR level = push_bit 4 (ucast level) - 32"

record irq_vector =
  iv_vector :: u32
  iv_flags :: u32
  objectcnt :: u64
  objq :: "nat list"

record irq_obj =
  irq_attached :: "u32 option"
  irq_handler :: "nat option"

text \<open>The functions in the table of handlers: the dispatcher of \<^verbatim>\<open>irq/irq.c\<close>, and those of the platform.\<close>

datatype isr = Irq_do_dispatch | Port_isr nat

record idt_entry =
  isr_low :: u16
  kernel_cs :: u16
  ist :: u8
  attributes :: u8
  isr_mid :: u16
  isr_high :: u32
  rsv :: u32

record idtr =
  idtr_limit :: u16
  idtr_base :: u64

record irq_state =
  s_vectors :: "nat \<Rightarrow> irq_vector"
  s_irq_lock :: bool
  irqs :: "nat \<Rightarrow> irq_obj"
  irq_handlers :: "nat \<Rightarrow> isr option"
  level :: u8
  pending_soft :: u64
  int_flag :: bool
  eois :: nat

definition irq_io :: "(u8 \<Rightarrow> (irq_state, unit) km) \<Rightarrow> irq_state irql_ops" where
  "irq_io d = \<lparr>irql_current = level, irql_set = level_update, softints = pending_soft, dispatcher = d\<rparr>"

section \<open>Interrupt objects\<close>

definition irq_init :: "(irq_state, unit) km" where
  "irq_init = kmodify (\<lambda>s. s\<lparr>s_vectors := (\<lambda>i.
     if i < unat IRQ_VECTOR_MAX then \<lparr>iv_vector = of_nat i, iv_flags = 0, objectcnt = 0, objq = []\<rparr> else s_vectors s i)\<rparr>)"

text \<open>Access to the table of vectors, which has \<open>IRQ_VECTOR_MAX\<close> entries.\<close>

definition vector_at :: "u32 \<Rightarrow> (irq_state, irq_vector) km" where
  "vector_at vec = kthen (kguard (vec < IRQ_VECTOR_MAX) OutOfBounds) (kget (\<lambda>s. s_vectors s (unat vec)))"

text \<open>The result is whether the interrupt was handled; the code prints a message when it was not.\<close>

definition irq_do_dispatch :: "(nat \<Rightarrow> nat \<Rightarrow> (irq_state, bool) km) \<Rightarrow> u32 \<Rightarrow> (irq_state, bool) km" where
  "irq_do_dispatch drv vec =
     kbind (vector_at vec) (\<lambda>handler.
     if objectcnt handler = 0 then kreturn False
     else
       (let round = (\<lambda>ack_count obj.
          kbind (kget (\<lambda>s. irq_handler (irqs s obj))) (\<lambda>h.
          case h of
            None \<Rightarrow> kreturn ack_count
          | Some f \<Rightarrow> kbind (drv f obj) (\<lambda>ack. kreturn (if ack then ack_count + 1 else ack_count :: nat))))
        in kbind (foldl (\<lambda>m obj. kbind m (\<lambda>n. round n obj)) (kreturn 0) (objq handler)) (\<lambda>ack_count.
           kreturn (ack_count \<noteq> 0))))"

definition port_register_isr :: "u32 \<Rightarrow> isr option \<Rightarrow> (irq_state, int) km" where
  "port_register_isr vec handler_fn =
     kthen (kguard (unat (vec + 32) < 256) OutOfBounds)
     (kbind (kget (\<lambda>s. irq_handlers s (unat (vec + 32)))) (\<lambda>h.
      if h \<noteq> None \<and> handler_fn \<noteq> None then kreturn 1
      else
        kthen (kmodify (\<lambda>s. s\<lparr>irq_handlers := (irq_handlers s)(unat (vec + 32) := handler_fn)\<rparr>))
        (kreturn 0)))"

definition irq_register_handler :: "nat \<Rightarrow> u32 \<Rightarrow> u32 \<Rightarrow> (irq_state, int) km" where
  "irq_register_handler obj vec flags =
     kbind (vector_at vec) (\<lambda>handler.
     kthen (kwhen (objectcnt handler = 0)
       (kmodify (\<lambda>s. s\<lparr>s_vectors := (s_vectors s)(unat vec := (s_vectors s (unat vec))\<lparr>iv_flags := flags\<rparr>)\<rparr>)))
     (kthen (kmodify (\<lambda>s. s\<lparr>s_vectors := (s_vectors s)(unat vec := (s_vectors s (unat vec))
        \<lparr>objq := objq (s_vectors s (unat vec)) @ [obj], objectcnt := objectcnt (s_vectors s (unat vec)) + 1\<rparr>)\<rparr>))
     (kthen (kmodify (\<lambda>s. s\<lparr>irqs := (irqs s)(obj := (irqs s obj)\<lparr>irq_attached := Some vec\<rparr>)\<rparr>))
     (port_register_isr vec (Some Irq_do_dispatch)))))"

text \<open>The search loop; a level has 16 vectors, so 17 rounds are enough.\<close>

fun irq_search :: "nat \<Rightarrow> u32 \<Rightarrow> u32 \<Rightarrow> u32 \<Rightarrow> u32 \<Rightarrow> (irq_state, u32) km" where
  "irq_search 0 search_base flags vec found = kfail OutOfFuel"
| "irq_search (Suc fuel) search_base flags vec found =
     (if \<not> vec < search_base + IRQL_VECTOR_COUNT_PER then kreturn found
      else
        kbind (vector_at vec) (\<lambda>handler.
        if objectcnt handler = 0 then kreturn vec
        else if iv_flags handler AND IRQ_SHAREABLE \<noteq> 0 \<and> flags AND IRQ_SHAREABLE \<noteq> 0
        then
          if found \<noteq> IRQ_VECTOR_MAX
          then
            kbind (vector_at found) (\<lambda>best.
            irq_search fuel search_base flags (vec + 1) (if objectcnt best > objectcnt handler then vec else found))
          else irq_search fuel search_base flags (vec + 1) vec
        else irq_search fuel search_base flags (vec + 1) found))"

definition irq_initialize_obj_irql :: "(u8 \<Rightarrow> (irq_state, unit) km) \<Rightarrow> nat \<Rightarrow> u8 \<Rightarrow> u32 \<Rightarrow> (irq_state, int) km" where
  "irq_initialize_obj_irql d obj irqlWanted flags =
     kbind (kget (\<lambda>s. irq_attached (irqs s obj))) (\<lambda>v.
     kthen (kassert (v = None) ''obj->vector == nullptr'')
     (kbind (spinlock_acquire_raise (irq_io d) s_irq_lock s_irq_lock_update) (\<lambda>oldIrql.
      let search_base = IRQL_TO_VECTOR irqlWanted in
      kbind (irq_search 17 search_base flags search_base IRQ_VECTOR_MAX) (\<lambda>found.
      if found = IRQ_VECTOR_MAX
      then kthen (spinlock_release_lower (irq_io d) s_irq_lock_update oldIrql) (kreturn 1)
      else
        kbind (irq_register_handler obj found flags) (\<lambda>ret.
        kthen (spinlock_release_lower (irq_io d) s_irq_lock_update oldIrql) (kreturn ret))))))"

section \<open>The processor\<close>

definition handle_irq ::
    "(nat \<Rightarrow> nat \<Rightarrow> (irq_state, bool) km) \<Rightarrow> (nat \<Rightarrow> u32 \<Rightarrow> (irq_state, unit) km) \<Rightarrow> (u8 \<Rightarrow> (irq_state, unit) km) \<Rightarrow> nat
     \<Rightarrow> (irq_state, unit) km" where
  "handle_irq drv port d number =
     kbind (irql_raise (irq_io d) (of_nat (number div 16))) (\<lambda>old.
     kthen (kmodify (\<lambda>s. s\<lparr>int_flag := True\<rparr>))
     (kthen (kmodify (\<lambda>s. s\<lparr>eois := eois s + 1\<rparr>))
     (kbind (kget (\<lambda>s. irq_handlers s number)) (\<lambda>h.
      kthen (case h of
               None \<Rightarrow> kfail (AssertFail ''irq_handlers[number]'')
             | Some Irq_do_dispatch \<Rightarrow> kbind (irq_do_dispatch drv (of_nat number - 32)) (\<lambda>_. kreturn ())
             | Some (Port_isr k) \<Rightarrow> port k (of_nat number - 32))
      (kthen (kmodify (\<lambda>s. s\<lparr>int_flag := False\<rparr>))
      (irql_lower (irq_io d) old))))))"

definition idt_make_entry :: "u64 \<Rightarrow> idt_entry" where
  "idt_make_entry isr =
     \<lparr>isr_low = ucast isr, kernel_cs = 1 * 8, ist = 0, attributes = 0x8E, isr_mid = ucast (drop_bit 16 isr),
      isr_high = ucast (drop_bit 32 isr), rsv = 0\<rparr>"

definition idt_set_ist :: "u8 \<Rightarrow> idt_entry \<Rightarrow> idt_entry" where
  "idt_set_ist n entry = entry\<lparr>ist := n\<rparr>"

definition cpu_idt_init :: "u64 list \<Rightarrow> idt_entry list" where
  "cpu_idt_init itable =
     (let idt = map idt_make_entry itable in
      idt[2 := idt_set_ist 1 (idt ! 2), 1 := idt_set_ist 2 (idt ! 1), 3 := idt_set_ist 2 (idt ! 3),
          8 := idt_set_ist 3 (idt ! 8)])"

definition cpu_idt_load :: "u64 \<Rightarrow> idtr" where
  "cpu_idt_load g_idt = \<lparr>idtr_limit = 16 * 256 - 1, idtr_base = g_idt\<rparr>"

text \<open>What the processor jumps to when it reads an entry.\<close>

definition entry_target :: "idt_entry \<Rightarrow> u64" where
  "entry_target e = ucast (isr_low e) OR push_bit 16 (ucast (isr_mid e)) OR push_bit 32 (ucast (isr_high e))"

lemma entry_target_make: "entry_target (idt_make_entry isr) = isr"
proof (rule bit_word_eqI)
  fix n assume "n < LENGTH(64)"
  then consider "n < 16" | "16 \<le> n" "n < 32" | "32 \<le> n" "n < 64" by fastforce
  then show "bit (entry_target (idt_make_entry isr)) n = bit isr n"
    by cases (auto simp: entry_target_def idt_make_entry_def bit_simps)
qed

lemma cpu_idt_init_targets:
  assumes "length itable = 256" and "i < 256"
  shows "entry_target (cpu_idt_init itable ! i) = itable ! i"
proof -
  have "entry_target (idt_set_ist n e) = entry_target e" for n e by (simp add: idt_set_ist_def entry_target_def)
  then show ?thesis using assms by (simp add: cpu_idt_init_def Let_def nth_list_update entry_target_make)
qed

section \<open>Attaching an object\<close>

abbreviation occupied :: "irq_state \<Rightarrow> nat \<Rightarrow> bool" where
  "occupied s v \<equiv> objectcnt (s_vectors s v) \<noteq> 0"

abbreviation shared :: "irq_state \<Rightarrow> nat \<Rightarrow> bool" where
  "shared s v \<equiv> iv_flags (s_vectors s v) AND IRQ_SHAREABLE \<noteq> 0"

text \<open>The vectors are numbered, their counters are right, a vector with several objects is shareable, and a
  vector with an object is served by the dispatcher. No vector has more than \<open>n\<close> objects.\<close>

definition irq_ok :: "nat \<Rightarrow> irq_state \<Rightarrow> bool" where
  "irq_ok n s \<longleftrightarrow> (\<forall>v < 224. let x = s_vectors s v in iv_vector x = of_nat v \<and> length (objq x) \<le> n \<and>
     objectcnt x = of_nat (length (objq x)) \<and> (2 \<le> length (objq x) \<longrightarrow> shared s v) \<and>
     irq_handlers s (v + 32) = (if objq x = [] then None else Some Irq_do_dispatch))"

lemma irq_ok_occupied:
  assumes "irq_ok n s" and "n < 2 ^ 64" and "v < 224"
  shows "occupied s v \<longleftrightarrow> objq (s_vectors s v) \<noteq> []"
proof -
  let ?k = "length (objq (s_vectors s v))"
  have "?k \<le> n" and c: "objectcnt (s_vectors s v) = of_nat ?k" using assms(1,3) by (simp_all add: irq_ok_def Let_def)
  then have u: "unat (of_nat ?k :: u64) = ?k" using assms(2) unat_of_nat [where 'a = 64, of ?k] by simp
  have "objectcnt (s_vectors s v) = 0 \<longleftrightarrow> ?k = 0" unfolding c word_unat_eq_iff u unsigned_0 ..
  then show ?thesis by simp
qed

text \<open>What the search returns for the level whose vectors start at \<open>b\<close>.\<close>

definition search_result :: "irq_state \<Rightarrow> u32 \<Rightarrow> nat \<Rightarrow> u32 \<Rightarrow> bool" where
  "search_result s flags b r \<longleftrightarrow>
     (if r = IRQ_VECTOR_MAX
      then \<forall>v. b \<le> v \<longrightarrow> v < b + 16 \<longrightarrow> occupied s v \<and> \<not> (shared s v \<and> flags AND IRQ_SHAREABLE \<noteq> 0)
      else b \<le> unat r \<and> unat r < b + 16 \<and>
        (occupied s (unat r) \<longrightarrow> flags AND IRQ_SHAREABLE \<noteq> 0 \<and> shared s (unat r) \<and>
          (\<forall>v. b \<le> v \<longrightarrow> v < b + 16 \<longrightarrow> occupied s v \<and>
            (shared s v \<longrightarrow> objectcnt (s_vectors s (unat r)) \<le> objectcnt (s_vectors s v)))))"

text \<open>The same for the part of the level already searched, all of it occupied.\<close>

definition searched :: "irq_state \<Rightarrow> u32 \<Rightarrow> nat \<Rightarrow> nat \<Rightarrow> u32 \<Rightarrow> bool" where
  "searched s flags b w r \<longleftrightarrow> (\<forall>v. b \<le> v \<longrightarrow> v < w \<longrightarrow> occupied s v) \<and>
     (if r = IRQ_VECTOR_MAX
      then \<forall>v. b \<le> v \<longrightarrow> v < w \<longrightarrow> \<not> (shared s v \<and> flags AND IRQ_SHAREABLE \<noteq> 0)
      else b \<le> unat r \<and> unat r < w \<and> flags AND IRQ_SHAREABLE \<noteq> 0 \<and> shared s (unat r) \<and>
        (\<forall>v. b \<le> v \<longrightarrow> v < w \<longrightarrow> shared s v \<longrightarrow> objectcnt (s_vectors s (unat r)) \<le> objectcnt (s_vectors s v)))"

lemma searched_done: "searched s flags b (b + 16) r \<Longrightarrow> search_result s flags b r"
  by (auto simp: searched_def search_result_def)

lemma runs_to_vector_at [wp]:
  "runs_to (vector_at v) s Q \<longleftrightarrow> unat v < 224 \<and> Q (s_vectors s (unat v)) s"
  by (simp add: vector_at_def wp IRQ_VECTOR_MAX_def word_less_nat_alt)

lemma searched_next:
  assumes "searched s flags b (unat vec) found" and "occupied s (unat vec)" and "b \<le> unat vec" and "unat vec < 224"
  shows "searched s flags b (Suc (unat vec)) (if shared s (unat vec) \<and> flags AND IRQ_SHAREABLE \<noteq> 0
    then if found \<noteq> IRQ_VECTOR_MAX
         then if objectcnt (s_vectors s (unat found)) > objectcnt (s_vectors s (unat vec)) then vec else found
         else vec
    else found)"
proof -
  have "vec \<noteq> IRQ_VECTOR_MAX" using assms(4) by (auto simp: IRQ_VECTOR_MAX_def)
  then show ?thesis using assms unfolding searched_def
    by (auto simp: less_Suc_eq not_less split: if_splits intro: order.trans less_imp_le)
qed

lemma level_bound:
  assumes "unat base + 16 \<le> 224"
  shows "unat (base + IRQL_VECTOR_COUNT_PER) = unat base + 16"
  using assms unat_add_lem [of base "16 :: u32"] by (simp add: IRQL_VECTOR_COUNT_PER_def)

lemma runs_to_irq_search:
  assumes "unat base + 16 \<le> 224" and "searched s flags (unat base) (unat vec) found"
    and "unat base \<le> unat vec" and "unat vec \<le> unat base + 16" and "unat base + 16 - unat vec < fuel"
  shows "runs_to (irq_search fuel base flags vec found) s (\<lambda>r t. t = s \<and> search_result s flags (unat base) r)"
  using assms(2-5)
proof (induction fuel arbitrary: vec found)
  case 0
  then show ?case by simp
next
  case (Suc fuel)
  let ?Q = "\<lambda>r t. t = s \<and> search_result s flags (unat base) r"
  have lt: "vec < base + IRQL_VECTOR_COUNT_PER \<longleftrightarrow> unat vec < unat base + 16"
    by (simp add: word_less_nat_alt level_bound [OF assms(1)])
  show ?case
  proof (cases "unat vec < unat base + 16")
    case False
    then have "unat vec = unat base + 16" using Suc.prems(3) by simp
    then show ?thesis using False Suc.prems(1) searched_done by (auto simp: wp lt)
  next
    case True
    then have v: "unat vec < 224" "unat (vec + 1) = Suc (unat vec)"
      using assms(1) unat_add_lem [of vec "1 :: u32"] by simp_all
    have found: "found \<noteq> IRQ_VECTOR_MAX \<Longrightarrow> unat found < 224"
      using Suc.prems(1) v(1) unfolding searched_def by (auto split: if_splits)
    have rec: "runs_to (irq_search fuel base flags (vec + 1) f) s ?Q" if "searched s flags (unat base) (Suc (unat vec)) f" for f
      by (rule Suc.IH) (use that v True Suc.prems in auto)
    show ?thesis
    proof (cases "occupied s (unat vec)")
      case False
      have "vec \<noteq> IRQ_VECTOR_MAX" using v(1) by (auto simp: IRQ_VECTOR_MAX_def)
      then have "search_result s flags (unat base) vec"
        using False True Suc.prems(2) by (simp add: search_result_def)
      then show ?thesis using True False v by (simp add: wp lt)
    next
      case occ: True
      note nxt = rec [OF searched_next [OF Suc.prems(1) occ Suc.prems(2) v(1)]]
      then show ?thesis using True occ v(1) found by (auto simp: wp lt split: if_splits)
    qed
  qed
qed

lemma level_base:
  assumes "2 \<le> lvl" and "lvl \<le> 15"
  shows "unat (IRQL_TO_VECTOR lvl) = unat lvl * 16 - 32"
proof -
  have l: "2 \<le> unat lvl" "unat lvl \<le> 15" using assms by (simp_all add: word_le_nat_alt)
  have u: "unat (ucast lvl :: u32) = unat lvl"
    using l by (simp add: unsigned_ucast_eq take_bit_nat_eq_self)
  have m: "unat (ucast lvl * 16 :: u32) = unat lvl * 16" using l unat_mult_lem [of "ucast lvl :: u32" 16] u by simp
  have "push_bit 4 (ucast lvl :: u32) = ucast lvl * 16" by (simp add: push_bit_eq_mult)
  moreover have "32 \<le> (ucast lvl * 16 :: u32)" using m l by (simp add: word_le_nat_alt)
  ultimately show ?thesis using m unat_sub [of 32 "ucast lvl * 16 :: u32"] by (simp add: IRQL_TO_VECTOR_def)
qed

text \<open>The state after an object was attached to a vector.\<close>

definition attached :: "nat \<Rightarrow> u32 \<Rightarrow> u32 \<Rightarrow> irq_state \<Rightarrow> irq_state" where
  "attached obj vec flags s = s\<lparr>s_vectors := (s_vectors s)(unat vec := (s_vectors s (unat vec))
       \<lparr>iv_flags := if occupied s (unat vec) then iv_flags (s_vectors s (unat vec)) else flags,
        objq := objq (s_vectors s (unat vec)) @ [obj], objectcnt := objectcnt (s_vectors s (unat vec)) + 1\<rparr>),
     irqs := (irqs s)(obj := (irqs s obj)\<lparr>irq_attached := Some vec\<rparr>),
     irq_handlers := if irq_handlers s (unat vec + 32) = None then (irq_handlers s)(unat vec + 32 := Some Irq_do_dispatch)
       else irq_handlers s\<rparr>"

lemma runs_to_irq_register_handler:
  assumes "unat vec < 224"
  shows "runs_to (irq_register_handler obj vec flags) s Q \<longleftrightarrow>
    Q (if irq_handlers s (unat vec + 32) = None then 0 else 1) (attached obj vec flags s)"
proof -
  have "unat (vec + 32) = unat vec + 32" using assms unat_add_lem [of vec "32 :: u32"] by simp
  then show ?thesis
    using assms
    by (cases s; cases "occupied s (unat vec)")
      (auto simp: irq_register_handler_def port_register_isr_def wp attached_def)
qed

lemma attached_ok:
  assumes "irq_ok n s" and "n < 2 ^ 64" and "unat vec < 224" and "occupied s (unat vec) \<Longrightarrow> shared s (unat vec)"
  shows "irq_ok (Suc n) (attached obj vec flags s)"
proof -
  have occ: "occupied s v \<longleftrightarrow> objq (s_vectors s v) \<noteq> []" if "v < 224" for v by (rule irq_ok_occupied [OF assms(1,2) that])
  have old: "iv_vector (s_vectors s v) = of_nat v \<and> length (objq (s_vectors s v)) \<le> n \<and>
      objectcnt (s_vectors s v) = of_nat (length (objq (s_vectors s v))) \<and>
      (2 \<le> length (objq (s_vectors s v)) \<longrightarrow> shared s v) \<and>
      irq_handlers s (v + 32) = (if objq (s_vectors s v) = [] then None else Some Irq_do_dispatch)" if "v < 224" for v
    using assms(1) that by (simp add: irq_ok_def Let_def)
  show ?thesis
    unfolding irq_ok_def Let_def
  proof (intro allI impI)
    fix v :: nat assume v: "v < 224"
    show "iv_vector (s_vectors (attached obj vec flags s) v) = of_nat v \<and>
      length (objq (s_vectors (attached obj vec flags s) v)) \<le> Suc n \<and>
      objectcnt (s_vectors (attached obj vec flags s) v) = of_nat (length (objq (s_vectors (attached obj vec flags s) v))) \<and>
      (2 \<le> length (objq (s_vectors (attached obj vec flags s) v)) \<longrightarrow> shared (attached obj vec flags s) v) \<and>
      irq_handlers (attached obj vec flags s) (v + 32) =
        (if objq (s_vectors (attached obj vec flags s) v) = [] then None else Some Irq_do_dispatch)"
      using old [OF v] occ [OF v] assms(4) old [OF assms(3)]
      by (cases "v = unat vec"; cases "objq (s_vectors s v) = []") (simp_all add: attached_def)
  qed
qed

lemma irq_ok_mono: "irq_ok n s \<Longrightarrow> s_vectors t = s_vectors s \<Longrightarrow> irq_handlers t = irq_handlers s \<Longrightarrow> n \<le> k \<Longrightarrow> irq_ok k t"
  by (auto simp: irq_ok_def Let_def intro: order.trans)

lemma irq_io_simps [simp]: "irql_current (irq_io d) = level" "irql_set (irq_io d) = level_update"
  by (simp_all add: irq_io_def)

lemma runs_to_irq_unlock:
  assumes "level s = IRQL_DISPATCH" and "old \<le> IRQL_DISPATCH" and "pending_soft s = 0"
  shows "runs_to (spinlock_release_lower (irq_io d) s_irq_lock_update old) s Q \<longleftrightarrow> Q () (s\<lparr>s_irq_lock := False, level := old\<rparr>)"
  using assms by (simp add: spinlock_release_lower_def irql_lower_def irq_io_def wp)

text \<open>The state in which an object may be attached.\<close>

definition irq_ready :: "nat \<Rightarrow> nat \<Rightarrow> irq_state \<Rightarrow> bool" where
  "irq_ready n obj s \<longleftrightarrow> irq_ok n s \<and> n < 2 ^ 64 \<and> irq_attached (irqs s obj) = None \<and> \<not> s_irq_lock s \<and>
     level s \<le> IRQL_DISPATCH \<and> pending_soft s = 0"

lemma search_result_cong: "s_vectors t = s_vectors s \<Longrightarrow> search_result t flags b r = search_result s flags b r"
  unfolding search_result_def by (simp only:)

lemma attached_unlock:
  assumes "\<not> s_irq_lock s"
  shows "(attached obj r flags (s\<lparr>level := l, s_irq_lock := True\<rparr>))\<lparr>s_irq_lock := False, level := level s\<rparr> = attached obj r flags s"
  using assms by (cases s) (simp add: attached_def)

lemma runs_to_irq_initialize:
  assumes "irq_ready n obj s" and "2 \<le> lvl" and "lvl \<le> 15"
  shows "\<exists>r. search_result s flags (unat lvl * 16 - 32) r \<and>
    (\<forall>Q. runs_to (irq_initialize_obj_irql d obj lvl flags) s Q \<longleftrightarrow>
      (if r = IRQ_VECTOR_MAX then Q 1 s
       else Q (if occupied s (unat r) then 1 else 0) (attached obj r flags s)))"
proof -
  let ?b = "IRQL_TO_VECTOR lvl" and ?l = "s\<lparr>level := IRQL_DISPATCH, s_irq_lock := True\<rparr>"
  have b: "unat ?b = unat lvl * 16 - 32" by (rule level_base [OF assms(2,3)])
  have le: "unat ?b + 16 \<le> 224" using b assms(2,3) by (simp add: word_le_nat_alt)
  have start: "searched ?l flags (unat ?b) (unat ?b) IRQ_VECTOR_MAX" by (simp add: searched_def)
  have "runs_to (irq_search 17 ?b flags ?b IRQ_VECTOR_MAX) ?l (\<lambda>r t. t = ?l \<and> search_result ?l flags (unat ?b) r)"
    by (rule runs_to_irq_search [OF le start]) simp_all
  then obtain r where r: "irq_search 17 ?b flags ?b IRQ_VECTOR_MAX ?l = Inr (r, ?l)" "search_result ?l flags (unat ?b) r"
    by (auto simp: runs_to_def)
  have res: "search_result s flags (unat lvl * 16 - 32) r" using r(2) b search_result_cong [of ?l s] by simp
  have search: "runs_to (irq_search 17 ?b flags ?b IRQ_VECTOR_MAX) ?l P \<longleftrightarrow> P r ?l" for P
    using r(1) by (simp add: runs_to_def del: irq_search.simps)
  have rng: "r \<noteq> IRQ_VECTOR_MAX \<Longrightarrow> unat r < 224" using r(2) le by (simp add: search_result_def)
  have h: "r \<noteq> IRQ_VECTOR_MAX \<Longrightarrow> irq_handlers s (unat r + 32) = None \<longleftrightarrow> \<not> occupied s (unat r)"
    using assms(1) rng irq_ok_occupied [of n s "unat r"] by (simp add: irq_ready_def irq_ok_def Let_def)
  have restored: "s\<lparr>s_irq_lock := False\<rparr> = s" using assms(1) by (cases s) (simp add: irq_ready_def)
  have lv: "level (attached obj r flags ?l) = IRQL_DISPATCH" "pending_soft (attached obj r flags ?l) = pending_soft s"
    by (simp_all add: attached_def)
  have "runs_to (irq_initialize_obj_irql d obj lvl flags) s Q \<longleftrightarrow>
      (if r = IRQ_VECTOR_MAX then Q 1 s else Q (if occupied s (unat r) then 1 else 0) (attached obj r flags s))" for Q
    using assms(1) rng h lv
    by (simp add: irq_initialize_obj_irql_def wp irq_ready_def irq_io_simps search runs_to_irq_unlock Let_def
        runs_to_irq_register_handler attached_unlock restored del: irq_search.simps)
  with res show ?thesis by blast
qed

text \<open>C40: attaching an interrupt object to a level from 2 to 15. The table stays well formed: counters right,
  only shareable vectors with several objects, every vector in use served by the dispatcher. The
  object ends up last in the queue of one of the sixteen vectors of its level: a free one if the level has
  one, otherwise a shareable one with the fewest objects, provided the object is shareable too. When there is none nothing changes and the result is 1. The result is also 1,
  although the object was attached, whenever the vector is shared.\<close>

theorem irq_initialize_keeps_table:
  assumes "irq_ready n obj s" and "2 \<le> lvl" and "lvl \<le> 15"
  shows "runs_to (irq_initialize_obj_irql d obj lvl flags) s (\<lambda>ret t. irq_ok (Suc n) t \<and>
    (let b = unat lvl * 16 - 32 in case irq_attached (irqs t obj) of
       None \<Rightarrow> t = s \<and> ret = 1 \<and> (\<forall>v. b \<le> v \<longrightarrow> v < b + 16 \<longrightarrow>
         objq (s_vectors s v) \<noteq> [] \<and> \<not> (shared s v \<and> flags AND IRQ_SHAREABLE \<noteq> 0))
     | Some v \<Rightarrow> b \<le> unat v \<and> unat v < b + 16 \<and> objq (s_vectors t (unat v)) = objq (s_vectors s (unat v)) @ [obj] \<and>
         (\<forall>w. w \<noteq> unat v \<longrightarrow> s_vectors t w = s_vectors s w) \<and>
         (if objq (s_vectors s (unat v)) = [] then ret = 0
          else ret = 1 \<and> flags AND IRQ_SHAREABLE \<noteq> 0 \<and> shared s (unat v) \<and>
            (\<forall>w. b \<le> w \<longrightarrow> w < b + 16 \<longrightarrow> objq (s_vectors s w) \<noteq> [] \<and>
              (shared s w \<longrightarrow> objectcnt (s_vectors s (unat v)) \<le> objectcnt (s_vectors s w))))))"
proof -
  let ?b = "unat lvl * 16 - 32"
  have ok: "irq_ok n s" "n < 2 ^ 64" and un: "irq_attached (irqs s obj) = None" using assms(1) by (simp_all add: irq_ready_def)
  have b: "?b + 16 \<le> 224" using assms(2,3) by (simp add: word_le_nat_alt)
  have occ: "occupied s v \<longleftrightarrow> objq (s_vectors s v) \<noteq> []" if "v < 224" for v by (rule irq_ok_occupied [OF ok that])
  obtain r where r: "search_result s flags ?b r" and run: "\<And>Q. runs_to (irq_initialize_obj_irql d obj lvl flags) s Q \<longleftrightarrow>
      (if r = IRQ_VECTOR_MAX then Q 1 s else Q (if occupied s (unat r) then 1 else 0) (attached obj r flags s))"
    using runs_to_irq_initialize [OF assms, of flags d] by blast
  show ?thesis
  proof (cases "r = IRQ_VECTOR_MAX")
    case True
    then have "objq (s_vectors s v) \<noteq> [] \<and> \<not> (shared s v \<and> flags AND IRQ_SHAREABLE \<noteq> 0)" if "?b \<le> v" "v < ?b + 16" for v
      using r that b occ [of v] by (simp add: search_result_def)
    then show ?thesis unfolding run using True un irq_ok_mono [OF ok(1), of s "Suc n"] by (simp add: Let_def)
  next
    case False
    then have rng: "?b \<le> unat r" "unat r < ?b + 16" "unat r < 224" using r b by (simp_all add: search_result_def)
    have sh: "flags AND IRQ_SHAREABLE \<noteq> 0" "shared s (unat r)" "\<And>w. ?b \<le> w \<Longrightarrow> w < ?b + 16 \<Longrightarrow>
        objq (s_vectors s w) \<noteq> [] \<and> (shared s w \<longrightarrow> objectcnt (s_vectors s (unat r)) \<le> objectcnt (s_vectors s w))"
      if "occupied s (unat r)"
    proof -
      show "flags AND IRQ_SHAREABLE \<noteq> 0" "shared s (unat r)" using r False that by (simp_all add: search_result_def)
      show "objq (s_vectors s w) \<noteq> [] \<and> (shared s w \<longrightarrow> objectcnt (s_vectors s (unat r)) \<le> objectcnt (s_vectors s w))" if w: "?b \<le> w" "w < ?b + 16" for w
        using r False \<open>occupied s (unat r)\<close> w occ [of w] b by (simp add: search_result_def)
    qed
    have "irq_ok (Suc n) (attached obj r flags s)" by (rule attached_ok [OF ok rng(3) sh(2)])
    moreover have f: "irq_attached (irqs (attached obj r flags s) obj) = Some r"
        "objq (s_vectors (attached obj r flags s) (unat r)) = objq (s_vectors s (unat r)) @ [obj]"
        "\<And>w. w \<noteq> unat r \<Longrightarrow> s_vectors (attached obj r flags s) w = s_vectors s w"
      by (simp_all add: attached_def)
    ultimately show ?thesis unfolding run using False rng(1,2) sh occ [OF rng(3)] by (simp add: Let_def)
  qed
qed

definition demo_irqs :: irq_state where
  "demo_irqs = \<lparr>s_vectors = (\<lambda>i. \<lparr>iv_vector = of_nat i, iv_flags = 0, objectcnt = 0, objq = []\<rparr>), s_irq_lock = False,
     irqs = (\<lambda>_. \<lparr>irq_attached = None, irq_handler = None\<rparr>), irq_handlers = (\<lambda>_. None), level = IRQL_PASSIVE,
     pending_soft = 0, int_flag = True, eois = 0\<rparr>"

theorem irq_initialize_keeps_table_witness:
  "irq_ready 0 5 demo_irqs \<and>
   runs_to (irq_initialize_obj_irql (\<lambda>_. kreturn ()) 5 3 IRQ_SHAREABLE) demo_irqs (\<lambda>ret t. irq_ok 1 t \<and> ret = 0)"
proof -
  have ready: "irq_ready 0 5 demo_irqs"
    by (simp add: irq_ready_def irq_ok_def Let_def demo_irqs_def IRQL_PASSIVE_def)
  have free: "objq (s_vectors demo_irqs v) = []" for v by (simp add: demo_irqs_def)
  have "runs_to (irq_initialize_obj_irql (\<lambda>_. kreturn ()) 5 3 IRQ_SHAREABLE) demo_irqs (\<lambda>ret t. irq_ok 1 t \<and> ret = 0)"
    by (rule runs_to_mono [OF irq_initialize_keeps_table [OF ready]]) (auto simp: free Let_def split: option.splits)
  with ready show ?thesis by simp
qed

end
