(* ===== verification/Slab.thy ===== *)
theory Slab
  imports Ndk_Util
begin

text \<open>
  The slab allocator (\<^verbatim>\<open>lib/slab.c\<close>, \<^verbatim>\<open>include/ndk/internal/slab_impl.h\<close>) and the allocator of small blocks
  on top of it (\<open>kmalloc\<close> of \<^verbatim>\<open>vm/kmem.c\<close>).

  Caches, slabs and the buffer controls of large slabs are found by their address. A list of links
  inside the chunks is the list of their addresses. Pages come from \<open>vm_kalloc\<close> and go back to
  \<open>vm_kfree\<close>, which work on the state \<open>vm\<close>; they and the constructors and destructors of the caches are
  arguments. The mutex of a cache is taken uncontended: one that is held makes the caller
  wait, which is \<open>Blocked\<close>.
\<close>

section \<open>Structures\<close>

definition KMEM_NAME_MAX :: nat where "KMEM_NAME_MAX = 64"

definition KMEM_SMALL_MAX :: u64 where "KMEM_SMALL_MAX = PAGE_SIZE div 16"

definition KMEM_ALIGN :: u64 where "KMEM_ALIGN = 8"

definition KMEM_SECOND_ALIGN :: u64 where "KMEM_SECOND_ALIGN = 16"

definition KMEM_MAXPAGES :: u64 where "KMEM_MAXPAGES = 8"

definition sizeof_kmem_slab :: u64 where "sizeof_kmem_slab = 48"

definition sizeof_kmem_large_bufctl :: u64 where "sizeof_kmem_large_bufctl = 24"

text \<open>A cache is smaller than a page.\<close>

definition kmem_cache_pages :: u64 where "kmem_cache_pages = 1"

record kmem_large_bufctl =
  lb_slab :: u64
  lb_base :: u64

record kmem_slab =
  freelist :: "u64 list"
  slab_refcnt :: u64
  parent_cache :: u64
  slab_base :: u64

record kmem_cache =
  kc_name :: string
  slabcap :: u64
  align :: u64
  chunksize :: u64
  bufsize :: u64
  slabsize :: u64
  constructor :: "nat option"
  destructor :: "nat option"
  ctx :: u64
  kc_mutex :: bool
  buflist :: "u64 list"
  slablist :: "u64 list"
  full_slablist :: "u64 list"

record 'w slab_state =
  vm :: 'w
  caches :: "u64 \<Rightarrow> kmem_cache"
  slabs :: "u64 \<Rightarrow> kmem_slab"
  bufctls :: "u64 \<Rightarrow> kmem_large_bufctl"
  slab_cache :: u64
  bufctl_cache :: u64
  kmalloc_caches :: "u64 list"

record 'w slab_env =
  kalloc :: "u64 \<Rightarrow> ('w, u64) km"
  kfree_pages :: "u64 \<Rightarrow> u64 \<Rightarrow> ('w, unit) km"
  construct :: "nat \<Rightarrow> u64 \<Rightarrow> u64 \<Rightarrow> ('w, int) km"
  destruct :: "nat \<Rightarrow> u64 \<Rightarrow> u64 \<Rightarrow> ('w, unit) km"

definition on_vm :: "('w, 'a) km \<Rightarrow> ('w slab_state, 'a) km" where
  "on_vm m = (\<lambda>s. case m (vm s) of Inl e \<Rightarrow> Inl e | Inr (x, w) \<Rightarrow> Inr (x, s\<lparr>vm := w\<rparr>))"

definition upd_cache :: "u64 \<Rightarrow> (kmem_cache \<Rightarrow> kmem_cache) \<Rightarrow> ('w slab_state, unit) km" where
  "upd_cache cp f = kmodify (\<lambda>s. s\<lparr>caches := (caches s)(cp := f (caches s cp))\<rparr>)"

definition upd_slab :: "u64 \<Rightarrow> (kmem_slab \<Rightarrow> kmem_slab) \<Rightarrow> ('w slab_state, unit) km" where
  "upd_slab sp f = kmodify (\<lambda>s. s\<lparr>slabs := (slabs s)(sp := f (slabs s sp))\<rparr>)"

section \<open>Slabs\<close>

definition small_slab_create :: "'w slab_env \<Rightarrow> u64 \<Rightarrow> ('w slab_state, u64) km" where
  "small_slab_create V cp =
     kbind (on_vm (kalloc V 1)) (\<lambda>pg.
     let sp = pg + PAGE_SIZE - sizeof_kmem_slab in
     kthen (kguard (pg \<noteq> 0) NullDeref)
     (kthen (upd_slab sp (\<lambda>_. \<lparr>freelist = [], slab_refcnt = 0, parent_cache = cp, slab_base = 0\<rparr>))
     (kbind (kget (\<lambda>s. caches s cp)) (\<lambda>c.
      kthen (kfor [0..<unat (slabcap c)] (\<lambda>i.
        upd_slab sp (\<lambda>sl. sl\<lparr>freelist := (pg + of_nat i * chunksize c) # freelist sl\<rparr>)))
      (kreturn sp)))))"

text \<open>\<open>alloc\<close> is the allocation from another cache.\<close>

definition large_slab_create :: "'w slab_env \<Rightarrow> (u64 \<Rightarrow> ('w slab_state, u64) km) \<Rightarrow> u64 \<Rightarrow> ('w slab_state, u64) km" where
  "large_slab_create V alloc cp =
     kbind (kget slab_cache) (\<lambda>sc.
     kbind (alloc sc) (\<lambda>sp.
     kthen (kassert (sp \<noteq> 0) ''sp'')
     (kthen (upd_slab sp (\<lambda>sl. sl\<lparr>freelist := [], slab_refcnt := 0, parent_cache := cp\<rparr>))
     (kbind (kget (\<lambda>s. caches s cp)) (\<lambda>c.
      kbind (on_vm (kalloc V (slabsize c))) (\<lambda>bas.
      kthen (upd_slab sp (\<lambda>sl. sl\<lparr>slab_base := bas\<rparr>))
      (kthen (kfor [0..<unat (slabcap c)] (\<lambda>i.
         kbind (kget bufctl_cache) (\<lambda>bc.
         kbind (alloc bc) (\<lambda>bp.
         kthen (kguard (bp \<noteq> 0) NullDeref)
         (kthen (kmodify (\<lambda>s. s\<lparr>bufctls := (bufctls s)(bp := \<lparr>lb_slab = sp, lb_base = bas + chunksize c * of_nat i\<rparr>)\<rparr>))
         (upd_slab sp (\<lambda>sl. sl\<lparr>freelist := bp # freelist sl\<rparr>)))))))
      (kreturn sp))))))))"

text \<open>\<open>LIST_REMOVE\<close> takes a slab out of the list it is in.\<close>

definition slab_unlink :: "u64 \<Rightarrow> u64 \<Rightarrow> ('w slab_state, unit) km" where
  "slab_unlink cp sp =
     upd_cache cp (\<lambda>c. c\<lparr>slablist := remove1 sp (slablist c), full_slablist := remove1 sp (full_slablist c)\<rparr>)"

definition slab_alloc :: "u64 \<Rightarrow> ('w slab_state, u64) km" where
  "slab_alloc sp =
     kbind (kget (\<lambda>s. slabs s sp)) (\<lambda>sl.
     case freelist sl of
       [] \<Rightarrow> kfail NullDeref
     | bufctl # rest \<Rightarrow>
         let cp = parent_cache sl in
         kthen (upd_slab sp (\<lambda>sl. sl\<lparr>freelist := rest, slab_refcnt := slab_refcnt sl + 1\<rparr>))
         (kbind (kget (\<lambda>s. caches s cp)) (\<lambda>c.
          kthen (kwhen (slab_refcnt sl + 1 = slabcap c)
            (kthen (slab_unlink cp sp) (upd_cache cp (\<lambda>c. c\<lparr>full_slablist := sp # full_slablist c\<rparr>))))
          (if slab_base sl = 0 then kreturn bufctl
           else
             kthen (upd_cache cp (\<lambda>c. c\<lparr>buflist := bufctl # buflist c\<rparr>))
             (kget (\<lambda>s. lb_base (bufctls s bufctl)))))))"

definition slab_free :: "u64 \<Rightarrow> u64 \<Rightarrow> ('w slab_state, unit) km" where
  "slab_free sp bufctl =
     kthen (kassert (sp \<noteq> 0) ''sp'')
     (kthen (kassert (bufctl \<noteq> 0) ''bufctl'')
     (kbind (kget (\<lambda>s. slabs s sp)) (\<lambda>sl.
      let cp = parent_cache sl in
      kbind (kget (\<lambda>s. caches s cp)) (\<lambda>c.
      kthen (kwhen (slab_refcnt sl = slabcap c)
        (kthen (slab_unlink cp sp) (upd_cache cp (\<lambda>c. c\<lparr>slablist := sp # slablist c\<rparr>))))
      (kthen (upd_slab sp (\<lambda>sl. sl\<lparr>slab_refcnt := slab_refcnt sl - 1\<rparr>))
      (kthen (kwhen (slab_base sl \<noteq> 0) (upd_cache cp (\<lambda>c. c\<lparr>buflist := remove1 bufctl (buflist c)\<rparr>)))
      (upd_slab sp (\<lambda>sl. sl\<lparr>freelist := bufctl # freelist sl\<rparr>))))))))"

section \<open>Caches\<close>

definition kc_mutex_acquire :: "u64 \<Rightarrow> ('w slab_state, unit) km" where
  "kc_mutex_acquire cp =
     kbind (kget (\<lambda>s. kc_mutex (caches s cp))) (\<lambda>held.
     if held then kfail Blocked else upd_cache cp (\<lambda>c. c\<lparr>kc_mutex := True\<rparr>))"

definition kc_mutex_release :: "u64 \<Rightarrow> ('w slab_state, unit) km" where
  "kc_mutex_release cp = upd_cache cp (\<lambda>c. c\<lparr>kc_mutex := False\<rparr>)"

text \<open>A large cache allocates from two other caches, which are small.\<close>

fun kmem_cache_alloc :: "nat \<Rightarrow> 'w slab_env \<Rightarrow> u64 \<Rightarrow> ('w slab_state, u64) km" where
  "kmem_cache_alloc 0 V cp = kfail OutOfFuel"
| "kmem_cache_alloc (Suc fuel) V cp =
     kthen (kc_mutex_acquire cp)
     (kbind (kget (\<lambda>s. caches s cp)) (\<lambda>c.
      kthen (kwhen (slablist c = [])
        (kbind (if chunksize c \<le> KMEM_SMALL_MAX then small_slab_create V cp
                else large_slab_create V (kmem_cache_alloc fuel V) cp) (\<lambda>slab.
         upd_cache cp (\<lambda>c. c\<lparr>slablist := slab # slablist c\<rparr>))))
      (kbind (kget (\<lambda>s. hd (slablist (caches s cp)))) (\<lambda>sp.
       kbind (kget (\<lambda>s. slabs s sp)) (\<lambda>sl.
       kthen (kassert (slab_refcnt sl < slabcap c) ''sp->refcnt < cp->slabcap'')
       (kbind (slab_alloc sp) (\<lambda>obj.
        kthen (case constructor c of
                 None \<Rightarrow> kreturn ()
               | Some f \<Rightarrow> kbind (on_vm (construct V f obj (ctx c))) (\<lambda>r.
                   kassert (r = 0) ''cp->constructor(obj, cp->ctx) == 0''))
        (kthen (kc_mutex_release cp)
        (kreturn obj)))))))))"

definition kmem_cache_free :: "'w slab_env \<Rightarrow> u64 \<Rightarrow> u64 \<Rightarrow> ('w slab_state, unit) km" where
  "kmem_cache_free V cp obj =
     kthen (kc_mutex_acquire cp)
     (kbind (kget (\<lambda>s. caches s cp)) (\<lambda>c.
      kthen (case destructor c of None \<Rightarrow> kreturn () | Some f \<Rightarrow> on_vm (destruct V f obj (ctx c)))
      (kbind (if chunksize c \<le> KMEM_SMALL_MAX
              then kreturn (ALIGN_UP (obj + 1) PAGE_SIZE - sizeof_kmem_slab, obj)
              else
                kbind (kget (\<lambda>s. find (\<lambda>elm. lb_base (bufctls s elm) = obj) (buflist c))) (\<lambda>r.
                case r of
                  None \<Rightarrow> kfail (AssertFail ''sp != NULL'')
                | Some elm \<Rightarrow> kget (\<lambda>s. (lb_slab (bufctls s elm), elm)))) (\<lambda>(sp, bp).
       kthen (slab_free sp bp)
       (kc_mutex_release cp)))))"

text \<open>
  The loop over the number of pages of a large slab: the first count with at least 16 chunks, and no
  change when there is none.
\<close>

definition large_slab_pages :: "u64 \<Rightarrow> u64 option" where
  "large_slab_pages chunk = find (\<lambda>pages. pages * PAGE_SIZE div chunk \<ge> 16) (map of_nat [1..<unat KMEM_MAXPAGES + 1])"

definition kmem_cache_align :: "u64 \<Rightarrow> u64 \<Rightarrow> u64" where
  "kmem_cache_align bufsz al =
     (if al = 0 then if ALIGN_UP bufsz KMEM_ALIGN \<ge> KMEM_SECOND_ALIGN then KMEM_SECOND_ALIGN else KMEM_ALIGN
      else if al < KMEM_ALIGN then KMEM_ALIGN else al)"

text \<open>The field \<open>buflist\<close> keeps what the fresh memory holds.\<close>

definition kmem_cache_create ::
    "'w slab_env \<Rightarrow> string \<Rightarrow> u64 \<Rightarrow> u64 \<Rightarrow> nat option \<Rightarrow> nat option \<Rightarrow> u64 \<Rightarrow> ('w slab_state, u64) km" where
  "kmem_cache_create V nam bufsz al con des cx =
     kthen (kassert (al = 0 \<or> P2CHECK al) ''align == 0 || P2CHECK(align)'')
     (kthen (kassert (bufsz \<noteq> 0) ''bufsize != 0'')
     (let al' = kmem_cache_align bufsz al; chunk = ALIGN_UP bufsz al'; k = min KMEM_NAME_MAX (length nam) in
      kbind (on_vm (kalloc V kmem_cache_pages)) (\<lambda>cp.
      kthen (kguard (cp \<noteq> 0) NullDeref)
      (kthen (upd_cache cp (\<lambda>c. c\<lparr>kc_name := take k nam @ drop k (kc_name c), bufsize := bufsz, align := al',
          constructor := con, destructor := des, ctx := cx, kc_mutex := False, full_slablist := [], slablist := [],
          chunksize := chunk\<rparr>))
      (kthen (if bufsz \<le> KMEM_SMALL_MAX
              then upd_cache cp (\<lambda>c. c\<lparr>slabcap := (PAGE_SIZE - sizeof_kmem_slab) div chunk, slabsize := 1\<rparr>)
              else
                case large_slab_pages chunk of
                  None \<Rightarrow> kfail (AssertFail ''cp->slabsize != -1'')
                | Some pages \<Rightarrow> upd_cache cp (\<lambda>c. c\<lparr>slabcap := pages * PAGE_SIZE div chunk, slabsize := pages\<rparr>))
      (kreturn cp))))))"

text \<open>The loop that frees the empty slabs, for at most as many slabs as there are.\<close>

fun destroy_slabs :: "nat \<Rightarrow> 'w slab_env \<Rightarrow> u64 \<Rightarrow> ('w slab_state, bool) km" where
  "destroy_slabs 0 V cp = kfail OutOfFuel"
| "destroy_slabs (Suc fuel) V cp =
     kbind (kget (\<lambda>s. caches s cp)) (\<lambda>c.
     case slablist c of
       [] \<Rightarrow> kreturn True
     | sp # _ \<Rightarrow>
         kbind (kget (\<lambda>s. slabs s sp)) (\<lambda>sl.
         if slab_refcnt sl \<noteq> 0 then kreturn False
         else
           kthen (slab_unlink cp sp)
           (kthen
             (if slab_base sl = 0 then on_vm (kfree_pages V (ALIGN_DOWN sp PAGE_SIZE) (slabsize c))
              else
                kbind (kget (\<lambda>s. (bufctl_cache s, slab_cache s))) (\<lambda>(bc, sc).
                kthen (kfor (freelist sl) (\<lambda>elm.
                  kthen (upd_slab sp (\<lambda>sl. sl\<lparr>freelist := tl (freelist sl)\<rparr>)) (kmem_cache_free V bc elm)))
                (kthen (on_vm (kfree_pages V (slab_base sl) (slabsize c)))
                (kmem_cache_free V sc sp))))
           (destroy_slabs fuel V cp))))"

definition kmem_cache_destroy :: "'w slab_env \<Rightarrow> u64 \<Rightarrow> ('w slab_state, int) km" where
  "kmem_cache_destroy V cp =
     kbind (kget (\<lambda>s. caches s cp)) (\<lambda>c.
     if full_slablist c \<noteq> [] then kreturn (- 1)
     else
       kbind (destroy_slabs (length (slablist c) + 1) V cp) (\<lambda>emptied.
       if \<not> emptied then kreturn (- 1)
       else kthen (on_vm (kfree_pages V cp kmem_cache_pages)) (kreturn 0)))"

definition kmem_slab_init :: "'w slab_env \<Rightarrow> ('w slab_state, unit) km" where
  "kmem_slab_init V =
     kbind (kmem_cache_create V ''slab_cache'' sizeof_kmem_slab 0 None None 0) (\<lambda>sc.
     kthen (kmodify (\<lambda>s. s\<lparr>slab_cache := sc\<rparr>))
     (kbind (kmem_cache_create V ''bufctl_cache'' sizeof_kmem_large_bufctl 0 None None 0) (\<lambda>bc.
      kmodify (\<lambda>s. s\<lparr>bufctl_cache := bc\<rparr>))))"

definition kmem_slab_cleanup :: "'w slab_env \<Rightarrow> ('w slab_state, unit) km" where
  "kmem_slab_cleanup V =
     kbind (kget slab_cache) (\<lambda>sc.
     kbind (kmem_cache_destroy V sc) (\<lambda>_.
     kbind (kget bufctl_cache) (\<lambda>bc.
     kbind (kmem_cache_destroy V bc) (\<lambda>_. kreturn ()))))"

section \<open>Small blocks\<close>

definition kmalloc_sizes :: "u64 list" where
  "kmalloc_sizes = [8, 16, 32, 64, 128, 160, 256, 512, 640, 768, 1024, 2048]"

definition kmalloc_names :: "string list" where
  "kmalloc_names = [''kmalloc_8'', ''kmalloc_16'', ''kmalloc_32'', ''kmalloc_64'', ''kmalloc_128'', ''kmalloc_160'',
     ''kmalloc_256'', ''kmalloc_512'', ''kmalloc_640'', ''kmalloc_768'', ''kmalloc_1024'', ''kmalloc_2048'']"

definition kmem_init :: "'w slab_env \<Rightarrow> ('w slab_state, unit) km" where
  "kmem_init V =
     kthen (kmem_slab_init V)
     (kthen (kmodify (\<lambda>s. s\<lparr>kmalloc_caches := []\<rparr>))
     (kfor [0..<length kmalloc_sizes] (\<lambda>i.
        kbind (kmem_cache_create V (kmalloc_names ! i) (kmalloc_sizes ! i) 0 None None 0) (\<lambda>cp.
        kmodify (\<lambda>s. s\<lparr>kmalloc_caches := kmalloc_caches s @ [cp]\<rparr>)))))"

text \<open>The first cache that is large enough.\<close>

definition kmalloc_index :: "u64 \<Rightarrow> nat option" where
  "kmalloc_index sz = find (\<lambda>i. sz \<le> kmalloc_sizes ! i) [0..<length kmalloc_sizes]"

definition kmalloc :: "'w slab_env \<Rightarrow> u64 \<Rightarrow> ('w slab_state, u64) km" where
  "kmalloc V sz =
     (case kmalloc_index sz of
        Some i \<Rightarrow> kbind (kget (\<lambda>s. kmalloc_caches s ! i)) (kmem_cache_alloc 2 V)
      | None \<Rightarrow> on_vm (kalloc V (PAGE_ALIGN_UP sz)))"

text \<open>\<open>clear\<close> is the \<open>memset\<close> of the block.\<close>

definition kcalloc :: "'w slab_env \<Rightarrow> (u64 \<Rightarrow> u64 \<Rightarrow> ('w, unit) km) \<Rightarrow> u64 \<Rightarrow> u64 \<Rightarrow> ('w slab_state, u64) km" where
  "kcalloc V clear cnt sz =
     (if sz = 0 \<or> cnt = 0 then kmalloc V 0
      else
        kbind (kmalloc V (cnt * sz)) (\<lambda>ptr.
        kthen (on_vm (clear ptr (cnt * sz))) (kreturn ptr)))"

definition kfree :: "'w slab_env \<Rightarrow> u64 \<Rightarrow> u64 \<Rightarrow> ('w slab_state, unit) km" where
  "kfree V ptr sz =
     (if ptr = 0 then kreturn ()
      else
        case kmalloc_index sz of
          Some i \<Rightarrow> kbind (kget (\<lambda>s. kmalloc_caches s ! i)) (\<lambda>cp. kmem_cache_free V cp ptr)
        | None \<Rightarrow> on_vm (kfree_pages V ptr (PAGE_ALIGN_UP sz)))"

end
