(* ===== verification/Slab_Props.thy ===== *)
theory Slab_Props
  imports Slab
begin

text \<open>
  A cache of small objects hands out disjoint chunks of its pages and takes them back, as long as the page
  allocator below it never hands out a page twice.
\<close>

section \<open>Stepping through the operations\<close>

lemma runs_to_on_vm [wp]: "runs_to (on_vm m) s Q \<longleftrightarrow> runs_to m (vm s) (\<lambda>x w. Q x (s\<lparr>vm := w\<rparr>))"
  by (auto simp: runs_to_def on_vm_def split: sum.splits)

definition set_cache :: "u64 \<Rightarrow> (kmem_cache \<Rightarrow> kmem_cache) \<Rightarrow> 'w slab_state \<Rightarrow> 'w slab_state" where
  "set_cache cp f = caches_update (\<lambda>m. m(cp := f (m cp)))"

definition set_slab :: "u64 \<Rightarrow> (kmem_slab \<Rightarrow> kmem_slab) \<Rightarrow> 'w slab_state \<Rightarrow> 'w slab_state" where
  "set_slab sp f = slabs_update (\<lambda>m. m(sp := f (m sp)))"

lemma runs_to_upd [wp]:
  "runs_to (upd_cache cp f) s Q \<longleftrightarrow> Q () (set_cache cp f s)" "runs_to (upd_slab sp g) s Q \<longleftrightarrow> Q () (set_slab sp g s)"
proof -
  have "s\<lparr>caches := (caches s)(cp := f (caches s cp))\<rparr> = set_cache cp f s" "s\<lparr>slabs := (slabs s)(sp := g (slabs s sp))\<rparr> = set_slab sp g s"
    by (simp_all add: set_cache_def set_slab_def)
  then show "runs_to (upd_cache cp f) s Q \<longleftrightarrow> Q () (set_cache cp f s)" "runs_to (upd_slab sp g) s Q \<longleftrightarrow> Q () (set_slab sp g s)"
    by (simp_all add: upd_cache_def upd_slab_def wp)
qed

lemma set_simps [simp]:
  "caches (set_cache cp f s) = (caches s)(cp := f (caches s cp))" "slabs (set_cache cp f s) = slabs s" "vm (set_cache cp f s) = vm s"
  "caches (set_slab sp g s) = caches s" "slabs (set_slab sp g s) = (slabs s)(sp := g (slabs s sp))" "vm (set_slab sp g s) = vm s"
  by (simp_all add: set_cache_def set_slab_def)

lemma runs_to_fill:
  "runs_to (kfor [0..<n] (\<lambda>i. upd_slab sp (\<lambda>sl. sl\<lparr>freelist := f i # freelist sl\<rparr>))) s Q \<longleftrightarrow>
   Q () (set_slab sp (\<lambda>sl. sl\<lparr>freelist := rev (map f [0..<n]) @ freelist sl\<rparr>) s)"
proof (induction n arbitrary: Q)
  case 0
  have "set_slab sp (\<lambda>sl. sl) s = s" by (cases s) (simp add: set_slab_def fun_upd_triv)
  then show ?case by (simp add: wp)
next
  case (Suc n)
  have "set_slab sp (\<lambda>sl. sl\<lparr>freelist := f n # freelist sl\<rparr>) (set_slab sp (\<lambda>sl. sl\<lparr>freelist := rev (map f [0..<n]) @ freelist sl\<rparr>) s) =
      set_slab sp (\<lambda>sl. sl\<lparr>freelist := rev (map f [0..<Suc n]) @ freelist sl\<rparr>) s"
    by (cases s) (simp add: set_slab_def)
  then show ?case by (simp add: runs_to_kfor_append Suc.IH wp)
qed

section \<open>The chunks of a page\<close>

definition page_of :: "u64 \<Rightarrow> u64" where
  "page_of sp = sp + sizeof_kmem_slab - PAGE_SIZE"

definition chunks :: "kmem_cache \<Rightarrow> u64 \<Rightarrow> u64 set" where
  "chunks c pg = (\<lambda>i. pg + of_nat i * chunksize c) ` {..<unat (slabcap c)}"

definition small :: "kmem_cache \<Rightarrow> bool" where
  "small c \<longleftrightarrow> 0 < chunksize c \<and> chunksize c \<le> KMEM_SMALL_MAX \<and> 0 < slabcap c \<and>
     unat (slabcap c) * unat (chunksize c) \<le> 4048 \<and> constructor c = None \<and> destructor c = None"

definition kpage :: "u64 \<Rightarrow> bool" where
  "kpage pg \<longleftrightarrow> pg \<noteq> 0 \<and> unat pg mod 4096 = 0 \<and> unat pg + 8192 \<le> 2 ^ 64"

lemma unat_chunk:
  assumes "small c" and "kpage pg" and "i < unat (slabcap c)"
  shows "unat (pg + of_nat i * chunksize c) = unat pg + i * unat (chunksize c)" and "i * unat (chunksize c) + unat (chunksize c) \<le> 4048"
proof -
  have "Suc i * unat (chunksize c) \<le> unat (slabcap c) * unat (chunksize c)" using assms(3) by (intro mult_le_mono1) simp
  then show le: "i * unat (chunksize c) + unat (chunksize c) \<le> 4048" using assms(1) by (simp add: small_def)
  have pos: "0 < unat (chunksize c)" using assms(1) by (simp add: small_def word_less_nat_alt)
  have "i \<le> i * unat (chunksize c)" using pos by simp
  then have "i \<le> 4048" using le by linarith
  then have ui: "unat (of_nat i :: u64) = i" using unat_of_nat [where 'a = 64, of i] by simp
  have m: "unat (of_nat i * chunksize c) = i * unat (chunksize c)"
    using unat_mult_lem [of "of_nat i" "chunksize c"] ui le by simp
  then show "unat (pg + of_nat i * chunksize c) = unat pg + i * unat (chunksize c)"
    using unat_add_lem [of pg "of_nat i * chunksize c"] assms(2) le by (simp add: kpage_def)
qed

lemma chunk_bounds:
  assumes "small c" and "kpage pg" and "x \<in> chunks c pg"
  shows "unat pg \<le> unat x" and "unat x + unat (chunksize c) \<le> unat pg + 4048"
  using assms unat_chunk [OF assms(1,2)] by (auto simp: chunks_def)

lemma chunks_apart:
  assumes "small c" and "kpage pg" and "x \<in> chunks c pg" and "y \<in> chunks c pg" and "x \<noteq> y"
  shows "unat x + unat (chunksize c) \<le> unat y \<or> unat y + unat (chunksize c) \<le> unat x"
proof -
  obtain i j where ij: "i < unat (slabcap c)" "j < unat (slabcap c)" "x = pg + of_nat i * chunksize c" "y = pg + of_nat j * chunksize c"
    using assms(3,4) by (auto simp: chunks_def)
  note u = unat_chunk(1) [OF assms(1,2) ij(1)] unat_chunk(1) [OF assms(1,2) ij(2)]
  from ij assms(5) have "i \<noteq> j" by auto
  then consider "Suc i \<le> j" | "Suc j \<le> i" by linarith
  then show ?thesis
  proof cases
    case 1
    then have "Suc i * unat (chunksize c) \<le> j * unat (chunksize c)" by (rule mult_le_mono1)
    then show ?thesis using u ij(3,4) by simp
  next
    case 2
    then have "Suc j * unat (chunksize c) \<le> i * unat (chunksize c)" by (rule mult_le_mono1)
    then show ?thesis using u ij(3,4) by simp
  qed
qed

lemma card_chunks:
  assumes "small c" and "kpage pg"
  shows "card (chunks c pg) = unat (slabcap c)"
proof -
  have pos: "0 < unat (chunksize c)" using assms(1) by (simp add: small_def word_less_nat_alt)
  have "inj_on (\<lambda>i. pg + of_nat i * chunksize c) {..<unat (slabcap c)}"
  proof (rule inj_onI)
    fix i j assume ij: "i \<in> {..<unat (slabcap c)}" "j \<in> {..<unat (slabcap c)}" "pg + of_nat i * chunksize c = pg + of_nat j * chunksize c"
    then have "unat (pg + of_nat i * chunksize c) = unat (pg + of_nat j * chunksize c)" by (rule_tac arg_cong)
    then show "i = j" using ij(1,2) unat_chunk(1) [OF assms] pos by simp
  qed
  then show ?thesis by (simp add: chunks_def card_image)
qed

lemma page_bound: "kpage pg \<Longrightarrow> unat (pg + PAGE_SIZE - sizeof_kmem_slab) = unat pg + 4048"
proof -
  assume "kpage pg"
  then have "unat (pg + 4048) = unat pg + 4048" using unat_add_lem [of pg 4048] by (simp add: kpage_def)
  moreover have "pg + PAGE_SIZE - sizeof_kmem_slab = pg + 4048" by (simp add: PAGE_SIZE_def sizeof_kmem_slab_def)
  ultimately show ?thesis by (simp only:)
qed

text \<open>The slab is found again from the address of any of its chunks.\<close>

lemma slab_of_chunk:
  assumes "small c" and "kpage pg" and "x \<in> chunks c pg"
  shows "ALIGN_UP (x + 1) PAGE_SIZE - sizeof_kmem_slab = pg + PAGE_SIZE - sizeof_kmem_slab"
proof -
  have b: "unat pg \<le> unat x" "unat x < unat pg + 4048"
    using chunk_bounds [OF assms] assms(1) by (auto simp: small_def word_less_nat_alt)
  have bound: "unat pg + 8192 \<le> 2 ^ 64" and pm: "unat pg mod 4096 = 0" using assms(2) by (simp_all add: kpage_def)
  have x1: "unat (x + 1) = unat x + 1" using b bound unat_add_lem [of x 1] by simp
  obtain q where q: "unat pg = 4096 * q" using pm by (auto elim!: dvdE simp: mod_eq_0_iff_dvd)
  have "(unat x + 1 + 4096 - 1) div 4096 = q + 1" using b q by (intro div_nat_eqI) simp_all
  moreover have "unat (ALIGN_UP (x + 1) (2 ^ 12)) = (unat (x + 1) + 2 ^ 12 - 1) div 2 ^ 12 * 2 ^ 12"
    by (rule unat_ALIGN_UP) (use x1 b bound in simp_all)
  ultimately have "unat (ALIGN_UP (x + 1) (2 ^ 12)) = unat pg + 4096" using x1 q by simp
  moreover have "unat (pg + 4096) = unat pg + 4096" using bound unat_add_lem [of pg 4096] by simp
  ultimately have "ALIGN_UP (x + 1) (2 ^ 12) = pg + 4096" by (simp add: word_unat_eq_iff)
  then show ?thesis by (simp add: PAGE_SIZE_def)
qed

lemma page_of_slab: "page_of (pg + PAGE_SIZE - sizeof_kmem_slab) = pg"
  by (simp add: page_of_def)

lemma slab_of_page: "page_of sp + PAGE_SIZE - sizeof_kmem_slab = sp"
  by (simp add: page_of_def)

lemma page_of_inject: "page_of sp = page_of sp' \<longleftrightarrow> sp = sp'"
  by (simp add: page_of_def)

section \<open>The invariant of a cache\<close>

definition slab_ok :: "kmem_cache \<Rightarrow> u64 \<Rightarrow> u64 \<Rightarrow> kmem_slab \<Rightarrow> bool" where
  "slab_ok c cp sp sl \<longleftrightarrow> kpage (page_of sp) \<and> slab_base sl = 0 \<and> parent_cache sl = cp \<and> distinct (freelist sl) \<and>
     set (freelist sl) \<subseteq> chunks c (page_of sp) \<and> unat (slab_refcnt sl) + length (freelist sl) = unat (slabcap c)"

abbreviation all_slabs :: "kmem_cache \<Rightarrow> u64 list" where
  "all_slabs c \<equiv> slablist c @ full_slablist c"

text \<open>\<open>pages w\<close> are the pages that the page allocator has handed out.\<close>

definition cache_inv :: "('w \<Rightarrow> u64 set) \<Rightarrow> u64 \<Rightarrow> 'w slab_state \<Rightarrow> bool" where
  "cache_inv pages cp s \<longleftrightarrow> (let c = caches s cp in
     small c \<and> distinct (all_slabs c) \<and>
     (\<forall>sp \<in> set (all_slabs c). slab_ok c cp sp (slabs s sp) \<and> page_of sp \<in> pages (vm s)) \<and>
     (\<forall>sp \<in> set (slablist c). freelist (slabs s sp) \<noteq> []) \<and>
     (\<forall>sp \<in> set (full_slablist c). freelist (slabs s sp) = []))"

definition cache_ok :: "('w \<Rightarrow> u64 set) \<Rightarrow> u64 \<Rightarrow> 'w slab_state \<Rightarrow> bool" where
  "cache_ok pages cp s \<longleftrightarrow> cache_inv pages cp s \<and> \<not> kc_mutex (caches s cp)"

text \<open>The objects a cache has handed out.\<close>

definition in_use :: "u64 \<Rightarrow> 'w slab_state \<Rightarrow> u64 set" where
  "in_use cp s = (\<Union>sp \<in> set (all_slabs (caches s cp)). chunks (caches s cp) (page_of sp) - set (freelist (slabs s sp)))"

text \<open>What the cache relies on: the page allocator has a page left, and returns a whole page that is not handed out.\<close>

definition kalloc_serves :: "'w slab_env \<Rightarrow> ('w \<Rightarrow> u64 set) \<Rightarrow> 'w \<Rightarrow> bool" where
  "kalloc_serves V pages w \<longleftrightarrow>
     runs_to (kalloc V 1) w (\<lambda>pg w'. kpage pg \<and> pg \<notin> pages w \<and> pages w' = insert pg (pages w))"

text \<open>Objects in use do not overlap.\<close>

lemma in_use_apart:
  assumes "cache_inv pages cp s" and "x \<in> in_use cp s" and "y \<in> in_use cp s" and "x \<noteq> y"
  shows "unat x + unat (chunksize (caches s cp)) \<le> unat y \<or> unat y + unat (chunksize (caches s cp)) \<le> unat x"
proof -
  let ?c = "caches s cp"
  obtain sx sy where x: "sx \<in> set (all_slabs ?c)" "x \<in> chunks ?c (page_of sx)" and y: "sy \<in> set (all_slabs ?c)" "y \<in> chunks ?c (page_of sy)"
    using assms(2,3) by (auto simp: in_use_def)
  have c: "small ?c" and pg: "kpage (page_of sx)" "kpage (page_of sy)"
    using assms(1) x(1) y(1) by (auto simp: cache_inv_def Let_def slab_ok_def)
  note bx = chunk_bounds [OF c pg(1) x(2)] and by' = chunk_bounds [OF c pg(2) y(2)]
  show ?thesis
  proof (cases "page_of sx = page_of sy")
    case True
    then show ?thesis using chunks_apart [OF c pg(1) x(2) _ assms(4)] y(2) by simp
  next
    case False
    then have "unat (page_of sx) \<noteq> unat (page_of sy)" by (simp add: word_unat_eq_iff)
    moreover obtain i j where "unat (page_of sx) = 4096 * i" "unat (page_of sy) = 4096 * j"
      using pg by (auto simp: kpage_def mod_eq_0_iff_dvd elim!: dvdE)
    ultimately have "Suc i \<le> j \<or> Suc j \<le> i" by auto
    then have "unat (page_of sx) + 4096 \<le> unat (page_of sy) \<or> unat (page_of sy) + 4096 \<le> unat (page_of sx)"
      using \<open>unat (page_of sx) = 4096 * i\<close> \<open>unat (page_of sy) = 4096 * j\<close> by linarith
    then show ?thesis using bx by' by linarith
  qed
qed

lemma cache_invD:
  assumes "cache_inv pages cp s"
  shows "small (caches s cp)" and "distinct (all_slabs (caches s cp))"
    and "sp \<in> set (all_slabs (caches s cp)) \<Longrightarrow> slab_ok (caches s cp) cp sp (slabs s sp)"
    and "sp \<in> set (all_slabs (caches s cp)) \<Longrightarrow> page_of sp \<in> pages (vm s)"
    and "sp \<in> set (slablist (caches s cp)) \<Longrightarrow> freelist (slabs s sp) \<noteq> []"
    and "sp \<in> set (full_slablist (caches s cp)) \<Longrightarrow> freelist (slabs s sp) = []"
  using assms unfolding cache_inv_def Let_def by blast+

text \<open>The mutex does not matter to the invariant, nor to what is in use.\<close>

lemma mutex_irrelevant [simp]:
  "small (c\<lparr>kc_mutex := b\<rparr>) = small c" "chunks (c\<lparr>kc_mutex := b\<rparr>) = chunks c"
  "slab_ok (c\<lparr>kc_mutex := b\<rparr>) = slab_ok c"
  "cache_inv pages cp (set_cache cp (\<lambda>c. c\<lparr>kc_mutex := b\<rparr>) s) = cache_inv pages cp s"
  "in_use cp (set_cache cp (\<lambda>c. c\<lparr>kc_mutex := b\<rparr>) s) = in_use cp s"
proof -
  show c: "chunks (c\<lparr>kc_mutex := b\<rparr>) = chunks c" for c by (simp add: chunks_def fun_eq_iff)
  show s: "small (c\<lparr>kc_mutex := b\<rparr>) = small c" for c by (simp add: small_def)
  show ok: "slab_ok (c\<lparr>kc_mutex := b\<rparr>) = slab_ok c" for c by (simp add: slab_ok_def fun_eq_iff c)
  show "cache_inv pages cp (set_cache cp (\<lambda>c. c\<lparr>kc_mutex := b\<rparr>) s) = cache_inv pages cp s"
    by (simp add: cache_inv_def Let_def s ok)
  show "in_use cp (set_cache cp (\<lambda>c. c\<lparr>kc_mutex := b\<rparr>) s) = in_use cp s" by (simp add: in_use_def c)
qed

text \<open>Moving slabs between the lists changes neither the chunks nor the slabs that are fine.\<close>

lemma lists_irrelevant [simp]:
  "small (c\<lparr>slablist := a, full_slablist := f\<rparr>) = small c" "chunks (c\<lparr>slablist := a, full_slablist := f\<rparr>) = chunks c"
  "slab_ok (c\<lparr>slablist := a, full_slablist := f\<rparr>) = slab_ok c"
proof -
  show c: "chunks (c\<lparr>slablist := a, full_slablist := f\<rparr>) = chunks c" by (simp add: chunks_def fun_eq_iff)
  show "small (c\<lparr>slablist := a, full_slablist := f\<rparr>) = small c" by (simp add: small_def)
  show "slab_ok (c\<lparr>slablist := a, full_slablist := f\<rparr>) = slab_ok c" by (simp add: slab_ok_def fun_eq_iff c)
qed

section \<open>Changing one slab\<close>

text \<open>What is in use outside of one slab.\<close>

definition rest_use :: "u64 \<Rightarrow> u64 \<Rightarrow> 'w slab_state \<Rightarrow> u64 set" where
  "rest_use cp sp s = (\<Union>x \<in> set (all_slabs (caches s cp)) - {sp}.
     chunks (caches s cp) (page_of x) - set (freelist (slabs s x)))"

lemma in_use_member:
  "sp \<in> set (all_slabs (caches s cp)) \<Longrightarrow>
   in_use cp s = rest_use cp sp s \<union> (chunks (caches s cp) (page_of sp) - set (freelist (slabs s sp)))"
  by (auto simp: in_use_def rest_use_def)

lemma in_use_other: "sp \<notin> set (all_slabs (caches s cp)) \<Longrightarrow> in_use cp s = rest_use cp sp s"
  by (auto simp: in_use_def rest_use_def)

lemma pages_disjoint:
  assumes "small c" and "kpage (page_of sp)" and "kpage (page_of sp')" and "sp \<noteq> sp'"
  shows "chunks c (page_of sp) \<inter> chunks c (page_of sp') = {}"
proof (rule ccontr)
  assume "chunks c (page_of sp) \<inter> chunks c (page_of sp') \<noteq> {}"
  then obtain x where "x \<in> chunks c (page_of sp)" "x \<in> chunks c (page_of sp')" by blast
  from slab_of_chunk [OF assms(1,2) this(1)] slab_of_chunk [OF assms(1,3) this(2)]
  show False using assms(4) unfolding slab_of_page by simp
qed

lemma rest_use_disjoint:
  assumes "cache_inv pages cp s" and "kpage (page_of sp)"
  shows "rest_use cp sp s \<inter> chunks (caches s cp) (page_of sp) = {}"
proof -
  have "chunks (caches s cp) (page_of x) \<inter> chunks (caches s cp) (page_of sp) = {}"
    if "x \<in> set (all_slabs (caches s cp))" "x \<noteq> sp" for x
    using pages_disjoint [OF cache_invD(1) [OF assms(1)] _ assms(2) that(2)] cache_invD(3) [OF assms(1) that(1)]
    by (simp add: slab_ok_def)
  then show ?thesis by (auto simp: rest_use_def)
qed

lemma cache_inv_change:
  assumes inv: "cache_inv pages cp s"
    and t: "caches t cp = (caches s cp)\<lparr>slablist := a, full_slablist := f\<rparr>" "slabs t = (slabs s)(sp := sl)"
      "pages (vm s) \<subseteq> pages (vm t)"
    and lists: "distinct (a @ f)" "set (a @ f) = insert sp (set (all_slabs (caches s cp)))"
      "set a - {sp} \<subseteq> set (slablist (caches s cp))" "set f - {sp} \<subseteq> set (full_slablist (caches s cp))"
    and sl: "slab_ok (caches s cp) cp sp sl" "page_of sp \<in> pages (vm t)"
      "sp \<in> set a \<Longrightarrow> freelist sl \<noteq> []" "sp \<in> set f \<Longrightarrow> freelist sl = []"
  shows "cache_inv pages cp t"
    and "in_use cp t = rest_use cp sp s \<union> (chunks (caches s cp) (page_of sp) - set (freelist sl))"
proof -
  have "slab_ok (caches s cp) cp x (slabs t x) \<and> page_of x \<in> pages (vm t)" if "x \<in> set (a @ f)" for x
    using that lists(2) cache_invD(3,4) [OF inv, of x] sl(1,2) t(2,3) by (cases "x = sp") auto
  moreover have "freelist (slabs t x) \<noteq> []" if "x \<in> set a" for x
    using that lists(3) cache_invD(5) [OF inv, of x] sl(3) t(2) by (cases "x = sp") auto
  moreover have "freelist (slabs t x) = []" if "x \<in> set f" for x
    using that lists(4) cache_invD(6) [OF inv, of x] sl(4) t(2) by (cases "x = sp") auto
  ultimately show "cache_inv pages cp t"
    using lists(1) cache_invD(1) [OF inv] unfolding cache_inv_def Let_def t(1) by simp
  let ?A = "set (all_slabs (caches s cp))" and ?F = "\<lambda>x. chunks (caches s cp) (page_of x) - set (freelist (slabs t x))"
  have "in_use cp t = (\<Union>x \<in> insert sp ?A. ?F x)" unfolding in_use_def t(1) using lists(2) by simp
  also have "\<dots> = (\<Union>x \<in> ?A - {sp}. ?F x) \<union> ?F sp" by blast
  also have "(\<Union>x \<in> ?A - {sp}. ?F x) = rest_use cp sp s"
    unfolding rest_use_def by (rule SUP_cong) (simp_all add: t(2))
  finally show "in_use cp t = rest_use cp sp s \<union> (chunks (caches s cp) (page_of sp) - set (freelist sl))"
    by (simp add: t(2))
qed

lemma unat_Suc_u64: "unat x + k = unat y \<Longrightarrow> 0 < k \<Longrightarrow> unat (x + 1) = unat x + 1" for x y :: u64
  using unat_add_lem [of x 1] unat_lt_u64 [of y] by simp

lemma set_cache_compose: "set_cache cp f (set_cache cp g s) = set_cache cp (\<lambda>c. f (g c)) s"
  by (cases s) (simp add: set_cache_def)

lemma set_cache_cong: "f (caches s cp) = g (caches s cp) \<Longrightarrow> set_cache cp f s = set_cache cp g s"
  by (cases s) (simp add: set_cache_def)

lemma runs_to_slab_unlink [wp]:
  "runs_to (slab_unlink cp sp) s Q \<longleftrightarrow>
   Q () (set_cache cp (\<lambda>c. c\<lparr>slablist := remove1 sp (slablist c), full_slablist := remove1 sp (full_slablist c)\<rparr>) s)"
  by (simp add: slab_unlink_def wp)

lemma runs_to_slab_alloc:
  assumes inv: "cache_inv pages cp s" and sp: "slablist (caches s cp) = sp # others"
  shows "runs_to (slab_alloc sp) s (\<lambda>obj t. cache_inv pages cp t \<and> obj \<notin> in_use cp s \<and> in_use cp t = insert obj (in_use cp s) \<and>
    kc_mutex (caches t cp) = kc_mutex (caches s cp))"
proof -
  let ?c = "caches s cp" and ?sl = "slabs s sp"
  have mem: "sp \<in> set (all_slabs ?c)" and ok: "slab_ok ?c cp sp ?sl" and "freelist ?sl \<noteq> []"
    using sp cache_invD(3,5) [OF inv, of sp] by simp_all
  then obtain obj rest where fl: "freelist ?sl = obj # rest" by (cases "freelist ?sl") auto
  let ?sl' = "?sl\<lparr>freelist := rest, slab_refcnt := slab_refcnt ?sl + 1\<rparr>"
  have cnt: "unat (slab_refcnt ?sl + 1) = unat (slab_refcnt ?sl) + 1" and sum: "unat (slab_refcnt ?sl) + Suc (length rest) = unat (slabcap ?c)"
    using ok fl unat_Suc_u64 [of "slab_refcnt ?sl" "Suc (length rest)" "slabcap ?c"] by (simp_all add: slab_ok_def)
  have full: "slab_refcnt ?sl + 1 = slabcap ?c \<longleftrightarrow> rest = []" unfolding word_unat_eq_iff cnt using sum by (cases rest) simp_all
  have ok': "slab_ok ?c cp sp ?sl'" using ok fl cnt by (simp add: slab_ok_def)
  have pg: "kpage (page_of sp)" and obj: "obj \<in> chunks ?c (page_of sp)" "obj \<notin> set rest" using ok fl by (auto simp: slab_ok_def)
  define t where "t = (if rest = [] then set_cache cp (\<lambda>c. c\<lparr>slablist := others, full_slablist := sp # full_slablist c\<rparr>) else id)
    (set_slab sp (\<lambda>sl. sl\<lparr>freelist := rest, slab_refcnt := slab_refcnt sl + 1\<rparr>) s)"
  have d: "sp \<notin> set others" "sp \<notin> set (full_slablist ?c)" using cache_invD(2) [OF inv] sp by auto
  have "cache_inv pages cp t \<and> in_use cp t = rest_use cp sp s \<union> (chunks ?c (page_of sp) - set (freelist ?sl'))"
  proof (intro conjI; rule cache_inv_change [OF inv, where a = "if rest = [] then others else slablist ?c"
        and f = "if rest = [] then sp # full_slablist ?c else full_slablist ?c" and sl = ?sl' and sp = sp])
  qed (use ok' mem sp d cache_invD(2,4) [OF inv] in \<open>auto simp: t_def\<close>)
  moreover have "obj \<notin> in_use cp s" "rest_use cp sp s \<union> (chunks ?c (page_of sp) - set (freelist ?sl')) = insert obj (in_use cp s)"
    using rest_use_disjoint [OF inv pg] obj unfolding in_use_member [OF mem] fl by auto
  moreover have "kc_mutex (caches t cp) = kc_mutex ?c" by (simp add: t_def)
  moreover have "runs_to (slab_alloc sp) s Q \<longleftrightarrow> Q obj t" for Q
  proof -
    have "set_cache cp (\<lambda>c. c\<lparr>slablist := remove1 sp (slablist c), full_slablist := sp # remove1 sp (full_slablist c)\<rparr>)
        (set_slab sp (\<lambda>sl. sl\<lparr>freelist := rest, slab_refcnt := slab_refcnt sl + 1\<rparr>) s) = t" if "rest = []"
      unfolding t_def using that d sp by (simp add: remove1_idem) (rule set_cache_cong, simp add: remove1_idem)
    moreover have "parent_cache ?sl = cp" "slab_base ?sl = 0" using ok by (simp_all add: slab_ok_def)
    ultimately show ?thesis using fl full by (simp add: slab_alloc_def wp Let_def set_cache_compose t_def)
  qed
  ultimately show ?thesis by simp
qed

lemma set_slab_compose: "set_slab sp f (set_slab sp g s) = set_slab sp (\<lambda>x. f (g x)) s"
  by (cases s) (simp add: set_slab_def)

text \<open>An empty list of slabs gets a fresh slab all of whose chunks are free.\<close>

lemma runs_to_refill:
  assumes laws: "kalloc_serves V pages (vm s)" and inv: "cache_inv pages cp s"
  shows "runs_to (kbind (small_slab_create V cp) (\<lambda>slab. upd_cache cp (\<lambda>c. c\<lparr>slablist := slab # slablist c\<rparr>))) s
    (\<lambda>_ t. cache_inv pages cp t \<and> in_use cp t = in_use cp s \<and>
      (\<exists>sp. caches t cp = (caches s cp)\<lparr>slablist := sp # slablist (caches s cp)\<rparr>))"
proof -
  let ?c = "caches s cp"
  obtain pg w where pg: "kalloc V 1 (vm s) = Inr (pg, w)" "kpage pg" "pg \<notin> pages (vm s)" "pages w = insert pg (pages (vm s))"
    using laws unfolding kalloc_serves_def runs_to_def by blast
  let ?sp = "pg + PAGE_SIZE - sizeof_kmem_slab" and ?fl = "rev (map (\<lambda>i. pg + of_nat i * chunksize ?c) [0..<unat (slabcap ?c)])"
  let ?sl = "\<lparr>freelist = ?fl, slab_refcnt = 0, parent_cache = cp, slab_base = 0\<rparr>"
  define t where "t = set_cache cp (\<lambda>c. c\<lparr>slablist := ?sp # slablist c\<rparr>) (set_slab ?sp (\<lambda>_. ?sl) (s\<lparr>vm := w\<rparr>))"
  have small: "small ?c" by (rule cache_invD(1) [OF inv])
  have set: "set ?fl = chunks ?c pg" by (auto simp: chunks_def)
  have "card (set ?fl) = length ?fl" unfolding set using card_chunks [OF small pg(2)] by simp
  then have "distinct ?fl" by (rule card_distinct)
  then have ok: "slab_ok ?c cp ?sp ?sl" using pg(2) set by (simp add: slab_ok_def page_of_slab)
  have new: "?sp \<notin> set (all_slabs ?c)" using cache_invD(4) [OF inv, of ?sp] pg(3) by (auto simp: page_of_slab)
  have ne: "?fl \<noteq> []" using small by (simp add: small_def word_less_nat_alt)
  have "cache_inv pages cp t \<and> in_use cp t = rest_use cp ?sp s \<union> (chunks ?c (page_of ?sp) - set (freelist ?sl))"
  proof (intro conjI; rule cache_inv_change [OF inv, where a = "?sp # slablist ?c" and f = "full_slablist ?c" and sl = ?sl and sp = ?sp])
  qed (use ok new ne pg(4) cache_invD(2) [OF inv] in \<open>auto simp: t_def page_of_slab\<close>)
  moreover have "in_use cp s = rest_use cp ?sp s" by (rule in_use_other [OF new])
  moreover have "chunks ?c (page_of ?sp) - set (freelist ?sl) = {}" using set by (simp add: page_of_slab)
  moreover have "caches t cp = ?c\<lparr>slablist := ?sp # slablist ?c\<rparr>" by (simp add: t_def)
  moreover have "runs_to (kbind (small_slab_create V cp) (\<lambda>slab. upd_cache cp (\<lambda>c. c\<lparr>slablist := slab # slablist c\<rparr>))) s Q \<longleftrightarrow> Q () t" for Q
  proof -
    have "runs_to (kalloc V 1) (vm s) P \<longleftrightarrow> P pg w" for P using pg(1) by (simp add: runs_to_def)
    moreover have "pg \<noteq> 0" using pg(2) by (simp add: kpage_def)
    ultimately show ?thesis by (simp add: small_slab_create_def wp Let_def runs_to_fill set_slab_compose t_def)
  qed
  ultimately show ?thesis by auto
qed

text \<open>Allocation, once the list of slabs is known not to be empty.\<close>

definition alloc_tail :: "'w slab_env \<Rightarrow> u64 \<Rightarrow> kmem_cache \<Rightarrow> ('w slab_state, u64) km" where
  "alloc_tail V cp c =
     kbind (kget (\<lambda>s. hd (slablist (caches s cp)))) (\<lambda>sp.
     kbind (kget (\<lambda>s. slabs s sp)) (\<lambda>sl.
     kthen (kassert (slab_refcnt sl < slabcap c) ''sp->refcnt < cp->slabcap'')
     (kbind (slab_alloc sp) (\<lambda>obj.
      kthen (case constructor c of
               None \<Rightarrow> kreturn ()
             | Some f \<Rightarrow> kbind (on_vm (construct V f obj (ctx c))) (\<lambda>r.
                 kassert (r = 0) ''cp->constructor(obj, cp->ctx) == 0''))
      (kthen (kc_mutex_release cp)
      (kreturn obj))))))"

lemma runs_to_alloc_tail:
  assumes inv: "cache_inv pages cp s" and ne: "slablist (caches s cp) = sp # others" and con: "constructor c = None"
    and cap: "slabcap c = slabcap (caches s cp)"
  shows "runs_to (alloc_tail V cp c) s
    (\<lambda>obj t. cache_ok pages cp t \<and> obj \<notin> in_use cp s \<and> in_use cp t = insert obj (in_use cp s))"
proof -
  have "sp \<in> set (all_slabs (caches s cp))" "freelist (slabs s sp) \<noteq> []" using ne cache_invD(5) [OF inv, of sp] by simp_all
  moreover from this have "slab_ok (caches s cp) cp sp (slabs s sp)" using cache_invD(3) [OF inv] by blast
  ultimately have "slab_refcnt (slabs s sp) < slabcap c" using cap by (auto simp: slab_ok_def word_less_nat_alt neq_Nil_conv)
  moreover have "runs_to (slab_alloc sp) s (\<lambda>obj t. cache_ok pages cp (set_cache cp (\<lambda>c. c\<lparr>kc_mutex := False\<rparr>) t) \<and>
      obj \<notin> in_use cp s \<and> in_use cp (set_cache cp (\<lambda>c. c\<lparr>kc_mutex := False\<rparr>) t) = insert obj (in_use cp s))"
    by (rule runs_to_mono [OF runs_to_slab_alloc [OF inv ne]]) (simp add: cache_ok_def)
  ultimately show ?thesis using ne con by (simp add: alloc_tail_def wp kc_mutex_release_def)
qed

lemma runs_to_kmem_cache_alloc:
  assumes laws: "kalloc_serves V pages (vm s)" and ok: "cache_ok pages cp s"
  shows "runs_to (kmem_cache_alloc (Suc f) V cp) s
    (\<lambda>obj t. cache_ok pages cp t \<and> obj \<notin> in_use cp s \<and> in_use cp t = insert obj (in_use cp s))"
proof -
  let ?l = "set_cache cp (\<lambda>c. c\<lparr>kc_mutex := True\<rparr>) s"
  have laws': "kalloc_serves V pages (vm ?l)" using laws by simp
  have inv: "cache_inv pages cp ?l" and use: "in_use cp ?l = in_use cp s" using ok by (simp_all add: cache_ok_def)
  have small: "small (caches ?l cp)" by (rule cache_invD(1) [OF inv])
  then have con: "constructor (caches ?l cp) = None" and chunk: "chunksize (caches ?l cp) \<le> KMEM_SMALL_MAX" by (simp_all add: small_def)
  note tail = runs_to_alloc_tail [where V = V and c = "caches ?l cp", OF _ _ con]
  have start: "runs_to (kmem_cache_alloc (Suc f) V cp) s Q \<longleftrightarrow>
      (if slablist (caches s cp) = []
       then runs_to (kbind (small_slab_create V cp) (\<lambda>slab. upd_cache cp (\<lambda>c. c\<lparr>slablist := slab # slablist c\<rparr>))) ?l
         (\<lambda>_ t. runs_to (alloc_tail V cp (caches ?l cp)) t Q)
       else runs_to (alloc_tail V cp (caches ?l cp)) ?l Q)" for Q
    using ok chunk by (simp add: runs_to_kthen runs_to_kbind runs_to_kget runs_to_kwhen runs_to_upd kc_mutex_acquire_def runs_to_if
        cache_ok_def alloc_tail_def [symmetric])
  show ?thesis
  proof (cases "slablist (caches s cp)")
    case (Cons sp others)
    then show ?thesis using tail [OF inv, of sp others] use unfolding start by simp
  next
    case Nil
    let ?Q = "\<lambda>obj t. cache_ok pages cp t \<and> obj \<notin> in_use cp s \<and> in_use cp t = insert obj (in_use cp s)"
    have "runs_to (alloc_tail V cp (caches ?l cp)) t ?Q"
      if "cache_inv pages cp t" "in_use cp t = in_use cp ?l" "caches t cp = (caches ?l cp)\<lparr>slablist := sp # slablist (caches ?l cp)\<rparr>" for t sp
      using tail [OF that(1), of sp "slablist (caches ?l cp)"] that(2,3) use by simp
    then have "runs_to (kbind (small_slab_create V cp) (\<lambda>slab. upd_cache cp (\<lambda>c. c\<lparr>slablist := slab # slablist c\<rparr>))) ?l
        (\<lambda>_ t. runs_to (alloc_tail V cp (caches ?l cp)) t ?Q)"
      by (intro runs_to_mono [OF runs_to_refill [OF laws' inv]]) blast
    then show ?thesis unfolding start using Nil by simp
  qed
qed

lemma set_slab_cong: "f (slabs s sp) = g (slabs s sp) \<Longrightarrow> set_slab sp f s = set_slab sp g s"
  by (cases s) (simp add: set_slab_def)

lemma slab_used:
  assumes "small c" and "slab_ok c cp sp sl" and "obj \<in> chunks c (page_of sp)" and "obj \<notin> set (freelist sl)"
  shows "0 < unat (slab_refcnt sl)"
proof -
  have "finite (chunks c (page_of sp))" by (simp add: chunks_def)
  moreover have "insert obj (set (freelist sl)) \<subseteq> chunks c (page_of sp)" using assms(2,3) by (simp add: slab_ok_def)
  ultimately have "card (insert obj (set (freelist sl))) \<le> unat (slabcap c)"
    using card_mono card_chunks [OF assms(1), of "page_of sp"] assms(2) by (metis slab_ok_def)
  moreover have "card (insert obj (set (freelist sl))) = Suc (length (freelist sl))"
    using assms(2,4) by (simp add: slab_ok_def distinct_card)
  ultimately show ?thesis using assms(2) by (simp add: slab_ok_def)
qed

lemma runs_to_slab_free:
  assumes inv: "cache_inv pages cp s" and sp: "sp \<in> set (all_slabs (caches s cp))"
    and obj: "obj \<in> chunks (caches s cp) (page_of sp)" "obj \<notin> set (freelist (slabs s sp))"
  shows "runs_to (slab_free sp obj) s (\<lambda>_ t. cache_inv pages cp t \<and> in_use cp t = in_use cp s - {obj} \<and>
    kc_mutex (caches t cp) = kc_mutex (caches s cp))"
proof -
  let ?c = "caches s cp" and ?sl = "slabs s sp"
  let ?sl' = "?sl\<lparr>slab_refcnt := slab_refcnt ?sl - 1, freelist := obj # freelist ?sl\<rparr>"
  let ?full = "freelist ?sl = []"
  have small: "small ?c" and ok: "slab_ok ?c cp sp ?sl" using cache_invD(1,3) [OF inv] sp by simp_all
  then have pg: "kpage (page_of sp)" by (simp add: slab_ok_def)
  have used: "0 < unat (slab_refcnt ?sl)" by (rule slab_used [OF small ok obj])
  then have cnt: "unat (slab_refcnt ?sl - 1) = unat (slab_refcnt ?sl) - 1"
    using unat_sub [of 1 "slab_refcnt ?sl"] by (simp add: word_le_nat_alt)
  have full: "slab_refcnt ?sl = slabcap ?c \<longleftrightarrow> ?full" using ok by (auto simp: slab_ok_def word_unat_eq_iff)
  have ok': "slab_ok ?c cp sp ?sl'" using ok obj used cnt by (simp add: slab_ok_def)
  have nz: "sp \<noteq> 0" "obj \<noteq> 0"
    using page_bound [OF pg] chunk_bounds(1) [OF small pg obj(1)] pg unfolding slab_of_page
    by (auto simp: kpage_def unat_eq_0 simp flip: unat_eq_0)
  define t where "t = set_slab sp (\<lambda>_. ?sl') ((if ?full then set_cache cp (\<lambda>c. c\<lparr>slablist := sp # slablist c,
    full_slablist := remove1 sp (full_slablist c)\<rparr>) else id) s)"
  have place: "?full \<longleftrightarrow> sp \<in> set (full_slablist ?c)" "?full \<longleftrightarrow> sp \<notin> set (slablist ?c)"
    using sp cache_invD(2) [OF inv] cache_invD(5,6) [OF inv, of sp] by auto
  have "cache_inv pages cp t \<and> in_use cp t = rest_use cp sp s \<union> (chunks ?c (page_of sp) - set (freelist ?sl'))"
  proof (intro conjI; rule cache_inv_change [OF inv, where a = "if ?full then sp # slablist ?c else slablist ?c"
        and f = "if ?full then remove1 sp (full_slablist ?c) else full_slablist ?c" and sl = ?sl' and sp = sp])
  qed (use ok' sp place cache_invD(2,4) [OF inv] in \<open>auto simp: t_def\<close>)
  moreover have "rest_use cp sp s \<union> (chunks ?c (page_of sp) - set (freelist ?sl')) = in_use cp s - {obj}"
    using rest_use_disjoint [OF inv pg] obj unfolding in_use_member [OF sp] by auto
  moreover have "kc_mutex (caches t cp) = kc_mutex ?c" by (simp add: t_def)
  moreover have "runs_to (slab_free sp obj) s Q \<longleftrightarrow> Q () t" for Q
  proof -
    have "set_cache cp (\<lambda>c. c\<lparr>full_slablist := remove1 sp (full_slablist c), slablist := sp # remove1 sp (slablist c)\<rparr>) s =
        set_cache cp (\<lambda>c. c\<lparr>slablist := sp # slablist c, full_slablist := remove1 sp (full_slablist c)\<rparr>) s" if ?full
      by (rule set_cache_cong) (use that place(2) in \<open>cases "caches s cp", simp add: remove1_idem\<close>)
    moreover have "set_slab sp (\<lambda>sl. sl\<lparr>slab_refcnt := slab_refcnt sl - 1, freelist := obj # freelist sl\<rparr>) u = set_slab sp (\<lambda>_. ?sl') u"
      if "slabs u sp = ?sl" for u :: "'a slab_state"
      by (rule set_slab_cong) (simp add: that)
    moreover have "parent_cache ?sl = cp" "slab_base ?sl = 0" using ok by (simp_all add: slab_ok_def)
    ultimately show ?thesis using nz full
      by (simp add: slab_free_def wp Let_def set_cache_compose set_slab_compose t_def)
  qed
  ultimately show ?thesis by simp
qed

lemma runs_to_kmem_cache_free:
  assumes ok: "cache_ok pages cp s" and obj: "obj \<in> in_use cp s"
  shows "runs_to (kmem_cache_free V cp obj) s (\<lambda>_ t. cache_ok pages cp t \<and> in_use cp t = in_use cp s - {obj})"
proof -
  let ?l = "set_cache cp (\<lambda>c. c\<lparr>kc_mutex := True\<rparr>) s" and ?c = "caches s cp"
  have inv: "cache_inv pages cp s" "\<not> kc_mutex ?c" using ok by (simp_all add: cache_ok_def)
  have invl: "cache_inv pages cp ?l" "in_use cp ?l = in_use cp s" using inv(1) by simp_all
  obtain sp where sp: "sp \<in> set (all_slabs ?c)" "obj \<in> chunks ?c (page_of sp)" "obj \<notin> set (freelist (slabs s sp))"
    using obj by (auto simp: in_use_def)
  have small: "small ?c" and slab: "slab_ok ?c cp sp (slabs s sp)" using cache_invD(1,3) [OF inv(1)] sp(1) by simp_all
  then have pg: "kpage (page_of sp)" by (simp add: slab_ok_def)
  have addr: "ALIGN_UP (obj + 1) PAGE_SIZE - sizeof_kmem_slab = sp"
    using slab_of_chunk [OF small pg sp(2)] by (simp only: slab_of_page)
  have "runs_to (slab_free sp obj) ?l (\<lambda>_ t. cache_ok pages cp (set_cache cp (\<lambda>c. c\<lparr>kc_mutex := False\<rparr>) t) \<and>
      in_use cp (set_cache cp (\<lambda>c. c\<lparr>kc_mutex := False\<rparr>) t) = in_use cp s - {obj})"
    by (rule runs_to_mono [OF runs_to_slab_free [OF invl(1)]]) (use sp invl(2) in \<open>simp_all add: cache_ok_def\<close>)
  moreover have "destructor ?c = None" "chunksize ?c \<le> KMEM_SMALL_MAX" using small by (simp_all add: small_def)
  ultimately show ?thesis using inv(2) by (simp add: kmem_cache_free_def kc_mutex_acquire_def kc_mutex_release_def wp addr)
qed

text \<open>Creating a cache for objects of at most 256 bytes establishes all this.\<close>

lemma align_up_bounds:
  assumes "k = 3 \<or> k = 4" and "0 < unat b" and "unat b \<le> 256"
  shows "0 < unat (ALIGN_UP b (2 ^ k))" and "unat (ALIGN_UP b (2 ^ k)) \<le> 256"
proof -
  have "unat (ALIGN_UP b (2 ^ k)) = (unat b + 2 ^ k - 1) div 2 ^ k * 2 ^ k"
    by (rule unat_ALIGN_UP) (use assms in auto)
  moreover have "(unat b + 7) div 8 \<le> 32" "(unat b + 15) div 16 \<le> 16" "0 < (unat b + 7) div 8" "0 < (unat b + 15) div 16"
    using assms(2,3) by (simp_all add: div_greater_zero_iff less_mult_imp_div_less Suc_le_eq flip: less_Suc_eq_le)
  ultimately show "0 < unat (ALIGN_UP b (2 ^ k))" and "unat (ALIGN_UP b (2 ^ k)) \<le> 256" using assms(1) by auto
qed

lemma runs_to_kmem_cache_create:
  assumes "kalloc_serves V pages (vm s)" and "0 < bufsz" and "bufsz \<le> KMEM_SMALL_MAX"
  shows "runs_to (kmem_cache_create V nam bufsz 0 None None cx) s (\<lambda>cp t. cache_ok pages cp t \<and> in_use cp t = {})"
proof -
  have lim: "KMEM_SMALL_MAX = 256" by (simp add: KMEM_SMALL_MAX_def PAGE_SIZE_def)
  have b: "0 < unat bufsz" "unat bufsz \<le> 256" using assms(2,3) by (simp_all add: lim word_less_nat_alt word_le_nat_alt)
  let ?al = "kmem_cache_align bufsz 0"
  let ?chunk = "ALIGN_UP bufsz ?al"
  have "?al = 2 ^ 3 \<or> ?al = 2 ^ 4" by (simp add: kmem_cache_align_def KMEM_ALIGN_def KMEM_SECOND_ALIGN_def)
  then have c: "0 < unat ?chunk" "unat ?chunk \<le> 256" using align_up_bounds [of 3 bufsz] align_up_bounds [of 4 bufsz] b by auto
  have cap: "unat ((PAGE_SIZE - sizeof_kmem_slab) div ?chunk) = 4048 div unat ?chunk"
    by (simp add: PAGE_SIZE_def sizeof_kmem_slab_def unat_div)
  have "0 < 4048 div unat ?chunk" using c by (simp add: div_greater_zero_iff)
  moreover have "4048 div unat ?chunk * unat ?chunk \<le> 4048" by simp
  ultimately have ok: "0 < ?chunk" "?chunk \<le> KMEM_SMALL_MAX" "0 < (PAGE_SIZE - sizeof_kmem_slab) div ?chunk"
      "unat ((PAGE_SIZE - sizeof_kmem_slab) div ?chunk) * unat ?chunk \<le> 4048"
    using c cap by (simp_all add: lim word_less_nat_alt word_le_nat_alt)
  obtain cp w where cp: "kalloc V kmem_cache_pages (vm s) = Inr (cp, w)" "kpage cp"
    using assms(1) unfolding kalloc_serves_def runs_to_def kmem_cache_pages_def by blast
  have "runs_to (kalloc V kmem_cache_pages) (vm s) P \<longleftrightarrow> P cp w" for P using cp(1) by (simp add: runs_to_def)
  moreover have "cp \<noteq> 0" "bufsz \<noteq> 0" using cp(2) assms(2) by (auto simp: kpage_def)
  ultimately show ?thesis using assms(3) ok
    by (simp add: kmem_cache_create_def wp Let_def cache_ok_def cache_inv_def in_use_def small_def)
qed

text \<open>C39: a cache of small objects. When the page allocator has a page left and returns no page twice, an
  allocation succeeds and returns an object that was not in use; afterwards exactly it is in use in addition, and the
  cache is well formed again. Every object in use can be given back, after which exactly it is no longer in use.
  Two objects in use never overlap.\<close>

theorem kmem_cache_objects_disjoint:
  assumes "kalloc_serves V pages (vm s)" and "cache_ok pages cp s" and "0 < fuel"
  shows "runs_to (kmem_cache_alloc fuel V cp) s
      (\<lambda>obj t. cache_ok pages cp t \<and> obj \<notin> in_use cp s \<and> in_use cp t = insert obj (in_use cp s)) \<and>
    (\<forall>obj. obj \<in> in_use cp s \<longrightarrow>
      runs_to (kmem_cache_free V cp obj) s (\<lambda>_ t. cache_ok pages cp t \<and> in_use cp t = in_use cp s - {obj})) \<and>
    (\<forall>x y. x \<in> in_use cp s \<longrightarrow> y \<in> in_use cp s \<longrightarrow> x \<noteq> y \<longrightarrow>
      unat x + unat (chunksize (caches s cp)) \<le> unat y \<or> unat y + unat (chunksize (caches s cp)) \<le> unat x)"
proof -
  obtain f where "fuel = Suc f" using assms(3) gr0_conv_Suc by blast
  moreover have "cache_inv pages cp s" using assms(2) by (simp add: cache_ok_def)
  ultimately show ?thesis
    using runs_to_kmem_cache_alloc [OF assms(1,2)] runs_to_kmem_cache_free [OF assms(2)] in_use_apart by blast
qed

text \<open>Pages numbered from one, and a cache that holds no slab yet.\<close>

definition demo_env :: "nat slab_env" where
  "demo_env = \<lparr>kalloc = (\<lambda>_ n. Inr (of_nat (4096 * Suc n), Suc n)), kfree_pages = (\<lambda>_ _ n. Inr ((), n)),
     construct = (\<lambda>_ _ _ n. Inr (0, n)), destruct = (\<lambda>_ _ _ n. Inr ((), n))\<rparr>"

definition demo_pages :: "nat \<Rightarrow> u64 set" where
  "demo_pages n = (\<lambda>i. of_nat (4096 * Suc i)) ` {..<n}"

definition demo_slabs :: "nat slab_state" where
  "demo_slabs = \<lparr>vm = 0, caches = (\<lambda>_. \<lparr>kc_name = ''demo'', slabcap = 126, align = 16, chunksize = 32, bufsize = 32, slabsize = 1,
       constructor = None, destructor = None, ctx = 0, kc_mutex = False, buflist = [], slablist = [], full_slablist = []\<rparr>),
     slabs = (\<lambda>_. \<lparr>freelist = [], slab_refcnt = 0, parent_cache = 0, slab_base = 0\<rparr>),
     bufctls = (\<lambda>_. \<lparr>lb_slab = 0, lb_base = 0\<rparr>), slab_cache = 0, bufctl_cache = 0, kmalloc_caches = []\<rparr>"

theorem kmem_cache_objects_disjoint_witness:
  "kalloc_serves demo_env demo_pages (vm demo_slabs) \<and> cache_ok demo_pages 64 demo_slabs \<and>
   runs_to (kmem_cache_alloc 1 demo_env 64) demo_slabs (\<lambda>obj t. in_use 64 t = {obj})"
proof -
  have serves: "kalloc_serves demo_env demo_pages (vm demo_slabs)"
    by (simp add: kalloc_serves_def runs_to_def demo_env_def demo_pages_def demo_slabs_def kpage_def lessThan_Suc)
  have ok: "cache_ok demo_pages 64 demo_slabs"
    by (simp add: cache_ok_def cache_inv_def Let_def small_def demo_slabs_def KMEM_SMALL_MAX_def PAGE_SIZE_def)
  have "in_use 64 demo_slabs = {}" by (simp add: in_use_def demo_slabs_def)
  then have "runs_to (kmem_cache_alloc 1 demo_env 64) demo_slabs (\<lambda>obj t. in_use 64 t = {obj})"
    using kmem_cache_objects_disjoint [OF serves ok, of 1] by (auto elim!: runs_to_mono)
  with serves ok show ?thesis by simp
qed

end
