(* ===== verification/Amd64_Range.thy ===== *)
theory Amd64_Range
  imports Amd64_Props
begin

text \<open>
  Ranges of addresses and the page tables: which addresses a page of some size covers, where the
  processor sends an address (\<open>maps_to\<close>), and one call of \<open>vm_port_map\<close> as a step that gives a
  whole page its translation and leaves the other addresses alone.
\<close>

section \<open>Addresses of a page\<close>

lemma digit_split:
  "x div 2 ^ a mod 2 ^ (9 + k) = y div 2 ^ a mod 2 ^ (9 + k) \<longleftrightarrow>
     x div 2 ^ a mod 2 ^ 9 = y div 2 ^ a mod 2 ^ 9 \<and> x div 2 ^ (a + 9) mod 2 ^ k = y div 2 ^ (a + 9) mod 2 ^ k" for x y :: nat
proof -
  have e: "z div 2 ^ a mod 2 ^ (9 + k) = 2 ^ 9 * (z div 2 ^ (a + 9) mod 2 ^ k) + z div 2 ^ a mod 2 ^ 9" for z :: nat
    unfolding power_add div_mult2_eq by (rule mod_mult2_eq)
  show ?thesis
  proof
    assume "x div 2 ^ a mod 2 ^ (9 + k) = y div 2 ^ a mod 2 ^ (9 + k)"
    then have h: "2 ^ 9 * (x div 2 ^ (a + 9) mod 2 ^ k) + x div 2 ^ a mod 2 ^ 9 =
        2 ^ 9 * (y div 2 ^ (a + 9) mod 2 ^ k) + y div 2 ^ a mod 2 ^ 9" by (simp only: e)
    have q: "(2 ^ 9 * u + v mod 2 ^ 9) mod 2 ^ 9 = v mod 2 ^ 9" "(2 ^ 9 * u + v mod 2 ^ 9) div 2 ^ 9 = u" for u v :: nat
      by simp_all
    from arg_cong [OF h, of "\<lambda>z. z mod 2 ^ 9"] arg_cong [OF h, of "\<lambda>z. z div 2 ^ 9"]
    show "x div 2 ^ a mod 2 ^ 9 = y div 2 ^ a mod 2 ^ 9 \<and>
      x div 2 ^ (a + 9) mod 2 ^ k = y div 2 ^ (a + 9) mod 2 ^ k" by (simp only: q simp_thms)
  qed (simp only: e)
qed

text \<open>The shift of the pages that \<open>n\<close> indices select.\<close>

definition page_shift :: "nat \<Rightarrow> nat" where
  "page_shift n = 48 - 9 * n"

lemma page_shift_simps [simp]: "page_shift 4 = 12" "page_shift 3 = 21" "page_shift 2 = 30"
  by (simp_all add: page_shift_def)

lemma take_path:
  assumes "n \<in> {2, 3, 4}"
  shows "take n (path_of va) = take n (path_of vb) \<longleftrightarrow>
     unat va div 2 ^ page_shift n mod 2 ^ (9 * n) = unat vb div 2 ^ page_shift n mod 2 ^ (9 * n)"
proof -
  have t: "take 2 (path_of va) = [INDEX va 3, INDEX va 2]" "take 3 (path_of va) = [INDEX va 3, INDEX va 2, INDEX va 1]"
    "take 4 (path_of va) = [INDEX va 3, INDEX va 2, INDEX va 1, INDEX va 0]" for va
    by (simp_all add: path_of_def eval_nat_numeral)
  have "INDEX va l = INDEX vb l \<longleftrightarrow> unat va div 2 ^ (12 + 9 * l) mod 2 ^ 9 = unat vb div 2 ^ (12 + 9 * l) mod 2 ^ 9" for l
    by (simp add: word_unat_eq_iff unat_INDEX)
  note i = this [of 3, simplified arith_simps] this [of 2, simplified arith_simps] this [of 1, simplified arith_simps mult_1_right]
    this [of 0, simplified arith_simps]
  note d = digit_split [of "unat va" 30 9 "unat vb", simplified arith_simps]
    digit_split [of "unat va" 21 18 "unat vb", simplified arith_simps]
    digit_split [of "unat va" 12 27 "unat vb", simplified arith_simps]
  from assms consider "n = 2" | "n = 3" | "n = 4" by blast
  then show ?thesis
    by cases (simp_all only: t list.inject i d page_shift_simps arith_simps simp_thms conj_ac)
qed

text \<open>Two addresses less than \<open>2 ^ 47\<close> apart lie in the same page exactly if their paths agree.\<close>

lemma take_path_near:
  assumes n: "n \<in> {2, 3, 4}" and near: "unat va < unat vb + 2 ^ 47" "unat vb < unat va + 2 ^ 47"
  shows "take n (path_of va) = take n (path_of vb) \<longleftrightarrow> unat va div 2 ^ page_shift n = unat vb div 2 ^ page_shift n"
proof -
  have eq: "x = y" if "x mod M = y mod M" "x < y + M" "y < x + M" for x y M :: nat
  proof (cases "x \<le> y")
    case True
    then have "M dvd y - x" using that(1) by (metis mod_eq_dvd_iff_nat)
    moreover have "y - x < M" using that(3) True by linarith
    ultimately show ?thesis using True by (metis dvd_imp_le le_antisym diff_is_0_eq not_less neq0_conv)
  next
    case False
    then have "M dvd x - y" using that(1) by (metis mod_eq_dvd_iff_nat nat_le_linear)
    moreover have "x - y < M" using that(2) False by linarith
    ultimately show ?thesis using False by (metis dvd_imp_le diff_is_0_eq not_less neq0_conv nat_le_linear)
  qed
  have q: "x div 2 ^ page_shift n < y div 2 ^ page_shift n + 2 ^ (9 * n)" if "x < y + 2 ^ 47" for x y :: nat
  proof -
    have p: "(2::nat) ^ 47 = 2 ^ page_shift n * 2 ^ (9 * n - 1)" "Suc (2 ^ (9 * n - 1)) < 2 ^ (9 * n)"
      using n by (auto simp: power_add [symmetric])
    have "x div 2 ^ page_shift n \<le> (y + 2 ^ page_shift n * 2 ^ (9 * n - 1)) div 2 ^ page_shift n"
      using that p(1) by (intro div_le_mono) simp
    also have "\<dots> = y div 2 ^ page_shift n + 2 ^ (9 * n - 1)" by simp
    finally show ?thesis using p(2) by linarith
  qed
  show ?thesis
    unfolding take_path [OF n] using eq [OF _ q [OF near(1)] q [OF near(2)]] by auto
qed

section \<open>Where an address leads\<close>

text \<open>The physical address the processor uses: the frame of the entry, which is as large as the level
  says, and the offset in it.\<close>

definition maps_to :: "mm \<Rightarrow> u64 \<Rightarrow> u64 \<Rightarrow> nat \<Rightarrow> bool" where
  "maps_to m root va pa \<longleftrightarrow> (\<exists>e l. hw_walk m root (path_of va) = Some (e, l) \<and> l \<le> 2 \<and>
     pa = unat (e AND pteAddress) div 2 ^ (12 + 9 * l) * 2 ^ (12 + 9 * l) + unat va mod 2 ^ (12 + 9 * l))"

definition page_step :: "u64 \<Rightarrow> nat \<Rightarrow> u64 \<Rightarrow> u64 \<Rightarrow> mm \<Rightarrow> mm \<Rightarrow> bool" where
  "page_step root n vaddr paddr m t \<longleftrightarrow> pm_inv t \<and> pm_same m t \<and> pt_ok t root \<and>
     length (mm_buddy_freelist m ! 0) \<le> length (mm_buddy_freelist t ! 0) + 3 \<and>
     set (mm_buddy_freelist t ! 0) \<subseteq> set (mm_buddy_freelist m ! 0) \<and>
     (n = 4 \<longrightarrow> tbl t root (take 3 (path_of vaddr)) \<noteq> None) \<and>
     (n = 4 \<and> tbl m root (take 3 (path_of vaddr)) \<noteq> None \<longrightarrow>
        length (mm_buddy_freelist m ! 0) \<le> length (mm_buddy_freelist t ! 0)) \<and>
     (\<forall>va. if take n (path_of va) = take n (path_of vaddr)
           then maps_to t root va (unat paddr + unat va mod 2 ^ page_shift n)
           else hw_walk t root (path_of va) = hw_walk m root (path_of va))"

lemma entry_frame:
  assumes "unat paddr < 2 ^ 52" and "2 ^ s dvd unat paddr" and "12 \<le> s"
  shows "unat (map_entry f paddr cache flags AND pteAddress) div 2 ^ s * 2 ^ s = unat paddr"
proof -
  have "(2::nat) ^ 12 dvd 2 ^ s" using assms(3) by (rule le_imp_power_dvd)
  then have "2 ^ 12 dvd unat paddr" using assms(2) by (rule dvd_trans)
  then have "unat (PAGE_ALIGN_DOWN paddr) = unat paddr"
    using unat_ALIGN_DOWN [of 12 paddr] by (simp add: PAGE_ALIGN_DOWN_def PAGE_SIZE_def)
  then show ?thesis using assms by (simp add: map_entry_facts(1))
qed

lemma page_step_entry:
  assumes post: "map_post root (map_levels flags) (path_of vaddr) (map_entry f paddr cache flags) m t"
    and rd: "flags AND kVmRead \<noteq> 0" and pa: "unat paddr < 2 ^ 52" "2 ^ page_shift (map_levels flags) dvd unat paddr"
  shows "page_step root (map_levels flags) vaddr paddr m t"
proof -
  let ?n = "map_levels flags" and ?e = "map_entry f paddr cache flags"
  have n: "?n \<in> {2, 3, 4}" by (simp add: map_levels_def)
  then have s: "12 + 9 * (4 - ?n) = page_shift ?n" "4 - ?n \<le> 2" "12 \<le> page_shift ?n" by auto
  have "hw_walk t root (path_of va) = (if take ?n (path_of va) = take ?n (path_of vaddr) then Some (?e, 4 - ?n)
      else hw_walk m root (path_of va))" for va
    using post rd by (simp add: map_post_def remapped_def map_entry_facts(2))
  moreover have "maps_to t root va (unat paddr + unat va mod 2 ^ page_shift ?n)"
    if "hw_walk t root (path_of va) = Some (?e, 4 - ?n)" for va
    unfolding maps_to_def
    by (rule exI [of _ ?e], rule exI [of _ "4 - ?n"]) (simp only: that s entry_frame [OF pa s(3)] simp_thms)
  moreover have "map_levels flags = 4 \<Longrightarrow> map_levels flags - 1 = 3" by simp
  ultimately show ?thesis using post by (cases "map_levels flags = 4") (simp_all add: page_step_def map_post_def)
qed

lemma offset_split: "2 ^ 21 * (x div 2 ^ 21 mod 512) + x mod 2 ^ 21 = x mod 2 ^ 30" for x :: nat
  using mod_mult2_eq [of x "2 ^ 21" 512] by simp

lemma page_step_emulated:
  fixes vaddr paddr f cache flags
  defines "entry \<equiv> (\<lambda>i. map_entry f (paddr + MiB 2 * i) cache (emulated flags))"
  assumes m: "pm_inv t" "pm_same m t" "pt_ok t root"
    "length (mm_buddy_freelist m ! 0) \<le> length (mm_buddy_freelist t ! 0) + 3"
    "set (mm_buddy_freelist t ! 0) \<subseteq> set (mm_buddy_freelist m ! 0)"
    and large: "large_pages root [INDEX vaddr 3, INDEX vaddr 2] {i. i < 512} entry m t"
    and rd: "emulated flags AND kVmRead \<noteq> 0" and pa: "unat paddr + 2 ^ 30 \<le> 2 ^ 52" "2 ^ 30 dvd unat paddr"
  shows "page_step root 2 vaddr paddr m t"
proof -
  have p: "take 2 (path_of va) = [INDEX va 3, INDEX va 2]" "path_of va ! 2 = INDEX va 1" for va
    by (simp_all add: path_of_def eval_nat_numeral)
  have hw: "hw_walk t root (path_of va) = (if take 2 (path_of va) = take 2 (path_of vaddr) then Some (entry (INDEX va 1), 1)
      else hw_walk m root (path_of va))" for va
    using large rd by (simp add: large_pages_def p map_entry_facts(2) entry_def)
  have "maps_to t root va (unat paddr + unat va mod 2 ^ 30)"
    if "hw_walk t root (path_of va) = Some (entry (INDEX va 1), 1)" for va
  proof -
    define i where "i = unat va div 2 ^ 21 mod 512"
    have i: "i < 512" by (simp add: i_def)
    have "unat (INDEX va 1) = i" using unat_INDEX [of va 1] by (simp add: i_def)
    then have "of_nat i = (of_nat (unat (INDEX va 1)) :: u64)" by (rule arg_cong [of _ _ of_nat, OF sym])
    then have "INDEX va 1 = of_nat i" by simp
    then have "unat (MiB 2 * INDEX va 1) = 2 ^ 21 * i" using unat_MiB2 [OF i] by simp
    moreover have lt: "2 ^ 21 * i < 2 ^ 30" using i by simp
    ultimately have u: "unat (paddr + MiB 2 * INDEX va 1) = unat paddr + 2 ^ 21 * i"
      using pa(1) unat_add_lem [of paddr "MiB 2 * INDEX va 1"] by simp
    have "2 ^ 21 dvd unat paddr" using pa(2) by (rule dvd_trans [rotated]) (simp add: le_imp_power_dvd)
    then have al: "2 ^ 21 dvd unat (paddr + MiB 2 * INDEX va 1)" "unat (paddr + MiB 2 * INDEX va 1) < 2 ^ 52"
      using u pa(1) lt by simp_all
    have "unat (entry (INDEX va 1) AND pteAddress) div 2 ^ 21 * 2 ^ 21 = unat paddr + 2 ^ 21 * i"
      unfolding entry_def u [symmetric] by (rule entry_frame [OF al(2,1)]) simp
    then show ?thesis
      unfolding maps_to_def using that offset_split [of "unat va", folded i_def]
      by (intro exI [of _ "entry (INDEX va 1)"] exI [of _ 1]) simp
  qed
  then show ?thesis using m hw by (simp add: page_step_def)
qed

text \<open>One call of \<open>vm_port_map\<close>: where nothing of the page was mapped before, it is mapped to the frame
  afterwards, whether its size is the processor's own or emulated.\<close>

lemma vm_port_map_page:
  fixes m cr3 vaddr flags
  defines "root \<equiv> P2V (mm_hhdm m) cr3" and "n \<equiv> map_levels flags"
  assumes m: "pm_inv m" "\<not> mm_buddy_lock m" "pt_ok m root"
    "3 \<le> length (mm_buddy_freelist m ! 0) \<or> n = 4 \<and> tbl m root (take 3 (path_of vaddr)) \<noteq> None"
    and fl: "flags AND kVmHuge = 0 \<or> drop_bit kVmHugeShift flags = 21 \<or> drop_bit kVmHugeShift flags = 30"
      "flags AND kVmRead \<noteq> 0"
    and pa: "unat paddr + 2 ^ page_shift n \<le> 2 ^ 52" "2 ^ page_shift n dvd unat paddr" "2 ^ page_shift n dvd unat vaddr"
    and un: "\<And>va. take n (path_of va) = take n (path_of vaddr) \<Longrightarrow> hw_walk m root (path_of va) = None"
  shows "runs_to (vm_port_map cr3 paddr vaddr cache flags) m (\<lambda>_. page_step root n vaddr paddr m)"
proof (cases "flags AND kVmHuge \<noteq> 0 \<and> drop_bit kVmHugeShift flags = 30 \<and> \<not> ft_gbpages (mm_features m)")
  case False
  have n: "page_shift n = (if flags AND kVmHuge = 0 then 12 else if drop_bit kVmHugeShift flags = 21 then 21 else 30)"
    by (simp add: n_def map_levels_def)
  have "paddr mod MiB 2 = 0" if "page_shift n = 21" using pa(2) that by (simp add: word_unat_eq_iff unat_mod MiB_def)
  moreover have "paddr mod GiB 1 = 0" if "page_shift n = 30" using pa(2) that by (simp add: word_unat_eq_iff unat_mod GiB_def)
  ultimately have "map_request paddr flags" using fl(1) by (auto simp: map_request_def n split: if_splits)
  moreover have "at_level m root n (path_of vaddr)" using un [of vaddr] by (simp add: at_level_def)
  ultimately have "runs_to (vm_port_map cr3 paddr vaddr cache flags) m (\<lambda>_ t.
      map_post root n (path_of vaddr) (map_entry (mm_features m) paddr cache flags) m t)"
    unfolding root_def n_def using m False by (intro vm_port_map_correct) (auto simp: root_def n_def)
  moreover have "unat paddr < 2 ^ 52" using pa(1) by (rule less_le_trans [rotated]) simp
  ultimately show ?thesis
    using fl(2) pa(2) by (elim runs_to_mono) (simp add: n_def page_step_entry)
next
  case True
  then have n: "n = 2" by (simp add: n_def map_levels_def)
  have rd: "emulated flags AND kVmRead \<noteq> 0"
    using fl(2) by (simp add: emulated_def bit.conj_disj_distrib2 and.assoc kVmHuge1GB_def kVmHuge2MB_def kVmHuge_def
        kVmHugeShift_def kVmRead_def)
  have al: "paddr mod GiB 1 = 0" "unat vaddr mod 2 ^ 30 = 0"
    using pa(2,3) n by (simp_all add: word_unat_eq_iff unat_mod GiB_def)
  have "at_level m root 3 [INDEX vaddr 3, INDEX vaddr 2, i, 0]" if "i < 512" for i
  proof -
    from that have "i \<in> of_nat ` {0..<512}" by (simp only: u64_below_512 mem_Collect_eq)
    then obtain k where k: "k < 512" "i = of_nat k" by auto
    note path = path_of_large [OF al(2) k(1)]
    have "take 2 (path_of (vaddr + MiB 2 * of_nat k)) = take 2 (path_of vaddr)"
      unfolding path by (simp add: path_of_def eval_nat_numeral)
    from un [unfolded n, OF this] show ?thesis using path by (simp add: at_level_def k(2))
  qed
  then have "runs_to (vm_port_map cr3 paddr vaddr cache flags) m (\<lambda>_ t. pm_inv t \<and> pm_same m t \<and> pt_ok t root \<and>
      length (mm_buddy_freelist m ! 0) \<le> length (mm_buddy_freelist t ! 0) + 3 \<and>
      set (mm_buddy_freelist t ! 0) \<subseteq> set (mm_buddy_freelist m ! 0) \<and>
      large_pages root [INDEX vaddr 3, INDEX vaddr 2] {i. i < 512}
        (\<lambda>i. map_entry (mm_features m) (paddr + MiB 2 * i) cache (emulated flags)) m t)"
    unfolding root_def using m n True al by (intro vm_port_map_emulated) (auto simp: root_def)
  then show ?thesis
    by (rule runs_to_mono, elim conjE) (unfold n, rule page_step_emulated, use rd pa n in auto)
qed

lemma path_low_bits:
  assumes n: "n \<in> {2, 3, 4}" and prefix: "take n (path_of va) = take n (path_of vb)" and al: "2 ^ page_shift n dvd unat vb"
  shows "path_of va = path_of (vb + of_nat (unat va mod 2 ^ page_shift n))"
proof -
  let ?s = "page_shift n"
  define r where "r = unat va mod 2 ^ ?s"
  have s: "?s < 64" "?s + 9 * n = 48" "12 \<le> ?s" using n by auto
  obtain k where k: "unat vb = 2 ^ ?s * k" using al by (auto elim: dvdE)
  have r: "r < 2 ^ ?s" "r \<le> unat va" by (simp_all add: r_def)
  have "2 ^ ?s * k < 2 ^ ?s * 2 ^ (64 - ?s)" using unat_lt_u64 [of vb] s(1) by (simp add: k power_add [symmetric])
  then have "k + 1 \<le> 2 ^ (64 - ?s)" by simp
  then have "2 ^ ?s * (k + 1) \<le> 2 ^ ?s * 2 ^ (64 - ?s)" by (rule mult_le_mono2)
  then have "2 ^ ?s * k + r < 2 ^ 64" using r(1) s(1) by (simp add: power_add [symmetric])
  moreover have "unat (of_nat r :: u64) = r"
    using r(2) unat_lt_u64 [of va] unat_of_nat [where 'a = 64, of r] by simp
  ultimately have u: "unat (vb + of_nat r) = 2 ^ ?s * k + r"
    using unat_add_lem [of vb "of_nat r"] by (simp add: k)
  have e: "unat va div 2 ^ ?s mod 2 ^ (9 * n) = k mod 2 ^ (9 * n)"
    using prefix unfolding take_path [OF n] by (simp add: k)
  have m: "x mod 2 ^ 48 = 2 ^ ?s * (x div 2 ^ ?s mod 2 ^ (9 * n)) + x mod 2 ^ ?s" for x :: nat
    using mod_mult2_eq [of x "2 ^ ?s" "2 ^ (9 * n)"] by (simp only: power_add [symmetric] s(2))
  have "unat (vb + of_nat r) div 2 ^ ?s = k" "unat (vb + of_nat r) mod 2 ^ ?s = r"
    unfolding u using r(1) by simp_all
  then have "unat va mod 2 ^ 48 = unat (vb + of_nat r) mod 2 ^ 48" unfolding m e by (simp add: r_def)
  moreover have "x div 2 ^ 12 mod 2 ^ 36 = x mod 2 ^ 48 div 2 ^ 12" for x :: nat
    using mod_mult2_eq [of x "2 ^ 12" "2 ^ 36"] by simp
  ultimately have "take 4 (path_of va) = take 4 (path_of (vb + of_nat r))"
    by (subst take_path) (simp_all only: page_shift_simps arith_simps insert_iff simp_thms)
  then show ?thesis by (simp add: r_def)
qed

end
