(* ===== verification/Boot_Map.thy ===== *)
theory Boot_Map
  imports Amd64_Range
begin

text \<open>
  The direct map of physical memory, \<^verbatim>\<open>boot/map.c\<close>. The page tables are those of the kernel's address
  space, whose top table \<open>cr3\<close> is an argument, and \<open>huge\<close> says whether the kernel is configured with
  \<open>CONFIG_HHDM_HUGEPAGES\<close>. Each loop takes a bound on its rounds.
\<close>

section \<open>Operations\<close>

text \<open>The first loop: small pages, up to the first address aligned to 2 megabytes.\<close>

fun remap_head :: "bool \<Rightarrow> nat \<Rightarrow> u64 \<Rightarrow> u64 \<Rightarrow> u64 \<Rightarrow> u64 \<Rightarrow> (mm, u64) km" where
  "remap_head huge 0 cr3 base endp cache = kfail OutOfFuel"
| "remap_head huge (Suc fuel) cr3 base endp cache =
     (if base < endp
      then
        if huge \<and> base mod MiB 2 = 0 then kreturn base
        else
          kbind (kget mm_hhdm) (\<lambda>start.
          kthen (vm_port_map cr3 base (start + base) cache (kVmGlobal OR kVmAll))
          (remap_head huge fuel cr3 (base + PAGE_SIZE) endp cache))
      else kreturn base)"

text \<open>The second loop: the largest page that is aligned and does not reach past the end.\<close>

fun remap_large :: "nat \<Rightarrow> u64 \<Rightarrow> u64 \<Rightarrow> u64 \<Rightarrow> u64 \<Rightarrow> (mm, u64) km" where
  "remap_large 0 cr3 base endp cache = kfail OutOfFuel"
| "remap_large (Suc fuel) cr3 base endp cache =
     (if base < endp
      then
        kbind (kget mm_hhdm) (\<lambda>start.
        if base mod GiB 1 = 0 \<and> base + GiB 1 \<le> endp
        then kthen (vm_port_map cr3 base (start + base) cache (kVmGlobal OR kVmAll OR kVmHuge1GB))
          (remap_large fuel cr3 (base + GiB 1) endp cache)
        else if base mod MiB 2 = 0 \<and> base + MiB 2 \<le> endp
        then kthen (vm_port_map cr3 base (start + base) cache (kVmGlobal OR kVmAll OR kVmHuge2MB))
          (remap_large fuel cr3 (base + MiB 2) endp cache)
        else kthen (vm_port_map cr3 base (start + base) cache (kVmGlobal OR kVmAll))
          (remap_large fuel cr3 (base + PAGE_SIZE) endp cache))
      else kreturn base)"

definition remap_memmap_entry :: "bool \<Rightarrow> nat \<Rightarrow> u64 \<Rightarrow> u64 \<Rightarrow> u64 \<Rightarrow> u64 \<Rightarrow> (mm, unit) km" where
  "remap_memmap_entry huge fuel cr3 base len cache =
     (let endp = base + len
      in kbind (remap_head huge fuel cr3 base endp cache) (\<lambda>base.
         kbind (if huge then remap_large fuel cr3 base endp cache else kreturn base) (\<lambda>base.
         kassert (base \<le> endp) ''base <= end'')))"

section \<open>One more page\<close>

text \<open>A range that fits into the direct map, which starts at a multiple of a gigabyte.\<close>

definition direct_range :: "u64 \<Rightarrow> nat \<Rightarrow> bool" where
  "direct_range hh e \<longleftrightarrow> 2 ^ 30 dvd unat hh \<and> unat hh + e \<le> 2 ^ 64 \<and> e \<le> 2 ^ 47"

lemma direct_addr:
  assumes "direct_range hh e" and "x < e"
  shows "unat (hh + of_nat x) = unat hh + x" and "unat (of_nat x :: u64) = x"
proof -
  have x: "x < 2 ^ 64" "unat hh + x < 2 ^ 64" using assms by (auto simp: direct_range_def)
  then show "unat (of_nat x :: u64) = x" using unat_of_nat [where 'a = 64, of x] by simp
  then show "unat (hh + of_nat x) = unat hh + x" using x(2) unat_add_lem [of hh "of_nat x"] by simp
qed

lemma direct_div:
  assumes "direct_range hh e" and "x < e" and "s \<le> 30"
  shows "unat (hh + of_nat x) div 2 ^ s = unat hh div 2 ^ s + x div 2 ^ s"
    and "unat (hh + of_nat x) mod 2 ^ s = x mod 2 ^ s"
proof -
  have "2 ^ s dvd unat hh"
    using assms by (auto simp: direct_range_def intro: dvd_trans [OF le_imp_power_dvd])
  then obtain k where "unat hh = 2 ^ s * k" by (auto elim: dvdE)
  then show "unat (hh + of_nat x) div 2 ^ s = unat hh div 2 ^ s + x div 2 ^ s"
    "unat (hh + of_nat x) mod 2 ^ s = x mod 2 ^ s"
    using direct_addr(1) [OF assms(1,2)] by simp_all
qed

lemma direct_path:
  assumes "direct_range hh e" and "x < e" and "y < e" and "n \<in> {2, 3, 4}"
  shows "take n (path_of (hh + of_nat x)) = take n (path_of (hh + of_nat y)) \<longleftrightarrow>
     x div 2 ^ page_shift n = y div 2 ^ page_shift n"
proof -
  have "e \<le> 2 ^ 47" "page_shift n \<le> 30" using assms(1,4) by (auto simp: direct_range_def)
  then show ?thesis
    using assms direct_addr(1) [OF assms(1,2)] direct_addr(1) [OF assms(1,3)]
      direct_div(1) [OF assms(1,2)] direct_div(1) [OF assms(1,3)]
    by (subst take_path_near) auto
qed

text \<open>The range is mapped up to \<open>b\<close>, and nothing else is translated differently.\<close>

definition direct_inv :: "u64 \<Rightarrow> u64 \<Rightarrow> nat \<Rightarrow> mm \<Rightarrow> nat \<Rightarrow> mm \<Rightarrow> bool" where
  "direct_inv root hh b0 m b t \<longleftrightarrow> pm_inv t \<and> pm_same m t \<and> pt_ok t root \<and>
     set (mm_buddy_freelist t ! 0) \<subseteq> set (mm_buddy_freelist m ! 0) \<and>
     (\<forall>x. b0 \<le> x \<and> x < b \<longrightarrow> maps_to t root (hh + of_nat x) x) \<and>
     (\<forall>va. (\<forall>x. b0 \<le> x \<and> x < b \<longrightarrow> path_of va \<noteq> path_of (hh + of_nat x)) \<longrightarrow>
        hw_walk t root (path_of va) = hw_walk m root (path_of va))"

definition unmapped :: "u64 \<Rightarrow> u64 \<Rightarrow> nat \<Rightarrow> nat \<Rightarrow> mm \<Rightarrow> bool" where
  "unmapped root hh b e m \<longleftrightarrow> (\<forall>x. b \<le> x \<and> x < e \<longrightarrow> hw_walk m root (path_of (hh + of_nat x)) = None)"

lemma page_offset:
  assumes "direct_range hh e" and "n \<in> {2, 3, 4}" and "2 ^ page_shift n dvd b" and "b + 2 ^ page_shift n \<le> e"
    and "take n (path_of va) = take n (path_of (hh + of_nat b))"
  obtains x where "b \<le> x" and "x < b + 2 ^ page_shift n" and "path_of va = path_of (hh + of_nat x)"
proof -
  have b: "b < e" using assms(4) by (rule less_le_trans [rotated]) simp
  have "page_shift n \<le> 30" using assms(2) by auto
  then have "2 ^ page_shift n dvd unat (hh + of_nat b)"
    using direct_div(2) [OF assms(1) b] assms(3) by (simp add: dvd_eq_mod_eq_0)
  from path_low_bits [OF assms(2,5) this]
  have "path_of va = path_of (hh + of_nat (b + unat va mod 2 ^ page_shift n))" by (simp add: add.assoc)
  then show thesis by (intro that [of "b + unat va mod 2 ^ page_shift n"]) simp_all
qed

lemma direct_unmapped:
  assumes "direct_range hh e" and "unmapped root hh b0 e m" and "direct_inv root hh b0 m b t"
    and "4096 dvd b" and "b0 \<le> b" and "b \<le> x" and "x < e"
  shows "hw_walk t root (path_of (hh + of_nat x)) = None"
proof -
  have "path_of (hh + of_nat x) \<noteq> path_of (hh + of_nat y)" if "y < b" for y
  proof
    assume eq: "path_of (hh + of_nat x) = path_of (hh + of_nat y)"
    have "y < e" using that assms(6,7) by linarith
    from direct_path [OF assms(1,7) this, of 4] eq have d: "x div 2 ^ 12 = y div 2 ^ 12"
      by (simp del: div_exp_eq)
    obtain k where "b = 4096 * k" using assms(4) by (auto elim: dvdE)
    then have "y div 4096 < k" "k \<le> x div 4096"
      using that assms(6) by (simp_all add: div_less_iff_less_mult less_eq_div_iff_mult_less_eq mult.commute)
    with d show False by simp
  qed
  then have "hw_walk t root (path_of (hh + of_nat x)) = hw_walk m root (path_of (hh + of_nat x))"
    using assms(3) by (simp add: direct_inv_def)
  then show ?thesis using assms(2,5-7) by (simp add: unmapped_def)
qed

lemma maps_to_cong: "hw_walk t root (path_of va) = hw_walk m root (path_of va) \<Longrightarrow> maps_to t root va pa = maps_to m root va pa"
  by (simp add: maps_to_def)

lemma direct_step:
  assumes rg: "direct_range hh e" and inv: "direct_inv root hh b0 m b t" and n: "n \<in> {2, 3, 4}"
    and al: "2 ^ page_shift n dvd b" and fit: "b + 2 ^ page_shift n \<le> e" and le: "b0 \<le> b"
    and step: "page_step root n (hh + of_nat b) (of_nat b) t t'"
  shows "direct_inv root hh b0 m (b + 2 ^ page_shift n) t'"
proof -
  let ?s = "page_shift n"
  have s: "?s \<le> 30" using n by auto
  have b: "b < e" using fit by (rule less_le_trans [rotated]) simp
  have other: "hw_walk t' root (path_of va) = hw_walk t root (path_of va)"
    if "take n (path_of va) \<noteq> take n (path_of (hh + of_nat b))" for va
    using step that by (simp add: page_step_def)
  have "maps_to t' root (hh + of_nat x) x" if x: "b0 \<le> x" "x < b + 2 ^ ?s" for x
  proof -
    have xe: "x < e" using x(2) fit by simp
    note same = direct_path [OF rg xe b n]
    obtain k where k: "b = 2 ^ ?s * k" using al by (auto elim: dvdE)
    show ?thesis
    proof (cases "x < b")
      case True
      then have "x div 2 ^ ?s < k" by (simp add: k div_less_iff_less_mult mult.commute)
      then have "take n (path_of (hh + of_nat x)) \<noteq> take n (path_of (hh + of_nat b))" using same by (simp add: k)
      then show ?thesis
        using maps_to_cong [OF other] inv x(1) True by (simp add: direct_inv_def)
    next
      case False
      then obtain y where y: "x = 2 ^ ?s * k + y" "y < 2 ^ ?s"
        using x(2) k by (metis add_less_cancel_left le_iff_add not_less)
      then have "take n (path_of (hh + of_nat x)) = take n (path_of (hh + of_nat b))" using same by (simp add: k)
      then have "maps_to t' root (hh + of_nat x) (unat (of_nat b :: u64) + unat (hh + of_nat x) mod 2 ^ ?s)"
        using step by (simp add: page_step_def)
      moreover have "unat (hh + of_nat x) mod 2 ^ ?s = y"
        using direct_div(2) [OF rg xe s] y by simp
      ultimately show ?thesis using direct_addr(2) [OF rg b] y(1) k by simp
    qed
  qed
  moreover have "hw_walk t' root (path_of va) = hw_walk m root (path_of va)"
    if va: "\<forall>x. b0 \<le> x \<and> x < b + 2 ^ ?s \<longrightarrow> path_of va \<noteq> path_of (hh + of_nat x)" for va
  proof -
    have "take n (path_of va) \<noteq> take n (path_of (hh + of_nat b))"
      using page_offset [OF rg n al fit] va le by (metis le_trans)
    then show ?thesis using other inv va by (simp add: direct_inv_def)
  qed
  ultimately show ?thesis
    using step inv pm_same_trans by (auto simp: direct_inv_def page_step_def)
qed

section \<open>The loops\<close>

lemma of_nat_addr:
  assumes "x \<le> 2 ^ 48" and "y \<le> 2 ^ 48"
  shows "(of_nat x :: u64) < of_nat y \<longleftrightarrow> x < y" and "(of_nat x :: u64) \<le> of_nat y \<longleftrightarrow> x \<le> y"
    and "(of_nat x :: u64) mod MiB 2 = 0 \<longleftrightarrow> x mod 2 ^ 21 = 0" and "(of_nat x :: u64) mod GiB 1 = 0 \<longleftrightarrow> x mod 2 ^ 30 = 0"
    and "(of_nat x :: u64) + PAGE_SIZE = of_nat (x + 4096)" and "(of_nat x :: u64) + MiB 2 = of_nat (x + 2 ^ 21)"
    and "(of_nat x :: u64) + GiB 1 = of_nat (x + 2 ^ 30)"
  using assms unat_of_nat [where 'a = 64, of x] unat_of_nat [where 'a = 64, of y]
  by (simp_all add: word_less_nat_alt word_le_nat_alt word_unat_eq_iff [of "_ mod _"] unat_mod MiB_def GiB_def PAGE_SIZE_def)

lemma remap_flags:
  "map_levels (kVmGlobal OR kVmAll) = 4" "map_levels (kVmGlobal OR kVmAll OR kVmHuge2MB) = 3"
  "map_levels (kVmGlobal OR kVmAll OR kVmHuge1GB) = 2"
  "(kVmGlobal OR kVmAll) AND kVmHuge = 0" "drop_bit kVmHugeShift (kVmGlobal OR kVmAll OR kVmHuge2MB) = 21"
  "drop_bit kVmHugeShift (kVmGlobal OR kVmAll OR kVmHuge1GB) = 30"
  "(kVmGlobal OR kVmAll) AND kVmRead \<noteq> 0" "(kVmGlobal OR kVmAll OR kVmHuge2MB) AND kVmRead \<noteq> 0"
  "(kVmGlobal OR kVmAll OR kVmHuge1GB) AND kVmRead \<noteq> 0"
  by (simp_all add: map_levels_def kVmGlobal_def kVmAll_def kVmRead_def kVmWrite_def kVmHuge_def kVmHuge2MB_def
      kVmHuge1GB_def kVmHugeShift_def)

lemma direct_map_page:
  fixes m cr3
  defines "hh \<equiv> mm_hhdm m" and "root \<equiv> P2V (mm_hhdm m) cr3"
  assumes rg: "direct_range hh e" and un: "unmapped root hh b0 e m" and lock: "\<not> mm_buddy_lock m"
    and inv: "direct_inv root hh b0 m b t" and le: "b0 \<le> b"
    and fl: "flags \<in> {kVmGlobal OR kVmAll, kVmGlobal OR kVmAll OR kVmHuge2MB, kVmGlobal OR kVmAll OR kVmHuge1GB}"
    and n: "n = map_levels flags" and al: "2 ^ page_shift n dvd b" and fit: "b + 2 ^ page_shift n \<le> e"
    and free: "3 \<le> length (mm_buddy_freelist t ! 0) \<or> n = 4 \<and> tbl t root (take 3 (path_of (hh + of_nat b))) \<noteq> None"
  shows "runs_to (vm_port_map cr3 (of_nat b) (hh + of_nat b) cache flags) t (\<lambda>_ t'.
     direct_inv root hh b0 m (b + 2 ^ page_shift n) t' \<and> page_step root n (hh + of_nat b) (of_nat b) t t')"
proof -
  have n3: "n \<in> {2, 3, 4}" using fl by (auto simp: n remap_flags)
  have s: "page_shift n \<le> 30" "12 \<le> page_shift n" using n3 by auto
  have b: "b < e" using fit by (rule less_le_trans [rotated]) simp
  have t: "pm_inv t" "pt_ok t root" "mm_hhdm t = mm_hhdm m" "\<not> mm_buddy_lock t"
    using inv lock by (auto simp: direct_inv_def pm_same_def)
  have "(2::nat) ^ 12 dvd 2 ^ page_shift n" using s(2) by (rule le_imp_power_dvd)
  then have b12: "4096 dvd b" using al by (simp add: dvd_trans [OF _ al])
  have none: "hw_walk t root (path_of va) = None" if va: "take n (path_of va) = take n (path_of (hh + of_nat b))" for va
  proof -
    obtain x where "b \<le> x" "x < b + 2 ^ page_shift n" "path_of va = path_of (hh + of_nat x)"
      by (rule page_offset [OF rg n3 al fit va])
    then show ?thesis using direct_unmapped [OF rg un inv b12 le, of x] fit by simp
  qed
  have e: "e \<le> 2 ^ 47" using rg by (simp add: direct_range_def)
  have "runs_to (vm_port_map cr3 (of_nat b) (hh + of_nat b) cache flags) t
      (\<lambda>_. page_step (P2V (mm_hhdm t) cr3) (map_levels flags) (hh + of_nat b) (of_nat b) t)"
  proof (rule vm_port_map_page)
    show "flags AND kVmHuge = 0 \<or> drop_bit kVmHugeShift flags = 21 \<or> drop_bit kVmHugeShift flags = 30"
      using fl remap_flags(4-6) by blast
    show "flags AND kVmRead \<noteq> 0" using fl remap_flags(7-9) by blast
    show "unat (of_nat b :: u64) + 2 ^ page_shift (map_levels flags) \<le> 2 ^ 52"
      using direct_addr(2) [OF rg b] fit e by (simp add: n [symmetric])
    show "2 ^ page_shift (map_levels flags) dvd unat (of_nat b :: u64)"
      using direct_addr(2) [OF rg b] al by (simp add: n [symmetric])
    show "2 ^ page_shift (map_levels flags) dvd unat (hh + of_nat b)"
      using direct_div(2) [OF rg b s(1)] al by (simp add: n [symmetric] dvd_eq_mod_eq_0)
  qed (use t free none in \<open>simp_all add: root_def n\<close>)
  then show ?thesis
    by (rule runs_to_mono)
      (use direct_step [OF rg inv n3 al fit le] in \<open>auto simp: t root_def n [symmetric]\<close>)
qed

text \<open>
  Tables are created at the start of the range and at multiples of 2 megabytes only; between them the
  table of the page before is there. \<open>tables_left\<close> counts these places.
\<close>

definition tables_left :: "nat \<Rightarrow> nat \<Rightarrow> nat \<Rightarrow> nat" where
  "tables_left b0 b e = (e + (2 ^ 21 - 1)) div 2 ^ 21 - (b + (2 ^ 21 - 1)) div 2 ^ 21 + (if b = b0 then 1 else 0)"

text \<open>The state a loop works on: the range is mapped up to \<open>b\<close>, and there are frames for the tables.\<close>

definition remap_state :: "u64 \<Rightarrow> nat \<Rightarrow> nat \<Rightarrow> mm \<Rightarrow> nat \<Rightarrow> mm \<Rightarrow> bool" where
  "remap_state cr3 b0 e m b t \<longleftrightarrow> direct_inv (P2V (mm_hhdm m) cr3) (mm_hhdm m) b0 m b t \<and>
     b0 \<le> b \<and> b \<le> e \<and> 4096 dvd b \<and> 3 * tables_left b0 b e \<le> length (mm_buddy_freelist t ! 0) \<and>
     (b \<noteq> b0 \<and> b mod 2 ^ 21 \<noteq> 0 \<and> b < e \<longrightarrow>
        tbl t (P2V (mm_hhdm m) cr3) (take 3 (path_of (mm_hhdm m + of_nat b))) \<noteq> None)"

definition remap_ready :: "u64 \<Rightarrow> nat \<Rightarrow> nat \<Rightarrow> mm \<Rightarrow> bool" where
  "remap_ready cr3 b0 e m \<longleftrightarrow> direct_range (mm_hhdm m) e \<and> unmapped (P2V (mm_hhdm m) cr3) (mm_hhdm m) b0 e m \<and>
     \<not> mm_buddy_lock m \<and> 4096 dvd e"

lemma count_step:
  "X \<le> Y \<Longrightarrow> Y \<le> Z \<Longrightarrow> (c \<Longrightarrow> X < Y) \<Longrightarrow> Z - Y + (if d \<or> c then 1 else 0) \<le> Z - X + (if d then 1 else 0)"
  for X Y Z :: nat
  by (cases c; cases d) auto

lemma tables_left_step:
  assumes "b0 \<le> b" and "b + 2 ^ s \<le> e" and "12 \<le> s"
  shows "tables_left b0 (b + 2 ^ s) e + (if b = b0 \<or> b mod 2 ^ 21 = 0 then 1 else 0) \<le> tables_left b0 b e"
proof -
  let ?up = "\<lambda>x. (x + (2 ^ 21 - 1)) div 2 ^ 21 :: nat"
  have p: "(0::nat) < 2 ^ s" by simp
  have mono: "?up b \<le> ?up (b + 2 ^ s)" "?up (b + 2 ^ s) \<le> ?up e" using assms(2) by (auto intro!: div_le_mono)
  have "?up b < ?up (b + 2 ^ s)" if "b mod 2 ^ 21 = 0"
  proof -
    have "2 ^ 21 dvd b" using that by (rule mod_0_imp_dvd)
    then obtain k where k: "b = 2 ^ 21 * k" by (rule dvdE)
    have "Suc k = (2 ^ 21 * k + 2 ^ 21) div 2 ^ 21" by simp
    also have "\<dots> \<le> ?up (b + 2 ^ s)" using p unfolding k by (intro div_le_mono) simp
    finally show ?thesis by (simp add: k)
  qed
  moreover have "b + 2 ^ s \<noteq> b0" using assms(1) p by linarith
  ultimately show ?thesis using count_step [OF mono, of "b mod 2 ^ 21 = 0" "b = b0"] by (simp add: tables_left_def)
qed

lemma tables_left_bound: "tables_left b b (b + n) \<le> n div 2 ^ 21 + 2"
proof -
  have "(b + n + (2 ^ 21 - 1)) div 2 ^ 21 \<le> (b + (2 ^ 21 - 1)) div 2 ^ 21 + n div 2 ^ 21 + 1"
    using div_add1_eq [of "b + (2 ^ 21 - 1)" n "2 ^ 21"] by (simp add: ac_simps)
  then show ?thesis by (simp add: tables_left_def)
qed

lemma same_large_page:
  fixes b :: nat
  assumes "4096 dvd b" and "(b + 4096) mod 2 ^ 21 \<noteq> 0"
  shows "(b + 4096) div 2 ^ 21 = b div 2 ^ 21"
proof -
  obtain k where k: "b = 4096 * k" using assms(1) by (rule dvdE)
  have d: "4096 * x div 2 ^ 21 = x div 512" "4096 * x mod 2 ^ 21 = 4096 * (x mod 512)" for x :: nat
    using div_mult_mult1 [of 4096 x 512] mult_mod_right [of 4096 x 512] by simp_all
  have s: "b + 4096 = 4096 * Suc k" by (simp add: k)
  have "Suc k mod 512 \<noteq> 0" using assms(2) unfolding s d by simp
  then have "Suc k div 512 = k div 512" by (simp add: div_Suc)
  then show ?thesis unfolding s d by (simp add: k d)
qed

lemma remap_call:
  assumes ready: "remap_ready cr3 b0 e m" and st: "remap_state cr3 b0 e m b t"
    and fl: "flags \<in> {kVmGlobal OR kVmAll, kVmGlobal OR kVmAll OR kVmHuge2MB, kVmGlobal OR kVmAll OR kVmHuge1GB}"
    and s: "page_shift (map_levels flags) = s" and al: "2 ^ s dvd b" and fit: "b + 2 ^ s \<le> e"
  shows "runs_to (vm_port_map cr3 (of_nat b) (mm_hhdm t + of_nat b) cache flags) t (\<lambda>_. remap_state cr3 b0 e m (b + 2 ^ s))"
proof -
  let ?n = "map_levels flags" and ?root = "P2V (mm_hhdm m) cr3" and ?va = "\<lambda>x. mm_hhdm m + of_nat x"
  have h: "mm_hhdm t = mm_hhdm m" using st by (auto simp: remap_state_def direct_inv_def pm_same_def)
  have n: "?n = 4 \<and> s = 12 \<or> ?n \<noteq> 4 \<and> 21 \<le> s" using s by (auto simp: map_levels_def split: if_splits)
  then have s12: "12 \<le> s" by auto
  have big: "(2::nat) ^ 21 dvd b" "(2::nat) ^ 21 dvd b + 2 ^ s" if "21 \<le> s"
    using dvd_trans [OF le_imp_power_dvd [OF that] al] le_imp_power_dvd [OF that, of "2::nat"] by simp_all
  note left = tables_left_step [OF _ fit s12, of b0]
  have b: "b < e" using fit by (rule less_le_trans [rotated]) simp
  have free: "3 \<le> length (mm_buddy_freelist t ! 0) \<or> ?n = 4 \<and> tbl t ?root (take 3 (path_of (?va b))) \<noteq> None"
  proof (cases "b = b0 \<or> b mod 2 ^ 21 = 0")
    case True
    then show ?thesis using left st by (simp add: remap_state_def)
  next
    case False
    then show ?thesis using st b n big(1) by (auto simp: remap_state_def)
  qed
  have "runs_to (vm_port_map cr3 (of_nat b) (?va b) cache flags) t (\<lambda>_ t'.
     direct_inv ?root (mm_hhdm m) b0 m (b + 2 ^ s) t' \<and> page_step ?root ?n (?va b) (of_nat b) t t')"
    using assms free by (subst s [symmetric], intro direct_map_page [OF _ _ _ _ _ fl refl])
      (auto simp: remap_ready_def remap_state_def)
  then show ?thesis
    unfolding h
  proof (rule runs_to_mono, elim conjE, goal_cases)
    case (1 u t')
    have "(2::nat) ^ 12 dvd 2 ^ s" using s12 by (rule le_imp_power_dvd)
    then have "4096 dvd b + 2 ^ s" using st by (simp add: remap_state_def)
    moreover have "3 * tables_left b0 (b + 2 ^ s) e \<le> length (mm_buddy_freelist t' ! 0)"
    proof (cases "b = b0 \<or> b mod 2 ^ 21 = 0")
      case True
      then have "3 * tables_left b0 (b + 2 ^ s) e + 3 \<le> length (mm_buddy_freelist t ! 0)"
        using left st by (simp add: remap_state_def)
      then show ?thesis using 1(3) by (simp add: page_step_def)
    next
      case False
      then have "length (mm_buddy_freelist t ! 0) \<le> length (mm_buddy_freelist t' ! 0)"
        using 1(3) st b n big(1) by (auto simp: page_step_def remap_state_def)
      then show ?thesis using left st False by (simp add: remap_state_def)
    qed
    moreover have "tbl t' ?root (take 3 (path_of (?va (b + 2 ^ s)))) \<noteq> None"
      if c: "(b + 2 ^ s) mod 2 ^ 21 \<noteq> 0" "b + 2 ^ s < e"
    proof -
      have n4: "?n = 4" "s = 12" using n big(2) c(1) by auto
      have "(b + 4096) mod 2 ^ 21 \<noteq> 0" "4096 dvd b" using c(1) n4 st by (simp_all add: remap_state_def)
      then have "b div 2 ^ 21 = (b + 4096) div 2 ^ 21" using same_large_page by simp
      then have "take 3 (path_of (?va (b + 2 ^ s))) = take 3 (path_of (?va b))"
        using direct_path [of "mm_hhdm m" e "b + 2 ^ s" b 3] c(2) b ready n4 by (simp add: remap_ready_def)
      then show ?thesis using 1(3) n4 by (simp add: page_step_def)
    qed
    ultimately show ?case using 1 st fit by (auto simp: remap_state_def)
  qed
qed

lemma remap_small_fits:
  "remap_ready cr3 b0 e m \<Longrightarrow> remap_state cr3 b0 e m b t \<Longrightarrow> b < e \<Longrightarrow> b + 4096 \<le> e"
  by (auto simp: remap_ready_def remap_state_def elim!: dvdE)

lemma remap_addr:
  assumes "remap_ready cr3 b0 e m" and "remap_state cr3 b0 e m b t"
  shows "b \<le> 2 ^ 48" "e \<le> 2 ^ 48" "b + 2 ^ 30 \<le> 2 ^ 48" "b + 2 ^ 21 \<le> 2 ^ 48"
proof -
  have "e \<le> 2 ^ 47" "b \<le> e" using assms by (auto simp: remap_ready_def direct_range_def remap_state_def)
  then show "b \<le> 2 ^ 48" "e \<le> 2 ^ 48" "b + 2 ^ 30 \<le> 2 ^ 48" "b + 2 ^ 21 \<le> 2 ^ 48" by simp_all
qed

text \<open>A round needs one unit of the bound and takes at least a page off the range.\<close>

lemma rounds_left: "b + 2 ^ s \<le> e \<Longrightarrow> 12 \<le> s \<Longrightarrow> (e - b) div 4096 < Suc fuel \<Longrightarrow> (e - (b + 2 ^ s)) div 4096 < fuel" for b e :: nat
proof -
  assume a: "b + 2 ^ s \<le> e" "12 \<le> s" "(e - b) div 4096 < Suc fuel"
  have "(2::nat) ^ 12 \<le> 2 ^ s" using a(2) by (rule power_increasing) simp
  then have "e - (b + 2 ^ s) + 4096 \<le> e - b" using a(1) by simp
  then have "(e - (b + 2 ^ s) + 4096) div 4096 \<le> (e - b) div 4096" by (rule div_le_mono)
  then show ?thesis using a(3) by simp
qed

lemma remap_head_correct:
  assumes "remap_ready cr3 b0 e m" and "remap_state cr3 b0 e m b t" and "(e - b) div 4096 < fuel"
  shows "runs_to (remap_head huge fuel cr3 (of_nat b) (of_nat e) cache) t (\<lambda>r t'.
     \<exists>c. r = of_nat c \<and> b \<le> c \<and> remap_state cr3 b0 e m c t' \<and> (huge \<or> c = e))"
  using assms(2,3)
proof (induction fuel arbitrary: b t)
  case 0
  then show ?case by simp
next
  case (Suc fuel)
  note addr = of_nat_addr [OF remap_addr(1,2) [OF assms(1) Suc.prems(1)]]
  show ?case
  proof (cases "b < e \<and> \<not> (huge \<and> b mod 2 ^ 21 = 0)")
    case True
    then have fit: "b + 2 ^ 12 \<le> e" using remap_small_fits [OF assms(1) Suc.prems(1)] by simp
    have call: "runs_to (vm_port_map cr3 (of_nat b) (mm_hhdm t + of_nat b) cache (kVmGlobal OR kVmAll)) t
        (\<lambda>_. remap_state cr3 b0 e m (b + 2 ^ 12))"
      using Suc.prems(1) fit by (intro remap_call [OF assms(1)]) (auto simp: remap_flags remap_state_def)
    have body: "remap_head huge (Suc fuel) cr3 (of_nat b) (of_nat e) cache t =
        kthen (vm_port_map cr3 (of_nat b) (mm_hhdm t + of_nat b) cache (kVmGlobal OR kVmAll))
          (remap_head huge fuel cr3 (of_nat (b + 2 ^ 12)) (of_nat e) cache) t"
      using True by (auto simp: addr(1,3,5) kbind_def kget_def simp del: of_nat_add)
    have "runs_to (kthen (vm_port_map cr3 (of_nat b) (mm_hhdm t + of_nat b) cache (kVmGlobal OR kVmAll))
          (remap_head huge fuel cr3 (of_nat (b + 2 ^ 12)) (of_nat e) cache)) t (\<lambda>r t'.
     \<exists>c. r = of_nat c \<and> b \<le> c \<and> remap_state cr3 b0 e m c t' \<and> (huge \<or> c = e))"
      unfolding runs_to_kthen
      by (rule runs_to_mono [OF call], rule runs_to_mono [OF Suc.IH [OF _ rounds_left [OF fit _ Suc.prems(2)]]])
        (auto intro: le_trans [rotated])
    then show ?thesis by (simp only: runs_to_def body)
  next
    case False
    then show ?thesis using Suc.prems(1) by (auto simp: addr(1,3) wp remap_state_def intro!: exI [of _ b])
  qed
qed

lemma remap_large_correct:
  assumes "remap_ready cr3 b0 e m" and "remap_state cr3 b0 e m b t" and "(e - b) div 4096 < fuel"
  shows "runs_to (remap_large fuel cr3 (of_nat b) (of_nat e) cache) t (\<lambda>r t'. r = of_nat e \<and> remap_state cr3 b0 e m e t')"
  using assms(2,3)
proof (induction fuel arbitrary: b t)
  case 0
  then show ?case by simp
next
  case (Suc fuel)
  note bounds = remap_addr [OF assms(1) Suc.prems(1)]
  have "(of_nat (b + 1073741824) :: u64) \<le> of_nat e \<longleftrightarrow> b + 1073741824 \<le> e"
    "(of_nat (b + 2097152) :: u64) \<le> of_nat e \<longleftrightarrow> b + 2097152 \<le> e"
    using of_nat_addr(2) [OF bounds(3,2)] of_nat_addr(2) [OF bounds(4,2)] by (simp_all del: of_nat_add)
  note addr = this of_nat_addr [OF bounds(1,2)]
  have go: ?case if s: "page_shift (map_levels flags) = s" "2 ^ s dvd b" "b + 2 ^ s \<le> e" "12 \<le> s"
      and fl: "flags \<in> {kVmGlobal OR kVmAll, kVmGlobal OR kVmAll OR kVmHuge2MB, kVmGlobal OR kVmAll OR kVmHuge1GB}"
      and body: "remap_large (Suc fuel) cr3 (of_nat b) (of_nat e) cache t =
        kthen (vm_port_map cr3 (of_nat b) (mm_hhdm t + of_nat b) cache flags)
          (remap_large fuel cr3 (of_nat (b + 2 ^ s)) (of_nat e) cache) t" for flags s
  proof -
    note call = remap_call [OF assms(1) Suc.prems(1) fl s(1-3), of cache]
    have "runs_to (kthen (vm_port_map cr3 (of_nat b) (mm_hhdm t + of_nat b) cache flags)
          (remap_large fuel cr3 (of_nat (b + 2 ^ s)) (of_nat e) cache)) t (\<lambda>r t'. r = of_nat e \<and> remap_state cr3 b0 e m e t')"
      unfolding runs_to_kthen
      by (rule runs_to_mono [OF call], erule Suc.IH [OF _ rounds_left [OF s(3,4) Suc.prems(2)]])
    then show ?thesis by (simp only: runs_to_def body)
  qed
  consider (small) "b < e" "\<not> (b mod 2 ^ 30 = 0 \<and> b + 2 ^ 30 \<le> e)" "\<not> (b mod 2 ^ 21 = 0 \<and> b + 2 ^ 21 \<le> e)"
    | (mega) "b < e" "\<not> (b mod 2 ^ 30 = 0 \<and> b + 2 ^ 30 \<le> e)" "b mod 2 ^ 21 = 0" "b + 2 ^ 21 \<le> e"
    | (giga) "b < e" "b mod 2 ^ 30 = 0" "b + 2 ^ 30 \<le> e" | (over) "\<not> b < e"
    by meson
  then show ?case
  proof cases
    case small
    then have fit: "b + 4096 \<le> e" using remap_small_fits [OF assms(1) Suc.prems(1)] by simp
    show ?thesis
      by (rule go [of "kVmGlobal OR kVmAll" 12])
        (use small fit Suc.prems(1) in \<open>auto simp: addr remap_flags remap_state_def kbind_def kget_def simp del: of_nat_add\<close>)
  next
    case mega
    then show ?thesis
      by (intro go [of "kVmGlobal OR kVmAll OR kVmHuge2MB" 21])
        (auto simp: addr remap_flags kbind_def kget_def simp del: of_nat_add)
  next
    case giga
    then show ?thesis
      by (intro go [of "kVmGlobal OR kVmAll OR kVmHuge1GB" 30])
        (auto simp: addr remap_flags kbind_def kget_def simp del: of_nat_add)
  next
    case over
    then have "b = e" using Suc.prems(1) by (simp add: remap_state_def)
    then show ?thesis using Suc.prems(1) by (simp add: wp)
  qed
qed

section \<open>The direct map\<close>

text \<open>C0: \<open>remap_memmap_entry\<close> on a page-aligned range that fits into the direct map, no page of which is
  mapped yet, returns with every physical address of the range mapped at its place in the direct map,
  whichever page sizes the loops chose and whether gigabyte pages exist or are emulated. No other
  address is translated differently, and the memory manager and the tables stay well formed. A round for
  each page of the range, and three free frames for each 2 megabytes and six more, are enough.\<close>

theorem remap_memmap_entry_maps_range:
  fixes m cr3 base len
  defines "root \<equiv> P2V (mm_hhdm m) cr3" and "b \<equiv> unat base" and "e \<equiv> unat base + unat len"
  assumes "pm_inv m" and "\<not> mm_buddy_lock m" and "pt_ok m root"
    and "direct_range (mm_hhdm m) e" and "4096 dvd unat base" and "4096 dvd unat len"
    and "unmapped root (mm_hhdm m) b e m"
    and "unat len div 4096 < fuel" and "3 * (unat len div 2 ^ 21 + 2) \<le> length (mm_buddy_freelist m ! 0)"
  shows "runs_to (remap_memmap_entry huge fuel cr3 base len cache) m (\<lambda>_ t.
     pm_inv t \<and> pm_same m t \<and> pt_ok t root \<and>
     (\<forall>x. b \<le> x \<and> x < e \<longrightarrow> maps_to t root (mm_hhdm m + of_nat x) x) \<and>
     (\<forall>va. (\<forall>x. b \<le> x \<and> x < e \<longrightarrow> path_of va \<noteq> path_of (mm_hhdm m + of_nat x)) \<longrightarrow>
        hw_walk t root (path_of va) = hw_walk m root (path_of va)))"
proof -
  have e: "e \<le> 2 ^ 47" using assms(7) by (simp add: direct_range_def)
  then have word: "base = of_nat b" "base + len = of_nat e" by (simp_all add: b_def e_def)
  have ready: "remap_ready cr3 b e m" using assms by (simp add: remap_ready_def)
  have st: "remap_state cr3 b e m b m"
    using assms tables_left_bound [of b "unat len"] by (auto simp: remap_state_def direct_inv_def e_def)
  have fuel: "(e - c) div 4096 < fuel" if "b \<le> c" for c
    using div_le_mono [of "e - c" "unat len" 4096] assms(11) that by (simp add: e_def b_def)
  have fin: "remap_state cr3 b e m e t \<Longrightarrow> pm_inv t \<and> pm_same m t \<and> pt_ok t root \<and>
     (\<forall>x. b \<le> x \<and> x < e \<longrightarrow> maps_to t root (mm_hhdm m + of_nat x) x) \<and>
     (\<forall>va. (\<forall>x. b \<le> x \<and> x < e \<longrightarrow> path_of va \<noteq> path_of (mm_hhdm m + of_nat x)) \<longrightarrow>
        hw_walk t root (path_of va) = hw_walk m root (path_of va))" for t
    by (simp add: remap_state_def direct_inv_def root_def)
  show ?thesis
    unfolding remap_memmap_entry_def Let_def word(2) runs_to_kbind unfolding word(1)
  proof (rule runs_to_mono [OF remap_head_correct [OF ready st fuel [OF order_refl], of huge cache]], elim exE conjE, goal_cases)
    case (1 r t c)
    show ?case
    proof (cases huge)
      case True
      then show ?thesis
        by (simp add: 1(1), intro runs_to_mono [OF remap_large_correct [OF ready 1(3) fuel [OF 1(2)]]])
          (use fin in \<open>simp add: wp\<close>)
    next
      case False
      then have "r = of_nat e" "remap_state cr3 b e m e t" using 1 by auto
      then show ?thesis using False fin [of t] by (simp add: wp)
    qed
  qed
qed

theorem remap_memmap_entry_maps_range_witness:
  "runs_to (kbind vm_port_init_map (\<lambda>cr3. kthen (remap_memmap_entry True 600 cr3 0x1FF000 0x201000 kVmWriteback)
       (kreturn cr3))) demo_mm16
     (\<lambda>cr3 t. maps_to t (P2V (mm_hhdm t) cr3) 0xFFFF8000001FF123 0x1FF123 \<and>
        maps_to t (P2V (mm_hhdm t) cr3) 0xFFFF800000312345 0x312345)"
  unfolding runs_to_kbind
proof (rule runs_to_mono [OF vm_port_init_map_correct [OF demo_mm16_facts(1,2) demo_free_pages(1)]], elim conjE, goal_cases)
  case (1 cr3 m')
  have h: "mm_hhdm m' = 0xFFFF800000000000" "\<not> mm_buddy_lock m'"
    using 1(2) demo_mm16_facts(2) by (simp_all add: pm_same_def demo_mm16_def added_region_simps demo_mm_def)
  have "runs_to (remap_memmap_entry True 600 cr3 0x1FF000 0x201000 kVmWriteback) m' (\<lambda>_ t. pm_same m' t \<and>
     (\<forall>x. 0x1FF000 \<le> x \<and> x < 0x400000 \<longrightarrow> maps_to t (P2V (mm_hhdm m') cr3) (mm_hhdm m' + of_nat x) x))"
    by (rule runs_to_mono [OF remap_memmap_entry_maps_range])
      (use 1 h demo_free_pages(2) in \<open>simp_all add: direct_range_def unmapped_def\<close>)
  note run = this
  have at: "mm_hhdm m' + of_nat 0x1FF123 = 0xFFFF8000001FF123" "mm_hhdm m' + of_nat 0x312345 = 0xFFFF800000312345"
    by (simp_all add: h)
  show ?case
    unfolding runs_to_kthen
  proof (rule runs_to_mono [OF run], goal_cases)
    case (1 u t)
    then have "maps_to t (P2V (mm_hhdm m') cr3) (mm_hhdm m' + of_nat x) x" if "0x1FF000 \<le> x" "x < 0x400000" for x
      using that by blast
    from this [of "0x1FF123"] this [of "0x312345"] show ?case using 1 by (simp add: wp pm_same_def at del: of_nat_numeral)
  qed
qed

end
