(* ===== verification/Boot_Entry.thy ===== *)
theory Boot_Entry
  imports Boot_Map Symbols
begin

text \<open>
  What the kernel does with memory before anything else runs
  (\<^verbatim>\<open>platform/limine-generic/entry.c\<close>, \<^verbatim>\<open>platform/amd64/entry.c\<close>): the usable ranges of the boot
  loader's memory map become regions of the memory manager, the sections of the kernel and the direct
  map are mapped, and the processor's table of memory types is set. The answers of the boot loader
  (memory map, address of the kernel, the values of its type constants) and the section boundaries the
  linker defines are arguments.
\<close>

section \<open>Data\<close>

record memmap_entry =
  me_base :: u64
  me_length :: u64
  me_type :: u64

record boot_state =
  bs_mm :: mm
  bs_symbols :: symtab

definition on_mm :: "(mm, 'a) km \<Rightarrow> (boot_state, 'a) km" where
  "on_mm c = (\<lambda>s. case c (bs_mm s) of Inl e \<Rightarrow> Inl e | Inr (x, m) \<Rightarrow> Inr (x, s\<lparr>bs_mm := m\<rparr>))"

definition MEM_KERNEL_BASE :: u64 where "MEM_KERNEL_BASE = 0xFFFFFFFF80000000"

definition kVmKernelCode :: u64 where "kVmKernelCode = kVmRead OR kVmExecute"

section \<open>Operations\<close>

definition early_port_add_pmem :: "u64 \<Rightarrow> memmap_entry list \<Rightarrow> (mm, unit) km" where
  "early_port_add_pmem usable entries =
     kfor entries (\<lambda>entry. kwhen (me_type entry = usable) (pm_add_region (me_base entry) (me_length entry)))"

text \<open>The loop of \<open>MAP_SECTION\<close>.\<close>

fun map_section :: "nat \<Rightarrow> u64 \<Rightarrow> u64 \<Rightarrow> u64 \<Rightarrow> u64 \<Rightarrow> u64 \<Rightarrow> u64 \<Rightarrow> (mm, unit) km" where
  "map_section 0 cr3 paddr vaddr i endp vmflags = kfail OutOfFuel"
| "map_section (Suc fuel) cr3 paddr vaddr i endp vmflags =
     (if i < endp
      then kthen (vm_port_map cr3 (i - vaddr + paddr) i kVmWritethrough vmflags)
        (map_section fuel cr3 paddr vaddr (i + PAGE_SIZE) endp vmflags)
      else kreturn ())"

text \<open>A section is given by its first address and the one after its last.\<close>

definition remap_kernel :: "nat \<Rightarrow> u64 \<Rightarrow> u64 \<times> u64 \<Rightarrow> u64 \<times> u64 \<Rightarrow> u64 \<times> u64 \<Rightarrow> u64 \<Rightarrow> u64 \<Rightarrow> (boot_state, unit) km" where
  "remap_kernel fuel cr3 txt rodata dat paddr vaddr =
     (let offset = vaddr - MEM_KERNEL_BASE;
          sect = (\<lambda>(s, e) vmflags. map_section fuel cr3 paddr vaddr (PAGE_ALIGN_DOWN s) (PAGE_ALIGN_UP e) vmflags)
      in kthen (kmodify (bs_symbols_update (symbols_init offset)))
         (on_mm
           (kthen (sect txt (kVmKernelCode OR kVmGlobal))
           (kthen (sect rodata (kVmRead OR kVmGlobal))
           (sect dat (kVmAll OR kVmGlobal))))))"

definition early_port_map_memory ::
    "bool \<Rightarrow> nat \<Rightarrow> u64 \<Rightarrow> u64 \<Rightarrow> memmap_entry list \<Rightarrow> u64 \<times> u64 \<Rightarrow> u64 \<times> u64 \<Rightarrow> u64 \<times> u64 \<Rightarrow> u64 \<Rightarrow> u64 \<Rightarrow> (boot_state, unit) km" where
  "early_port_map_memory huge fuel cr3 framebuffer entries txt rodata dat paddr vaddr =
     kthen (remap_kernel fuel cr3 txt rodata dat paddr vaddr)
     (on_mm (kfor entries (\<lambda>entry.
        let base = PAGE_ALIGN_DOWN (me_base entry);
            len = PAGE_ALIGN_UP (me_length entry);
            cacheflags = (if me_type entry = framebuffer then kVmWritecombine else kVmWriteback)
        in remap_memmap_entry huge fuel cr3 base len cacheflags)))"

section \<open>Memory types\<close>

definition PAT_UC :: u64 where "PAT_UC = 0"

definition PAT_WC :: u64 where "PAT_WC = 1"

definition PAT_WT :: u64 where "PAT_WT = 4"

definition PAT_WP :: u64 where "PAT_WP = 5"

definition PAT_WB :: u64 where "PAT_WB = 6"

definition PAT_UCMINUS :: u64 where "PAT_UCMINUS = 7"

definition PA_N :: "u64 \<Rightarrow> nat \<Rightarrow> u64" where
  "PA_N ty n = push_bit (n * 8) ty"

text \<open>The value \<open>port_pat_setup\<close> writes to the register.\<close>

definition port_pat_setup :: u64 where
  "port_pat_setup = PA_N PAT_WB 0 OR PA_N PAT_WT 1 OR PA_N PAT_UCMINUS 2 OR PA_N PAT_UC 3 OR PA_N PAT_WP 4 OR PA_N PAT_WC 5"

text \<open>
  What the processor makes of an entry: two bits and the attribute bit, which is bit 7 in the entry of
  a small page and bit 12 in that of a large one, select a byte of the register.
\<close>

definition pat_index :: "bool \<Rightarrow> u64 \<Rightarrow> nat" where
  "pat_index large e = (if bit e 3 then 1 else 0) + (if bit e 4 then 2 else 0) + (if bit e (if large then 12 else 7) then 4 else 0)"

definition memory_type :: "u64 \<Rightarrow> bool \<Rightarrow> u64 \<Rightarrow> u64" where
  "memory_type pat large e = drop_bit (8 * pat_index large e) pat AND 0xff"

definition wanted_type :: "u64 \<Rightarrow> u64" where
  "wanted_type cache = (if cache = kVmWritecombine then PAT_WC else if cache = kVmWritethrough then PAT_WT
     else if cache = kVmWriteback then PAT_WB else PAT_UC)"

lemma map_entry_bits:
  fixes flags cache :: u64
  assumes "cache \<in> {kVmUncached, kVmWriteback, kVmWritethrough, kVmWritecombine}"
  shows "bit (map_entry f paddr cache flags) 3 \<longleftrightarrow> cache \<noteq> kVmWriteback"
    and "bit (map_entry f paddr cache flags) 4 \<longleftrightarrow> cache = kVmUncached"
    and "bit (map_entry f paddr cache flags) 7 \<longleftrightarrow> cache = kVmWritecombine \<or> flags AND kVmHuge \<noteq> 0"
    and "bit (map_entry f paddr cache flags) 12 \<longleftrightarrow> bit paddr 12"
  using assms
  by (auto simp: map_entry_def bit_or_iff PAGE_ALIGN_DOWN_bits pte_defs kVmUncached_def kVmWriteback_def
      kVmWritethrough_def kVmWritecombine_def)

text \<open>C0: The page tables and the table of memory types fit together: with the value \<open>port_pat_setup\<close>
  writes, the entry of a small page has exactly the memory type \<open>vm_port_map\<close> was asked for. For a
  large page the same holds for three of the four types, but a request for write-combining gives
  write-through, because the bit the code sets is the page-size bit there.\<close>

theorem map_entry_memory_type:
  assumes "cache \<in> {kVmUncached, kVmWriteback, kVmWritethrough, kVmWritecombine}"
    and "flags AND kVmHuge \<noteq> 0 \<Longrightarrow> \<not> bit paddr 12"
  shows "memory_type port_pat_setup (flags AND kVmHuge \<noteq> 0) (map_entry f paddr cache flags) =
     (if flags AND kVmHuge \<noteq> 0 \<and> cache = kVmWritecombine then PAT_WT else wanted_type cache)"
  using assms map_entry_bits [OF assms(1), of f paddr flags]
  by (auto simp: memory_type_def pat_index_def wanted_type_def port_pat_setup_def PA_N_def PAT_UC_def PAT_WC_def PAT_WT_def
      PAT_WP_def PAT_WB_def PAT_UCMINUS_def kVmUncached_def kVmWriteback_def kVmWritethrough_def kVmWritecombine_def)

theorem map_entry_memory_type_witness:
  "memory_type port_pat_setup False (map_entry \<lparr>ft_pge = True, ft_nx = True, ft_gbpages = True\<rparr> 0xE0001000 kVmWritecombine kVmAll) = PAT_WC \<and>
   memory_type port_pat_setup True
     (map_entry \<lparr>ft_pge = True, ft_nx = True, ft_gbpages = True\<rparr> 0xE0000000 kVmWritecombine (kVmAll OR kVmHuge2MB)) = PAT_WT"
proof
  show "memory_type port_pat_setup False (map_entry \<lparr>ft_pge = True, ft_nx = True, ft_gbpages = True\<rparr> 0xE0001000 kVmWritecombine kVmAll) = PAT_WC"
    using map_entry_memory_type [of kVmWritecombine kVmAll "0xE0001000"]
    by (simp add: wanted_type_def kVmAll_def kVmRead_def kVmWrite_def kVmHuge_def)
  show "memory_type port_pat_setup True
     (map_entry \<lparr>ft_pge = True, ft_nx = True, ft_gbpages = True\<rparr> 0xE0000000 kVmWritecombine (kVmAll OR kVmHuge2MB)) = PAT_WT"
    using map_entry_memory_type [of kVmWritecombine "kVmAll OR kVmHuge2MB" "0xE0000000"]
    by (simp add: kVmAll_def kVmRead_def kVmWrite_def kVmHuge_def kVmHuge2MB_def kVmHugeShift_def)
qed

section \<open>The memory map\<close>

text \<open>Every usable range is page-aligned, large enough and apart from those before it.\<close>

fun ranges_ok :: "u64 \<Rightarrow> memmap_entry list \<Rightarrow> mm \<Rightarrow> bool" where
  "ranges_ok usable [] m \<longleftrightarrow> True"
| "ranges_ok usable (en # es) m \<longleftrightarrow>
     (if me_type en = usable
      then room_for m (me_base en) (me_length en) \<and> ranges_ok usable es (added_region (me_base en) (me_length en) m)
      else ranges_ok usable es m)"

lemma early_port_add_pmem_correct:
  assumes "pm_inv m" and "\<not> mm_buddy_lock m" and "ranges_ok usable es m"
  shows "runs_to (early_port_add_pmem usable es) m (\<lambda>_ t. pm_inv t \<and> \<not> mm_buddy_lock t \<and>
     mm_regionlist t = mm_regionlist m @ map (\<lambda>en. P2V (mm_hhdm m) (me_base en)) (filter (\<lambda>en. me_type en = usable) es))"
  using assms
proof (induction es arbitrary: m)
  case Nil
  then show ?case by (simp add: early_port_add_pmem_def wp)
next
  case (Cons en es)
  show ?case
  proof (cases "me_type en = usable")
    case True
    let ?t = "added_region (me_base en) (me_length en) m"
    have room: "room_for m (me_base en) (me_length en)" using Cons.prems(3) True by simp
    have fl: "0 < length (mm_buddy_freelist m)" using pm_invD(4) [OF Cons.prems(1)] by (simp add: BUDDY_ORDERS_def)
    have "runs_to (early_port_add_pmem usable es) ?t (\<lambda>_ t. pm_inv t \<and> \<not> mm_buddy_lock t \<and>
       mm_regionlist t = mm_regionlist ?t @ map (\<lambda>en. P2V (mm_hhdm ?t) (me_base en)) (filter (\<lambda>en. me_type en = usable) es))"
      using Cons.prems True by (intro Cons.IH added_region_inv) (simp_all add: added_region_simps)
    then have rest: "runs_to (early_port_add_pmem usable es) ?t (\<lambda>_ t. pm_inv t \<and> \<not> mm_buddy_lock t \<and>
     mm_regionlist t = mm_regionlist m @ map (\<lambda>en. P2V (mm_hhdm m) (me_base en)) (filter (\<lambda>en. me_type en = usable) (en # es)))"
      by (rule runs_to_mono) (simp add: added_region_simps True)
    have k: "kwhen (me_type en = usable) c = c" for c :: "(mm, unit) km" using True by (simp add: kwhen_def)
    show ?thesis
      unfolding early_port_add_pmem_def runs_to_kfor_Cons k
      by (rule runs_to_mono [OF pm_add_region_runs [OF room Cons.prems(2) fl]])
        (use rest in \<open>simp add: early_port_add_pmem_def\<close>)
  next
    case False
    then show ?thesis using Cons by (simp add: early_port_add_pmem_def wp)
  qed
qed

end
