(* ===== verification/Spec2Isabelle.thy ===== *)
theory Spec2Isabelle
  imports Vmem_Props Sys_Queue Pm_Props Amd64_Props Strings Symbols Log_Props Ker_Mutex Ker_Engine Irq Slab_Props Boot_Entry
begin

text \<open>
  A verification library for the nyy kernel (\<^verbatim>\<open>src/kernel\<close>).
\<close>

end
